(* ===== verification/Prelude.thy ===== *)
theory Prelude
  imports Main "HOL-Library.Word" "HOL-Library.Monad_Syntax"
begin

text \<open>
  The shared base of the development: the machine-integer types of the program, the
  positional numerals that every printer and every number parser of the program is
  specified by, C strings, and the generic lemmas on words, bits and lists that the
  component proofs use.

  An unsigned C or Rust integer of w bits is a \<open>w word\<close>; a signed one is the same
  word read by \<open>sint\<close>. Additions, subtractions and multiplications of words wrap, as
  the generated code does.
\<close>

unbundle bit_operations_syntax

named_theorems word_bits \<open>rules that decide an equation of words bit by bit\<close>

subsection \<open>Machine integers\<close>

type_synonym u8 = "8 word"
type_synonym u16 = "16 word"
type_synonym u32 = "32 word"
type_synonym u64 = "64 word"

text \<open>The signed types share the representation of the unsigned ones.\<close>

type_synonym s16 = "16 word"
type_synonym s32 = "32 word"
type_synonym s64 = "64 word"

text \<open>The value an \<open>int\<close> takes when it is stored in a signed variable of 32 bits.\<close>

definition wrap_s32 :: "int \<Rightarrow> int" where
  "wrap_s32 x = signed_take_bit 31 x"

text \<open>The remainder of C, which has the sign of the dividend.\<close>

definition c_rem :: "int \<Rightarrow> int \<Rightarrow> int" where
  "c_rem a b = sgn a * (\<bar>a\<bar> mod \<bar>b\<bar>)"

subsection \<open>Positional numerals\<close>

text \<open>
  The digits of a number in a base, the most significant one first, and the value of
  a digit sequence by Horner's rule.
\<close>

fun digits_of :: "nat \<Rightarrow> nat \<Rightarrow> nat list" where
  "digits_of b n = (if b < 2 \<or> n < b then [n] else digits_of b (n div b) @ [n mod b])"

declare digits_of.simps [simp del]

definition digits_val :: "nat \<Rightarrow> nat list \<Rightarrow> nat" where
  "digits_val b ds = foldl (\<lambda>a d. a * b + d) 0 ds"

text \<open>A decimal digit as the character that stands for it.\<close>

definition dec_char :: "nat \<Rightarrow> u8" where
  "dec_char d = of_nat d + 0x30"

definition dec_string :: "nat \<Rightarrow> u8 list" where
  "dec_string n = map dec_char (digits_of 10 n)"

subsection \<open>Bytes in memory\<close>

text \<open>A write of consecutive bytes into a block; out of its bounds it fails.\<close>

definition mem_write :: "u8 list \<Rightarrow> nat \<Rightarrow> u8 list \<Rightarrow> u8 list option" where
  "mem_write mem i bs =
     (if i + length bs \<le> length mem then Some (take i mem @ bs @ drop (i + length bs) mem)
      else None)"

subsection \<open>C strings\<close>

text \<open>
  A pointer to a NUL-terminated string is the list of the bytes before the NUL;
  reading at the end of it gives the NUL.
\<close>

type_synonym cstring = "u8 list"

fun cdref :: "cstring \<Rightarrow> u8" where
  "cdref [] = 0"
| "cdref (c # _) = c"

definition cstr :: "string \<Rightarrow> cstring" where
  "cstr s = map of_char s"

lemma cstr_Nil [simp]: "cstr [] = []"
  by (simp add: cstr_def)

section \<open>Lemmas\<close>

subsection \<open>Words, bit by bit\<close>

lemma word_eq_upt:
  fixes v w :: "'a::len word"
  shows "v = w \<longleftrightarrow> list_all (\<lambda>n. bit v n = bit w n) [0..<LENGTH('a)]"
  by (auto simp: list_all_iff intro: bit_word_eqI)

lemma word8_eq: "v = (w :: u8) \<longleftrightarrow> (\<forall>n\<in>{0, 1, 2, 3, 4, 5, 6, 7}. bit v n = bit w n)"
proof -
  have "set [0..<8] = {0, 1, 2, 3, 4, 5, 6, 7 :: nat}" by (auto simp: upt_rec)
  then show ?thesis by (simp add: word_eq_upt list_all_iff del: set_upt)
qed

lemma word16_eq:
  "v = (w :: u16) \<longleftrightarrow>
     (\<forall>n\<in>{0, 1, 2, 3, 4, 5, 6, 7, 8, 9, 10, 11, 12, 13, 14, 15}. bit v n = bit w n)"
proof -
  have "set [0..<16] = {0, 1, 2, 3, 4, 5, 6, 7, 8, 9, 10, 11, 12, 13, 14, 15 :: nat}"
    by (auto simp: upt_rec)
  then show ?thesis by (simp add: word_eq_upt list_all_iff del: set_upt)
qed

lemma bit_beyond_length: "LENGTH('a) \<le> n \<Longrightarrow> bit (w :: 'a::len word) n \<longleftrightarrow> False"
  by (auto dest: bit_imp_le_length)

lemma even_bit: "even w \<longleftrightarrow> \<not> bit w 0" for w :: "'a::len word"
  by (simp add: bit_0)

declare word8_eq [word_bits] word16_eq [word_bits] bit_simps [word_bits]
  bit_beyond_length [word_bits] even_bit [word_bits] Suc_numeral [word_bits]
  numeral_2_eq_2 [symmetric, word_bits]

lemma odd_xor: "odd (v XOR w) \<longleftrightarrow> odd v \<noteq> odd w" for v w :: "'a::len word"
  by (simp add: bit_simps flip: bit_0)

lemma drop_bit_ucast:
  "LENGTH('b) \<le> LENGTH('a) \<Longrightarrow>
     drop_bit n (ucast w :: 'a::len word) = ucast (drop_bit n w)" for w :: "'b::len word"
  by (rule bit_word_eqI) (auto simp: bit_simps dest: bit_imp_le_length)

lemma word_eq_by_drop_bit:
  fixes v w :: "'a::len word"
  assumes "odd v = odd w" "drop_bit 1 v = drop_bit 1 w"
  shows "v = w"
proof (rule bit_word_eqI)
  fix n
  show "bit v n = bit w n"
  proof (cases n)
    case 0
    then show ?thesis using assms(1) by (simp add: bit_0)
  next
    case (Suc m)
    have "bit (drop_bit 1 v) m = bit (drop_bit 1 w) m" by (simp only: assms(2))
    then show ?thesis by (simp add: Suc bit_drop_bit_eq)
  qed
qed

lemma drop_bit_and_1: "drop_bit n w AND 1 = 0 \<longleftrightarrow> \<not> bit w n" for w :: "'a::len word"
  by (simp add: and_one_eq bit_iff_odd_drop_bit mod_2_eq_odd)

lemma odd_ucast [simp]: "odd (ucast (w :: 'a::len word) :: 'b::len word) = odd w"
  by (simp flip: bit_0 add: bit_simps)

lemma xor_right_cancel [simp]: "a XOR k = b XOR k \<longleftrightarrow> a = b" for a b k :: "'a::len word"
  by (metis xor.assoc xor_self_eq xor.right_neutral)

lemma take_bit_Suc_zero:
  "take_bit (Suc n) w = 0 \<longleftrightarrow> even w \<and> take_bit n (drop_bit 1 w) = 0" for w :: "'a::len word"
proof -
  have "take_bit (Suc n) w = 0 \<longleftrightarrow> (\<forall>m. m < Suc n \<longrightarrow> \<not> bit w m)"
    by (auto simp: bit_eq_iff bit_simps dest: bit_imp_le_length)
  also have "\<dots> \<longleftrightarrow> \<not> bit w 0 \<and> (\<forall>m. m < n \<longrightarrow> \<not> bit w (Suc m))"
    by (metis less_Suc_eq_0_disj not0_implies_Suc zero_less_Suc)
  also have "\<dots> \<longleftrightarrow> even w \<and> take_bit n (drop_bit 1 w) = 0"
    by (auto simp: bit_eq_iff [of _ 0] bit_simps bit_0) (meson Suc_lessD bit_imp_le_length)
  finally show ?thesis .
qed

lemma unat_of_nat_small: "n < 2 ^ LENGTH('a) \<Longrightarrow> unat (of_nat n :: 'a::len word) = n"
  by (simp add: unat_of_nat take_bit_nat_eq_self)

lemma less_power_bits: "w < 2 ^ n \<Longrightarrow> n \<le> k \<Longrightarrow> \<not> bit w k" for w :: "'a::len word"
proof -
  assume w: "w < 2 ^ n" and k: "n \<le> k"
  show "\<not> bit w k"
  proof (cases "n < LENGTH('a)")
    case True
    then have "unat (of_nat (2 ^ n) :: 'a word) = 2 ^ n" by (intro unat_of_nat_small) simp
    then have "unat w < 2 ^ n" using w by (simp add: word_less_nat_alt)
    also have "\<dots> \<le> 2 ^ k" using k by simp
    finally have "\<not> bit (unat w) k" by (simp add: bit_iff_odd)
    then show ?thesis by (simp add: bit_simps)
  qed (use k in \<open>auto dest: bit_imp_le_length\<close>)
qed

lemma unat_add_nat:
  "unat a + k < 2 ^ LENGTH('a) \<Longrightarrow> unat (a + of_nat k) = unat a + k" for a :: "'a::len word"
  by (simp add: unat_of_nat_small unat_add_lem [THEN iffD1])

lemma unat_ucast_up:
  "LENGTH('a) \<le> LENGTH('b) \<Longrightarrow> unat (ucast w :: 'b::len word) = unat w" for w :: "'a::len word"
proof -
  assume le: "LENGTH('a) \<le> LENGTH('b)"
  have "unat w < 2 ^ LENGTH('a)" by (rule unsigned_less)
  also have "\<dots> \<le> 2 ^ LENGTH('b)" using le by (simp add: power_increasing)
  finally show ?thesis by (simp add: unsigned_ucast_eq take_bit_nat_eq_self)
qed

lemma unat_and_le: "unat (w AND v) \<le> unat v" for w v :: "'a::len word"
  by (simp add: word_le_nat_alt [symmetric] word_le_def uint_and)

lemma unat_take_bit_nat: "unat (take_bit n w) = unat w mod 2 ^ n" for w :: "'a::len word"
proof -
  have "unat (take_bit n w) = take_bit n (unat w)"
    by (rule bit_eqI) (simp add: bit_simps)
  then show ?thesis by (simp add: take_bit_eq_mod)
qed

lemma unat_and_mask: "unat (w AND mask n) = unat w mod 2 ^ n" for w :: "'a::len word"
  by (simp only: take_bit_eq_mask [symmetric] unat_take_bit_nat)

lemma less_10_cases:
  "d < (10 :: nat) \<Longrightarrow> d = 0 \<or> d = 1 \<or> d = 2 \<or> d = 3 \<or> d = 4 \<or> d = 5 \<or> d = 6 \<or> d = 7 \<or> d = 8 \<or> d = 9"
  by presburger

lemma less_16_cases:
  "d < (16 :: nat) \<Longrightarrow> d < 10 \<or> d = 10 \<or> d = 11 \<or> d = 12 \<or> d = 13 \<or> d = 14 \<or> d = 15"
  by presburger

subsection \<open>Iterated functions\<close>

lemma funpow_hom:
  assumes "\<And>x. g (f x) = f' (g x)"
  shows "g ((f ^^ n) x) = (f' ^^ n) (g x)"
  by (induction n) (simp_all add: assms)

lemma inj_funpow: "inj f \<Longrightarrow> inj (f ^^ n)" for f :: "'a \<Rightarrow> 'a"
  by (induction n) (simp_all add: inj_compose)

subsection \<open>Numerals\<close>

lemma digits_val_Nil [simp]: "digits_val b [] = 0"
  by (simp add: digits_val_def)

lemma digits_val_snoc [simp]: "digits_val b (ds @ [d]) = digits_val b ds * b + d"
  by (simp add: digits_val_def)

lemma digits_val_digits_of [simp]: "digits_val b (digits_of b n) = n"
proof (induction b n rule: digits_of.induct)
  case (1 b n)
  show ?case
  proof (cases "b < 2 \<or> n < b")
    case True
    then show ?thesis by (simp add: digits_of.simps [of b n] digits_val_def)
  next
    case False
    with "1.IH" show ?thesis by (simp add: digits_of.simps [of b n])
  qed
qed

lemma digits_of_less: "2 \<le> b \<Longrightarrow> d \<in> set (digits_of b n) \<Longrightarrow> d < b"
proof (induction b n rule: digits_of.induct)
  case (1 b n)
  then show ?case by (auto simp: digits_of.simps [of b n] split: if_splits)
qed

lemma digits_of_nonempty [simp]: "digits_of b n \<noteq> []"
  by (subst digits_of.simps) simp

lemma digits_of_hd_pos: "2 \<le> b \<Longrightarrow> 0 < n \<Longrightarrow> 0 < hd (digits_of b n)"
proof (induction b n rule: digits_of.induct)
  case (1 b n)
  then show ?case by (auto simp: digits_of.simps [of b n] div_greater_zero_iff)
qed

lemma length_digits_of: "2 \<le> b \<Longrightarrow> n < b ^ k \<Longrightarrow> 0 < k \<Longrightarrow> length (digits_of b n) \<le> k"
proof (induction b n arbitrary: k rule: digits_of.induct)
  case (1 b n)
  show ?case
  proof (cases "n < b")
    case True
    with "1.prems" show ?thesis by (simp add: digits_of.simps [of b n])
  next
    case False
    with "1.prems" obtain j where k: "k = Suc j" and j: "0 < j"
      by (cases k; cases "k = 1") auto
    have "n div b < b ^ j"
      using "1.prems" k by (simp add: less_mult_imp_div_less mult.commute)
    with "1.IH" False "1.prems" j have "length (digits_of b (n div b)) \<le> j" by simp
    with False "1.prems" k show ?thesis by (simp add: digits_of.simps [of b n])
  qed
qed

text \<open>The digits with leading zeros up to a fixed number of places.\<close>

lemma digits_of_fixed:
  assumes "2 \<le> b"
  shows "n < b ^ Suc k \<Longrightarrow> replicate (Suc k - length (digits_of b n)) 0 @ digits_of b n =
    map (\<lambda>j. n div b ^ j mod b) (rev [0..<Suc k])"
proof (induction k arbitrary: n)
  case 0
  with assms show ?case by (simp add: digits_of.simps)
next
  case (Suc k)
  have upt: "rev [0..<Suc (Suc k)] = map Suc (rev [0..<Suc k]) @ [0]"
    by (metis map_Suc_upt rev.simps(2) rev_map upt_conv_Cons zero_less_Suc)
  have step: "map (\<lambda>j. n div b ^ j mod b) (rev [0..<Suc (Suc k)]) =
      map (\<lambda>j. n div b div b ^ j mod b) (rev [0..<Suc k]) @ [n mod b]"
    unfolding upt by (simp add: div_mult2_eq)
  have "n div b < b ^ Suc k" using Suc.prems by (simp add: less_mult_imp_div_less mult.commute)
  note IH = Suc.IH [OF this]
  show ?case
  proof (cases "n < b")
    case True
    then have "digits_of b n = [n]" "digits_of b (n div b) = [0]" using assms by (simp_all add: digits_of.simps)
    with IH True show ?thesis unfolding step by (simp add: replicate_append_same)
  next
    case False
    with assms have "digits_of b n = digits_of b (n div b) @ [n mod b]" by (simp add: digits_of.simps [of b n])
    with IH show ?thesis unfolding step by simp
  qed
qed

end
