(* ===== verification/Coremark_Util.thy ===== *)
theory Coremark_Util
  imports Prelude
begin

text \<open>
  \<open>guests/coremark/core_util.c\<close>: the 16-bit CRC every CoreMark result is folded into,
  the seed sources (volatile variables, command line) and the data-type check.
\<close>

section \<open>Model\<close>

subsection \<open>Seeds\<close>

record volatile_seeds =
  seed1_volatile :: s32
  seed2_volatile :: s32
  seed3_volatile :: s32
  seed4_volatile :: s32
  seed5_volatile :: s32

definition get_seed_32 :: "volatile_seeds \<Rightarrow> int \<Rightarrow> s32" where
  "get_seed_32 v i =
     (if i = 1 then seed1_volatile v
      else if i = 2 then seed2_volatile v
      else if i = 3 then seed3_volatile v
      else if i = 4 then seed4_volatile v
      else if i = 5 then seed5_volatile v
      else 0)"

text \<open>The two digit loops of \<open>parseval\<close>; each returns the pointer where it stopped.\<close>

fun parseval_hex :: "cstring \<Rightarrow> s32 \<Rightarrow> cstring \<times> s32" where
  "parseval_hex [] retval = ([], retval)"
| "parseval_hex (c # s) retval =
     (if (0x30 \<le> c \<and> c \<le> 0x39) \<or> (0x61 \<le> c \<and> c \<le> 0x66) then
        let digit = ucast c - 0x30;
            digit' = (if 9 <s digit then 10 + ucast c - 0x61 else digit)
        in parseval_hex s (retval * 16 + digit')
      else (c # s, retval))"

fun parseval_dec :: "cstring \<Rightarrow> s32 \<Rightarrow> cstring \<times> s32" where
  "parseval_dec [] retval = ([], retval)"
| "parseval_dec (c # s) retval =
     (if 0x30 \<le> c \<and> c \<le> 0x39 then parseval_dec s (retval * 10 + (ucast c - 0x30))
      else (c # s, retval))"

text \<open>The number after the optional sign, with its qualifier.\<close>

definition parseval_number :: "cstring \<Rightarrow> s32" where
  "parseval_number s =
     (let (s, retval) =
            (if cdref s = 0x30 \<and> cdref (tl s) = 0x78
             then parseval_hex (tl (tl s)) 0 else parseval_dec s 0);
          retval = (if cdref s = 0x4B then retval * 1024 else retval);
          retval = (if cdref s = 0x4D then retval * (1024 * 1024) else retval)
      in retval)"

definition parseval :: "cstring \<Rightarrow> s32" where
  "parseval valstring =
     (let (neg, s) = (if cdref valstring = 0x2D then (-1, tl valstring) else (1, valstring))
      in parseval_number s * neg)"

definition get_seed_args :: "nat \<Rightarrow> nat \<Rightarrow> cstring list \<Rightarrow> s32" where
  "get_seed_args i argc argv = (if argc > i then parseval (argv ! i) else 0)"

subsection \<open>CRC\<close>

text \<open>One round of the loop of \<open>crcu8\<close>; the state is the pair of \<open>data\<close> and \<open>crc\<close>.\<close>

definition crcu8_round :: "u8 \<times> u16 \<Rightarrow> u8 \<times> u16" where
  "crcu8_round = (\<lambda>(data, crc).
     let x16 = (data AND 1) XOR ((ucast crc :: u8) AND 1);
         data = drop_bit 1 data;
         (crc, carry) = (if x16 = 1 then (crc XOR 0x4002, 1 :: u8) else (crc, 0));
         crc = drop_bit 1 crc;
         crc = (if carry \<noteq> 0 then crc OR 0x8000 else crc AND 0x7fff)
     in (data, crc))"

definition crcu8 :: "u8 \<Rightarrow> u16 \<Rightarrow> u16" where
  "crcu8 data crc = snd ((crcu8_round ^^ 8) (data, crc))"

definition crcu16 :: "u16 \<Rightarrow> u16 \<Rightarrow> u16" where
  "crcu16 newval crc =
     (let crc = crcu8 (ucast newval) crc
      in crcu8 (ucast (drop_bit 8 newval)) crc)"

definition crc16 :: "s16 \<Rightarrow> u16 \<Rightarrow> u16" where
  "crc16 newval crc = crcu16 newval crc"

definition crcu32 :: "u32 \<Rightarrow> u16 \<Rightarrow> u16" where
  "crcu32 newval crc =
     (let crc = crc16 (ucast newval) crc
      in crc16 (ucast (drop_bit 16 newval)) crc)"

subsection \<open>Data types\<close>

text \<open>The sizes of the port's types, as the compiler lays them out.\<close>

record type_sizes =
  sizeof_ee_u8 :: nat
  sizeof_ee_u16 :: nat
  sizeof_ee_s16 :: nat
  sizeof_ee_s32 :: nat
  sizeof_ee_u32 :: nat
  sizeof_ee_ptr_int :: nat
  sizeof_int_ptr :: nat

text \<open>One test: the error count and the lines printed.\<close>

definition check_type :: "bool \<Rightarrow> string \<Rightarrow> u8 \<times> string list \<Rightarrow> u8 \<times> string list" where
  "check_type bad msg = (\<lambda>(retval, out). if bad then (retval + 1, out @ [msg]) else (retval, out))"

definition check_data_types :: "type_sizes \<Rightarrow> u8 \<times> string list" where
  "check_data_types t =
     (let st = (0, []);
          st = check_type (sizeof_ee_u8 t \<noteq> 1) ''ERROR: ee_u8 is not an 8b datatype!\<newline>'' st;
          st = check_type (sizeof_ee_u16 t \<noteq> 2) ''ERROR: ee_u16 is not a 16b datatype!\<newline>'' st;
          st = check_type (sizeof_ee_s16 t \<noteq> 2) ''ERROR: ee_s16 is not a 16b datatype!\<newline>'' st;
          st = check_type (sizeof_ee_s32 t \<noteq> 4) ''ERROR: ee_s32 is not a 32b datatype!\<newline>'' st;
          st = check_type (sizeof_ee_u32 t \<noteq> 4) ''ERROR: ee_u32 is not a 32b datatype!\<newline>'' st;
          (retval, out) = check_type (sizeof_ee_ptr_int t \<noteq> sizeof_int_ptr t)
            ''ERROR: ee_ptr_int is not a datatype that holds an int pointer!\<newline>'' st
      in (retval, if 0 < retval
                  then out @ [''ERROR: Please modify the datatypes in core_portme.h!\<newline>''] else out))"

section \<open>Properties\<close>

subsection \<open>The CRC is the reflected CRC-16 with polynomial 0xA001\<close>

text \<open>The reference: the shift register of the reflected CRC-16.\<close>

definition crc_lfsr :: "u16 \<Rightarrow> u16" where
  "crc_lfsr s = (if odd s then drop_bit 1 s XOR 0xA001 else drop_bit 1 s)"

lemma crcu8_round_carry:
  "drop_bit 1 (crc XOR 0x4002) OR 0x8000 = drop_bit 1 crc XOR (0xA001 :: u16)"
  by (simp add: word_bits)

lemma crcu8_round_no_carry: "drop_bit 1 crc AND 0x7fff = (drop_bit 1 crc :: u16)"
  by (simp add: word_bits)

lemma crcu8_round_bit: "((a AND 1) XOR (b AND 1) = (1 :: u8)) \<longleftrightarrow> odd a \<noteq> odd b"
  by (simp add: and_one_eq mod_2_eq_odd)

lemma crcu8_round_eq:
  "crcu8_round (d, c) =
     (drop_bit 1 d, if odd d \<noteq> odd c then drop_bit 1 c XOR 0xA001 else drop_bit 1 c)"
  unfolding crcu8_round_def Let_def prod.case crcu8_round_bit odd_ucast
  by (simp only: crcu8_round_carry crcu8_round_no_carry if_distrib [of fst] if_distrib [of snd]
      prod.case split: if_split) simp

text \<open>
  Each round shifts the register that holds the XOR of the CRC and the data still to
  be fed.
\<close>

lemma crc_lfsr_round:
  "crcu8_round (d, c) = (d', c') \<Longrightarrow> c' XOR ucast d' = crc_lfsr (c XOR ucast d)"
  by (auto simp: crcu8_round_eq crc_lfsr_def odd_xor drop_bit_ucast xor.assoc xor.commute
      xor.left_commute)

lemma crcu8_rounds:
  "(crcu8_round ^^ n) (d, c) = (d', c') \<Longrightarrow>
     d' = drop_bit n d \<and> c' XOR ucast d' = (crc_lfsr ^^ n) (c XOR ucast d)"
proof (induction n arbitrary: d' c')
  case 0
  then show ?case by simp
next
  case (Suc n)
  obtain d1 c1 where *: "(crcu8_round ^^ n) (d, c) = (d1, c1)" by force
  with Suc.prems have r: "crcu8_round (d1, c1) = (d', c')" by simp
  from r have "d' = drop_bit 1 d1" by (simp add: crcu8_round_eq)
  with crc_lfsr_round [OF r] Suc.IH [OF *] show ?case by simp metis
qed

lemma crcu8_lfsr: "crcu8 d c = (crc_lfsr ^^ 8) (c XOR ucast d)"
proof -
  obtain d' c' where *: "(crcu8_round ^^ 8) (d, c) = (d', c')" by force
  have "drop_bit 8 d = 0" by (simp add: word_bits)
  with crcu8_rounds [OF *] show ?thesis by (auto simp: crcu8_def * )
qed

lemma crc_lfsr_rounds_xor:
  "take_bit n h = 0 \<Longrightarrow> (crc_lfsr ^^ n) (x XOR h) = (crc_lfsr ^^ n) x XOR drop_bit n h"
proof (induction n arbitrary: x h)
  case 0
  then show ?case by simp
next
  case (Suc n)
  have ev: "even h" and tl: "take_bit n (drop_bit 1 h) = 0"
    using Suc.prems by (simp_all only: take_bit_Suc_zero)
  have "crc_lfsr (x XOR h) = crc_lfsr x XOR drop_bit 1 h"
    using ev by (simp add: crc_lfsr_def odd_xor xor.assoc xor.commute xor.left_commute)
  with Suc.IH [OF tl, of "crc_lfsr x"] show ?case by (simp add: funpow_swap1)
qed

lemma crcu16_lfsr: "crcu16 v c = (crc_lfsr ^^ 16) (c XOR v)"
proof -
  let ?h = "push_bit 8 (drop_bit 8 v)"
  have split: "c XOR v = (c XOR ucast (ucast v :: u8)) XOR ?h"
    by (simp add: word_bits)
  have hi: "drop_bit 8 ?h = ucast (ucast (drop_bit 8 v) :: u8)"
    by (simp add: word_bits)
  have "take_bit 8 ?h = 0" by (simp add: word_bits)
  then have "(crc_lfsr ^^ 8) (c XOR v) = crcu8 (ucast v) c XOR ucast (ucast (drop_bit 8 v) :: u8)"
    by (simp only: split crc_lfsr_rounds_xor crcu8_lfsr hi)
  then have "(crc_lfsr ^^ 8) ((crc_lfsr ^^ 8) (c XOR v)) = crcu16 v c"
    by (simp add: crcu16_def crcu8_lfsr)
  then show ?thesis using funpow_add [of 8 8 crc_lfsr] by simp
qed

lemma inj_crc_lfsr: "inj crc_lfsr"
proof (rule injI)
  fix s t :: u16
  assume eq: "crc_lfsr s = crc_lfsr t"
  have top: "bit (crc_lfsr x) 15 = odd x" for x :: u16
    by (simp add: crc_lfsr_def word_bits)
  from eq have odd: "odd s = odd t" by (metis top)
  with eq have "drop_bit 1 s = drop_bit 1 t"
    by (auto simp: crc_lfsr_def split: if_splits)
  with odd show "s = t" by (rule word_eq_by_drop_bit)
qed

lemma inj_crc_lfsr_xor: "inj (\<lambda>v. (crc_lfsr ^^ n) (c XOR v))"
proof (rule injI)
  fix v w
  assume "(crc_lfsr ^^ n) (c XOR v) = (crc_lfsr ^^ n) (c XOR w)"
  then have "v XOR c = w XOR c"
    using inj_funpow [OF inj_crc_lfsr, of n] by (simp add: inj_eq xor.commute)
  then show "v = w" by simp
qed

text \<open>
  C35: \<open>crcu16\<close> (and \<open>crc16\<close>, its signed entry point) is the reflected CRC-16 with
  polynomial 0xA001: sixteen steps of the shift register that starts as the XOR of the
  old CRC and the new value; \<open>crcu32\<close> feeds the low half and then the high half.
\<close>

theorem crc_is_reflected_crc16:
  "crcu16 v c = (crc_lfsr ^^ 16) (c XOR v)
   \<and> crc16 v c = (crc_lfsr ^^ 16) (c XOR v)
   \<and> crcu32 w c =
       (crc_lfsr ^^ 16) ((crc_lfsr ^^ 16) (c XOR ucast w) XOR ucast (drop_bit 16 w))"
  by (simp add: crc16_def crcu32_def crcu16_lfsr)

lemma fold_crcu16_inj: "inj (fold crcu16 vs)"
proof (induction vs)
  case (Cons v vs)
  have "crcu16 v = (\<lambda>c. (crc_lfsr ^^ 16) (v XOR c))"
    by (rule ext) (simp only: crcu16_lfsr xor.commute)
  with inj_crc_lfsr_xor [of 16 v] have "inj (crcu16 v)" by (simp only:)
  from inj_compose [OF Cons.IH this] show ?case by (simp add: comp_def)
qed (simp add: inj_def)

text \<open>
  C36: the CRC of a sequence of 16-bit results detects the change of any single one of
  them: replacing one value by another keeps the CRC only if the two are equal.
\<close>

theorem crc_detects_one_change:
  "fold crcu16 (us @ v # vs) c = fold crcu16 (us @ w # vs) c \<longleftrightarrow> v = w"
proof -
  have "crcu16 v d = crcu16 w d \<longleftrightarrow> v = w" for d
    using inj_eq [OF inj_crc_lfsr_xor [of 16 d]] by (simp only: crcu16_lfsr)
  then show ?thesis by (simp add: inj_eq [OF fold_crcu16_inj])
qed

subsection \<open>Seeds on the command line\<close>

lemma dec_char_digit: "d < 10 \<Longrightarrow> 0x30 \<le> dec_char d \<and> dec_char d \<le> 0x39"
  by (drule less_10_cases) (auto simp: dec_char_def)

lemma dec_char_value: "d < 10 \<Longrightarrow> ucast (dec_char d) - 0x30 = (of_nat d :: s32)"
  by (drule less_10_cases) (auto simp: dec_char_def)

lemma dec_char_sign: "d < 10 \<Longrightarrow> dec_char d \<noteq> 0x2D \<and> dec_char d \<noteq> 0x78"
  by (drule less_10_cases) (auto simp: dec_char_def)

lemma dec_char_zero: "d < 10 \<Longrightarrow> dec_char d = 0x30 \<longleftrightarrow> d = 0"
  by (drule less_10_cases) (auto simp: dec_char_def)

lemma parseval_dec_digits:
  "\<forall>d\<in>set ds. d < 10 \<Longrightarrow> \<not> (0x30 \<le> cdref rest \<and> cdref rest \<le> 0x39) \<Longrightarrow>
     parseval_dec (map dec_char ds @ rest) (of_nat a) =
       (rest, of_nat (foldl (\<lambda>a d. a * 10 + d) a ds))"
proof (induction ds arbitrary: a)
  case Nil
  then show ?case by (cases rest) auto
next
  case (Cons d ds)
  from Cons.IH [of "a * 10 + d"] Cons.prems show ?case
    by (simp add: dec_char_digit dec_char_value)
qed

lemma parseval_dec_string:
  assumes "\<not> (0x30 \<le> cdref rest \<and> cdref rest \<le> 0x39)"
  shows "parseval_dec (dec_string n @ rest) 0 = (rest, of_nat n)"
  using parseval_dec_digits [of "digits_of 10 n" rest 0] assms digits_val_digits_of [of 10 n]
  by (simp add: dec_string_def digits_of_less digits_val_def)

lemma dec_string_first: "cdref (dec_string n @ rest) \<noteq> 0x2D"
proof -
  obtain d ds where "digits_of 10 n = d # ds" by (meson digits_of_nonempty list.exhaust)
  then show ?thesis
    using digits_of_less [of 10 d n] by (simp add: dec_string_def dec_char_sign)
qed

text \<open>A decimal numeral never starts with the hexadecimal prefix.\<close>

lemma dec_string_not_hex:
  assumes "cdref rest \<noteq> 0x78"
  shows "\<not> (cdref (dec_string n @ rest) = 0x30 \<and> cdref (tl (dec_string n @ rest)) = 0x78)"
proof -
  obtain d ds where ds: "digits_of 10 n = d # ds" by (meson digits_of_nonempty list.exhaust)
  have less: "\<forall>x\<in>set (d # ds). x < 10"
    using digits_of_less [of 10 _ n] by (simp flip: ds)
  show ?thesis
  proof (cases ds)
    case Nil
    with assms ds show ?thesis by (simp add: dec_string_def)
  next
    case (Cons e es)
    with less ds show ?thesis by (simp add: dec_string_def dec_char_sign)
  qed
qed

lemma parseval_unsigned:
  assumes "\<not> (0x30 \<le> cdref rest \<and> cdref rest \<le> 0x39)" "cdref rest \<noteq> 0x78"
  shows "parseval (dec_string n @ rest) =
    of_nat n * (if cdref rest = 0x4B then 1024 else 1) *
      (if cdref rest = 0x4D then 1024 * 1024 else 1)"
proof -
  have "parseval_number (dec_string n @ rest) =
    of_nat n * (if cdref rest = 0x4B then 1024 else 1) *
      (if cdref rest = 0x4D then 1024 * 1024 else 1)"
    unfolding parseval_number_def if_not_P [OF dec_string_not_hex [OF assms(2)]]
      parseval_dec_string [OF assms(1)]
    by simp
  then show ?thesis by (simp add: parseval_def dec_string_first)
qed

lemma parseval_negated:
  assumes "cdref s \<noteq> 0x2D"
  shows "parseval (0x2D # s) = - parseval s"
  using assms by (simp add: parseval_def)

text \<open>
  C38: \<open>parseval\<close> reads back the decimal numeral of every number, with and without a
  sign; the qualifiers K and M multiply it by 1024 and 1024 * 1024 (all modulo the 32
  bits of \<open>ee_s32\<close>).
\<close>

theorem parseval_dec_string_roundtrip:
  "parseval (dec_string n) = of_nat n
   \<and> parseval (0x2D # dec_string n) = - of_nat n
   \<and> parseval (dec_string n @ [0x4B]) = of_nat n * 1024
   \<and> parseval (dec_string n @ [0x4D]) = of_nat n * (1024 * 1024)"
  using parseval_unsigned [of "[]" n] parseval_unsigned [of "[0x4B]" n]
    parseval_unsigned [of "[0x4D]" n] parseval_negated [of "dec_string n"]
    dec_string_first [of n "[]"]
  by simp

end
