(* ===== verification/Coremark_State.thy ===== *)
theory Coremark_State
  imports Coremark_Util "HOL-Library.Sublist"
begin

text \<open>
  \<open>guests/coremark/core_state.c\<close>: the state machine that classifies the numbers of a
  comma-separated input, the generator of that input, and the benchmark that runs the
  machine over the input, over a corrupted copy of it, and undoes the corruption.

  A pointer into the input is the list of the bytes from it to the end of the block;
  dereferencing it at the end of the block is the failure \<open>None\<close>. The loops that move
  the pointer by \<open>step\<close> are partial functions: a zero step never returns.
\<close>

section \<open>Model\<close>

datatype core_state =
  CORE_START | CORE_INVALID | CORE_S1 | CORE_S2 | CORE_INT | CORE_FLOAT | CORE_EXPONENT
| CORE_SCIENTIFIC

text \<open>The states in the order of the enumeration, which is the order of the counters.\<close>

definition core_states :: "core_state list" where
  "core_states = [CORE_START, CORE_INVALID, CORE_S1, CORE_S2, CORE_INT, CORE_FLOAT,
     CORE_EXPONENT, CORE_SCIENTIFIC]"

type_synonym counts = "core_state \<Rightarrow> u32"

definition count_state :: "core_state \<Rightarrow> counts \<Rightarrow> counts" where
  "count_state q n = n(q := n q + 1)"

definition ee_isdigit :: "u8 \<Rightarrow> bool" where
  "ee_isdigit c \<longleftrightarrow> 0x30 \<le> c \<and> c \<le> 0x39"

subsection \<open>The machine\<close>

text \<open>
  The \<open>switch\<close> of \<open>core_state_transition\<close>: the next state and the counters. The
  characters are \<open>+\<close> 0x2B, \<open>-\<close> 0x2D, \<open>.\<close> 0x2E, \<open>E\<close> 0x45 and \<open>e\<close> 0x65.
\<close>

fun core_state_step :: "core_state \<Rightarrow> u8 \<Rightarrow> counts \<Rightarrow> core_state \<times> counts" where
  "core_state_step CORE_START c n =
     (let (q, n) =
        (if ee_isdigit c then (CORE_INT, n)
         else if c = 0x2B \<or> c = 0x2D then (CORE_S1, n)
         else if c = 0x2E then (CORE_FLOAT, n)
         else (CORE_INVALID, count_state CORE_INVALID n))
      in (q, count_state CORE_START n))"
| "core_state_step CORE_S1 c n =
     (if ee_isdigit c then (CORE_INT, count_state CORE_S1 n)
      else if c = 0x2E then (CORE_FLOAT, count_state CORE_S1 n)
      else (CORE_INVALID, count_state CORE_S1 n))"
| "core_state_step CORE_INT c n =
     (if c = 0x2E then (CORE_FLOAT, count_state CORE_INT n)
      else if \<not> ee_isdigit c then (CORE_INVALID, count_state CORE_INT n)
      else (CORE_INT, n))"
| "core_state_step CORE_FLOAT c n =
     (if c = 0x45 \<or> c = 0x65 then (CORE_S2, count_state CORE_FLOAT n)
      else if \<not> ee_isdigit c then (CORE_INVALID, count_state CORE_FLOAT n)
      else (CORE_FLOAT, n))"
| "core_state_step CORE_S2 c n =
     (if c = 0x2B \<or> c = 0x2D then (CORE_EXPONENT, count_state CORE_S2 n)
      else (CORE_INVALID, count_state CORE_S2 n))"
| "core_state_step CORE_EXPONENT c n =
     (if ee_isdigit c then (CORE_SCIENTIFIC, count_state CORE_EXPONENT n)
      else (CORE_INVALID, count_state CORE_EXPONENT n))"
| "core_state_step CORE_SCIENTIFIC c n =
     (if \<not> ee_isdigit c then (CORE_INVALID, count_state CORE_INVALID n)
      else (CORE_SCIENTIFIC, n))"
| "core_state_step CORE_INVALID c n = (CORE_INVALID, n)"

text \<open>The scanning loop; it stops at NUL, behind a comma, or behind the first bad byte.\<close>

fun core_state_scan ::
  "u8 list \<Rightarrow> core_state \<Rightarrow> counts \<Rightarrow> (u8 list \<times> core_state \<times> counts) option" where
  "core_state_scan [] q n = None"
| "core_state_scan (c # str) q n =
     (if c \<noteq> 0 \<and> q \<noteq> CORE_INVALID then
        if c = 0x2C then Some (str, q, n)
        else let (q', n') = core_state_step q c n in core_state_scan str q' n'
      else Some (c # str, q, n))"

definition core_state_transition ::
  "u8 list \<Rightarrow> counts \<Rightarrow> (u8 list \<times> core_state \<times> counts) option" where
  "core_state_transition instr n = core_state_scan instr CORE_START n"

subsection \<open>The benchmark\<close>

text \<open>The loop \<open>while (*p != 0)\<close>: final and transition counters.\<close>

partial_function (option) core_state_run ::
  "u8 list \<Rightarrow> counts \<Rightarrow> counts \<Rightarrow> (counts \<times> counts) option" where
  "core_state_run p final track =
     (case p of
        [] \<Rightarrow> None
      | c # _ \<Rightarrow>
          if c \<noteq> 0 then
            case core_state_transition p track of
              None \<Rightarrow> None
            | Some (p', q, track') \<Rightarrow> core_state_run p' (count_state q final) track'
          else Some (final, track))"

text \<open>
  The corruption loop over the block, \<open>i\<close> being \<open>p - memblock\<close>: every byte it
  visits but a comma is XORed with the low byte of the seed.
\<close>

partial_function (option) core_state_corrupt ::
  "int \<Rightarrow> int \<Rightarrow> u8 \<Rightarrow> int \<Rightarrow> u8 list \<Rightarrow> u8 list option" where
  "core_state_corrupt blksize step seed i mem =
     (if i < blksize then
        if 0 \<le> i \<and> i < int (length mem) then
          core_state_corrupt blksize step seed (i + step)
            (if mem ! nat i \<noteq> 0x2C then mem[nat i := mem ! nat i XOR seed] else mem)
        else None
      else Some mem)"

definition core_bench_state ::
  "u32 \<Rightarrow> u8 list \<Rightarrow> s16 \<Rightarrow> s16 \<Rightarrow> s16 \<Rightarrow> u16 \<Rightarrow> (u16 \<times> u8 list) option" where
  "core_bench_state blksize mem seed1 seed2 step crc =
     do {
       let zero = (\<lambda>_. 0);
       (final, track) \<leftarrow> core_state_run mem zero zero;
       mem \<leftarrow> core_state_corrupt (uint blksize) (sint step) (ucast seed1) 0 mem;
       (final, track) \<leftarrow> core_state_run mem final track;
       mem \<leftarrow> core_state_corrupt (uint blksize) (sint step) (ucast seed2) 0 mem;
       Some (fold (\<lambda>q crc. crcu32 (track q) (crcu32 (final q) crc)) core_states crc, mem)
     }"

subsection \<open>The input\<close>

definition intpat :: "u8 list list" where
  "intpat = map cstr [''5012'', ''1234'', ''-874'', ''+122'']"

definition floatpat :: "u8 list list" where
  "floatpat = map cstr [''35.54400'', ''.1234500'', ''-110.700'', ''+0.64400'']"

definition scipat :: "u8 list list" where
  "scipat = map cstr [''5.500e+3'', ''-.123e-2'', ''-87e+832'', ''+0.6e-12'']"

definition errpat :: "u8 list list" where
  "errpat = map cstr [''T0.3e-1F'', ''-T.T++Tq'', ''1T3.4e4z'', ''34.0e-T^'']"

text \<open>The \<open>switch\<close> of \<open>core_init_state\<close>: the pattern and the number of its bytes.\<close>

definition core_state_pattern :: "s16 \<Rightarrow> u8 list \<times> u32" where
  "core_state_pattern seed =
     (let k = unat (seed AND 7); j = unat (drop_bit 3 seed AND 3)
      in if k \<le> 2 then (intpat ! j, 4)
         else if k \<le> 4 then (floatpat ! j, 8)
         else if k \<le> 6 then (scipat ! j, 8)
         else (errpat ! j, 8))"

partial_function (option) core_init_state_loop ::
  "u32 \<Rightarrow> u32 \<Rightarrow> u32 \<Rightarrow> u8 list \<Rightarrow> s16 \<Rightarrow> u8 list \<Rightarrow> (u32 \<times> u8 list) option" where
  "core_init_state_loop sz tot next buf seed mem =
     (if tot + next + 1 < sz then
        case (if next > 0 then mem_write mem (unat tot) (take (unat next) buf @ [0x2C])
              else Some mem) of
          None \<Rightarrow> None
        | Some mem \<Rightarrow>
            let tot = (if next > 0 then tot + (next + 1) else tot);
                seed = seed + 1;
                (buf, next) = core_state_pattern seed
            in core_init_state_loop sz tot next buf seed mem
      else Some (tot, mem))"

definition core_init_state :: "u32 \<Rightarrow> s16 \<Rightarrow> u8 list \<Rightarrow> u8 list option" where
  "core_init_state sz seed mem =
     do {
       (tot, mem) \<leftarrow> core_init_state_loop (sz - 1) 0 0 [] seed mem;
       mem_write mem (unat tot) (replicate (unat sz - unat tot) 0)
     }"

declare core_state_run.simps [code] core_state_corrupt.simps [code]
  core_init_state_loop.simps [code]

section \<open>Properties\<close>

subsection \<open>The machine recognises the number formats\<close>

definition core_next :: "core_state \<Rightarrow> u8 \<Rightarrow> core_state" where
  "core_next q c = fst (core_state_step q c (\<lambda>_. 0))"

lemma core_state_step_fst: "fst (core_state_step q c n) = core_next q c"
  by (cases q) (simp_all add: core_next_def)

lemma core_next_INVALID [simp]: "core_next CORE_INVALID c = CORE_INVALID"
  by (simp add: core_next_def)

lemma foldl_core_next_INVALID [simp]: "foldl core_next CORE_INVALID w = CORE_INVALID"
  by (induction w) simp_all

text \<open>The formats, as a grammar: what is read when the machine is in a state.\<close>

definition opt_sign :: "u8 list \<Rightarrow> bool" where
  "opt_sign s \<longleftrightarrow> s = [] \<or> s = [0x2B] \<or> s = [0x2D]"

definition all_digits :: "u8 list \<Rightarrow> bool" where
  "all_digits ds \<longleftrightarrow> list_all ee_isdigit ds"

definition float_format :: "u8 list \<Rightarrow> bool" where
  "float_format w \<longleftrightarrow>
     (\<exists>s ds es. w = s @ ds @ 0x2E # es \<and> opt_sign s \<and> all_digits ds \<and> all_digits es)"

fun number_format :: "core_state \<Rightarrow> u8 list \<Rightarrow> bool" where
  "number_format CORE_START w \<longleftrightarrow> w = []"
| "number_format CORE_S1 w \<longleftrightarrow> w = [0x2B] \<or> w = [0x2D]"
| "number_format CORE_INT w \<longleftrightarrow>
     (\<exists>s ds. w = s @ ds \<and> opt_sign s \<and> ds \<noteq> [] \<and> all_digits ds)"
| "number_format CORE_FLOAT w \<longleftrightarrow> float_format w"
| "number_format CORE_S2 w \<longleftrightarrow> (\<exists>v e. w = v @ [e] \<and> float_format v \<and> e \<in> {0x45, 0x65})"
| "number_format CORE_EXPONENT w \<longleftrightarrow>
     (\<exists>v e s. w = v @ [e, s] \<and> float_format v \<and> e \<in> {0x45, 0x65} \<and> s \<in> {0x2B, 0x2D})"
| "number_format CORE_SCIENTIFIC w \<longleftrightarrow>
     (\<exists>v e s ds. w = v @ [e, s] @ ds \<and> float_format v \<and> e \<in> {0x45, 0x65} \<and>
        s \<in> {0x2B, 0x2D} \<and> ds \<noteq> [] \<and> all_digits ds)"
| "number_format CORE_INVALID w \<longleftrightarrow> False"

lemma digit_facts [simp]:
  "\<not> ee_isdigit 0x2B" "\<not> ee_isdigit 0x2D" "\<not> ee_isdigit 0x2E" "\<not> ee_isdigit 0x45"
  "\<not> ee_isdigit 0x65" "\<not> ee_isdigit 0x2C" "\<not> ee_isdigit 0"
  by (simp_all add: ee_isdigit_def)

lemma all_digits_simps [simp]:
  "all_digits []" "all_digits (c # w) \<longleftrightarrow> ee_isdigit c \<and> all_digits w"
  "all_digits (v @ w) \<longleftrightarrow> all_digits v \<and> all_digits w"
  by (simp_all add: all_digits_def)

lemma core_next_eq [simp]:
  "core_next CORE_START c =
     (if ee_isdigit c then CORE_INT else if c = 0x2B \<or> c = 0x2D then CORE_S1
      else if c = 0x2E then CORE_FLOAT else CORE_INVALID)"
  "core_next CORE_S1 c =
     (if ee_isdigit c then CORE_INT else if c = 0x2E then CORE_FLOAT else CORE_INVALID)"
  "core_next CORE_INT c =
     (if c = 0x2E then CORE_FLOAT else if ee_isdigit c then CORE_INT else CORE_INVALID)"
  "core_next CORE_FLOAT c =
     (if c = 0x45 \<or> c = 0x65 then CORE_S2 else if ee_isdigit c then CORE_FLOAT
      else CORE_INVALID)"
  "core_next CORE_S2 c = (if c = 0x2B \<or> c = 0x2D then CORE_EXPONENT else CORE_INVALID)"
  "core_next CORE_EXPONENT c = (if ee_isdigit c then CORE_SCIENTIFIC else CORE_INVALID)"
  "core_next CORE_SCIENTIFIC c = (if ee_isdigit c then CORE_SCIENTIFIC else CORE_INVALID)"
  by (simp_all add: core_next_def)

lemma snoc_split: "w @ [c] = u @ v \<longleftrightarrow> (v = [] \<and> u = w @ [c]) \<or> (\<exists>v'. v = v' @ [c] \<and> w = u @ v')"
  by (cases v rule: rev_cases) auto

lemma float_format_snoc:
  "float_format (w @ [c]) \<longleftrightarrow>
     (c = 0x2E \<and> (w = [] \<or> number_format CORE_S1 w \<or> number_format CORE_INT w))
     \<or> (ee_isdigit c \<and> float_format w)"
proof
  assume "float_format (w @ [c])"
  then obtain s ds es where *: "w @ [c] = s @ ds @ 0x2E # es" "opt_sign s" "all_digits ds"
    "all_digits es"
    by (auto simp: float_format_def)
  then show "(c = 0x2E \<and> (w = [] \<or> number_format CORE_S1 w \<or> number_format CORE_INT w))
     \<or> (ee_isdigit c \<and> float_format w)"
  proof (cases es rule: rev_cases)
    case Nil
    with * have "w = s @ ds" "c = 0x2E" by auto
    with * show ?thesis by (cases "ds = []") (auto simp: opt_sign_def)
  next
    case (snoc es' d)
    with * have "w = s @ ds @ 0x2E # es'" "d = c" by auto
    with * snoc show ?thesis by (auto simp: float_format_def)
  qed
next
  assume "(c = 0x2E \<and> (w = [] \<or> number_format CORE_S1 w \<or> number_format CORE_INT w))
     \<or> (ee_isdigit c \<and> float_format w)"
  then show "float_format (w @ [c])"
    by (auto simp: float_format_def opt_sign_def)
      (metis append.assoc append_Cons all_digits_simps(1) append_Nil append_Nil2 all_digits_simps)+
qed

lemma int_format_snoc:
  "number_format CORE_INT (w @ [c]) \<longleftrightarrow>
     ee_isdigit c \<and> (w = [] \<or> number_format CORE_S1 w \<or> number_format CORE_INT w)"
proof
  assume "number_format CORE_INT (w @ [c])"
  then obtain s ds where *: "w @ [c] = s @ ds" "opt_sign s" "ds \<noteq> []" "all_digits ds" by auto
  then obtain ds' where "ds = ds' @ [c]" "w = s @ ds'" by (auto simp: snoc_split)
  with * show "ee_isdigit c \<and> (w = [] \<or> number_format CORE_S1 w \<or> number_format CORE_INT w)"
    by (cases "ds' = []") (auto simp: opt_sign_def)
next
  assume "ee_isdigit c \<and> (w = [] \<or> number_format CORE_S1 w \<or> number_format CORE_INT w)"
  then consider "ee_isdigit c" "opt_sign w"
    | s ds where "ee_isdigit c" "w = s @ ds" "opt_sign s" "all_digits ds"
    by (auto simp: opt_sign_def)
  then show "number_format CORE_INT (w @ [c])"
  proof cases
    case 1
    then show ?thesis by (auto intro: exI [of _ w] exI [of _ "[c]"])
  next
    case 2
    then have "w @ [c] = s @ (ds @ [c]) \<and> opt_sign s \<and> ds @ [c] \<noteq> [] \<and> all_digits (ds @ [c])"
      by simp
    then show ?thesis unfolding number_format.simps by blast
  qed
qed

lemma scientific_format_snoc:
  "number_format CORE_SCIENTIFIC (w @ [c]) \<longleftrightarrow>
     ee_isdigit c \<and> (number_format CORE_EXPONENT w \<or> number_format CORE_SCIENTIFIC w)"
proof
  assume "number_format CORE_SCIENTIFIC (w @ [c])"
  then obtain v e s ds where *: "w @ [c] = (v @ [e, s]) @ ds" "float_format v" "e \<in> {0x45, 0x65}"
    "s \<in> {0x2B, 0x2D}" "ds \<noteq> []" "all_digits ds"
    by auto
  then obtain ds' where "ds = ds' @ [c]" "w = (v @ [e, s]) @ ds'"
    using snoc_split [of w c "v @ [e, s]" ds] by blast
  with * show
    "ee_isdigit c \<and> (number_format CORE_EXPONENT w \<or> number_format CORE_SCIENTIFIC w)"
    unfolding number_format.simps by (cases "ds' = []") (simp, fastforce)+
next
  assume "ee_isdigit c \<and> (number_format CORE_EXPONENT w \<or> number_format CORE_SCIENTIFIC w)"
  then obtain v e s ds where "w = v @ [e, s] @ ds" "float_format v" "e \<in> {0x45, 0x65}"
    "s \<in> {0x2B, 0x2D}" "all_digits ds" "ee_isdigit c"
    by auto
  then show "number_format CORE_SCIENTIFIC (w @ [c])"
    unfolding number_format.simps
    by (intro exI [of _ v] exI [of _ e] exI [of _ s] exI [of _ "ds @ [c]"]) simp
qed

lemma core_next_format:
  "q \<noteq> CORE_INVALID \<Longrightarrow> foldl core_next CORE_START w = q \<longleftrightarrow> number_format q w"
proof (induction w arbitrary: q rule: rev_induct)
  case Nil
  then show ?case by (cases q) (auto simp: float_format_def)
next
  case (snoc c w)
  let ?r = "foldl core_next CORE_START w"
  note IH = snoc.IH [symmetric]
  have S1: "number_format CORE_S1 (w @ [c]) \<longleftrightarrow> number_format CORE_START w \<and> (c = 0x2B \<or> c = 0x2D)"
    by auto
  have S2: "number_format CORE_S2 (w @ [c]) \<longleftrightarrow> number_format CORE_FLOAT w \<and> (c = 0x45 \<or> c = 0x65)"
    by auto
  have E: "number_format CORE_EXPONENT (w @ [c]) \<longleftrightarrow> number_format CORE_S2 w \<and> (c = 0x2B \<or> c = 0x2D)"
    by auto
  have F: "number_format CORE_FLOAT (w @ [c]) \<longleftrightarrow>
     (c = 0x2E \<and> (number_format CORE_START w \<or> number_format CORE_S1 w \<or> number_format CORE_INT w))
     \<or> (ee_isdigit c \<and> number_format CORE_FLOAT w)"
    by (simp only: number_format.simps float_format_snoc)
  have I: "number_format CORE_INT (w @ [c]) \<longleftrightarrow>
     ee_isdigit c \<and> (number_format CORE_START w \<or> number_format CORE_S1 w \<or> number_format CORE_INT w)"
    by (simp only: int_format_snoc number_format.simps(1))
  have N: "number_format CORE_START (w @ [c]) \<longleftrightarrow> False" by simp
  have "number_format q (w @ [c]) \<longleftrightarrow> core_next ?r c = q"
    using snoc.prems
    by (cases q; simp only: N S1 S2 E F I scientific_format_snoc IH core_state.simps simp_thms)
      (cases ?r; simp)+
  then show ?case by simp
qed

lemma core_state_scan_step:
  "core_state_scan (c # str) q n =
     (if c \<noteq> 0 \<and> q \<noteq> CORE_INVALID then
        if c = 0x2C then Some (str, q, n)
        else core_state_scan str (core_next q c) (snd (core_state_step q c n))
      else Some (c # str, q, n))"
  by (simp add: case_prod_unfold core_state_step_fst)

lemma core_state_scan_valid:
  assumes "0 \<notin> set w" "0x2C \<notin> set w" "t = 0 \<or> t = 0x2C" "foldl core_next q w \<noteq> CORE_INVALID"
  shows "\<exists>n'. core_state_scan (w @ t # rest) q n =
     Some (if t = 0x2C then rest else t # rest, foldl core_next q w, n')"
  using assms
proof (induction w arbitrary: q n)
  case Nil
  then show ?case by auto
next
  case (Cons c w)
  have "q \<noteq> CORE_INVALID" using Cons.prems by (cases "q = CORE_INVALID") auto
  with Cons show ?case by (auto simp: core_state_scan_step simp del: core_state_scan.simps)
qed

lemma core_state_scan_invalid:
  assumes "0 \<notin> set w" "0x2C \<notin> set w" "q \<noteq> CORE_INVALID" "foldl core_next q w = CORE_INVALID"
  shows "\<exists>n' u c v. w = u @ c # v \<and> foldl core_next q u \<noteq> CORE_INVALID
     \<and> foldl core_next q (u @ [c]) = CORE_INVALID
     \<and> core_state_scan (w @ t # rest) q n = Some (v @ t # rest, CORE_INVALID, n')"
  using assms
proof (induction w arbitrary: q n)
  case Nil
  then show ?case by simp
next
  case (Cons c w)
  show ?case
  proof (cases "core_next q c = CORE_INVALID")
    case True
    have "core_state_scan (w @ t # rest) CORE_INVALID m = Some (w @ t # rest, CORE_INVALID, m)" for m
      by (cases w) (auto simp: core_state_scan_step simp del: core_state_scan.simps)
    with True Cons.prems show ?thesis
      by (intro exI [of _ "snd (core_state_step q c n)"] exI [of _ "[]"] exI [of _ c] exI [of _ w])
        (auto simp: core_state_scan_step simp del: core_state_scan.simps)
  next
    case False
    with Cons.IH [OF _ _ False, of "snd (core_state_step q c n)"] Cons.prems
    obtain n' u d v where *: "w = u @ d # v" "foldl core_next (core_next q c) u \<noteq> CORE_INVALID"
      "foldl core_next (core_next q c) (u @ [d]) = CORE_INVALID"
      "core_state_scan (w @ t # rest) (core_next q c) (snd (core_state_step q c n)) =
         Some (v @ t # rest, CORE_INVALID, n')"
      by auto
    with Cons.prems show ?thesis
      by (intro exI [of _ n'] exI [of _ "c # u"] exI [of _ d] exI [of _ v])
        (auto simp: core_state_scan_step simp del: core_state_scan.simps)
  qed
qed

text \<open>A word has a format if the machine accepts it in some state but the invalid one.\<close>

definition has_format :: "u8 list \<Rightarrow> bool" where
  "has_format w \<longleftrightarrow> (\<exists>q. number_format q w)"

lemma has_format_iff: "has_format w \<longleftrightarrow> foldl core_next CORE_START w \<noteq> CORE_INVALID"
proof
  assume "has_format w"
  then obtain q where "number_format q w" by (auto simp: has_format_def)
  moreover from this have "q \<noteq> CORE_INVALID" by auto
  ultimately show "foldl core_next CORE_START w \<noteq> CORE_INVALID"
    using core_next_format [of q w] by simp
next
  assume "foldl core_next CORE_START w \<noteq> CORE_INVALID"
  then show "has_format w" using core_next_format has_format_def by blast
qed

text \<open>
  C22: \<open>core_state_transition\<close> classifies the token in front of it. If the bytes up to
  the next comma or NUL have one of the number formats, it returns the state of that
  format and leaves the pointer behind the comma (or at the NUL). Otherwise it returns
  \<open>CORE_INVALID\<close> and leaves the pointer behind the first byte that fits no format.
\<close>

theorem core_state_transition_classifies:
  assumes "0 \<notin> set w" "0x2C \<notin> set w" "t = 0 \<or> t = 0x2C"
  shows "\<exists>p q n'. core_state_transition (w @ t # rest) n = Some (p, q, n') \<and>
    (if has_format w
     then number_format q w \<and> p = (if t = 0x2C then rest else t # rest)
     else q = CORE_INVALID \<and>
       (\<exists>u c v. w = u @ c # v \<and> has_format u \<and> \<not> has_format (u @ [c]) \<and> p = v @ t # rest))"
proof (cases "has_format w")
  case True
  then have "foldl core_next CORE_START w \<noteq> CORE_INVALID" by (simp add: has_format_iff)
  with core_state_scan_valid [OF assms this, of rest n] core_next_format [OF this, of w] True
  show ?thesis by (auto simp: core_state_transition_def)
next
  case False
  then have "foldl core_next CORE_START w = CORE_INVALID" by (simp add: has_format_iff)
  from core_state_scan_invalid [OF assms(1,2) _ this, of t rest n]
  obtain n' u c v where "w = u @ c # v" "has_format u" "\<not> has_format (u @ [c])"
    "core_state_scan (w @ t # rest) CORE_START n = Some (v @ t # rest, CORE_INVALID, n')"
    by (auto simp: has_format_iff)
  with False show ?thesis by (auto simp: core_state_transition_def)
qed

theorem core_state_transition_classifies_witness:
  "\<exists>p q n'. core_state_transition ([0x2D, 0x37] @ 0x2C # [0x31, 0]) (\<lambda>_. 0) = Some (p, q, n')
    \<and> number_format q [0x2D, 0x37] \<and> p = [0x31, 0]"
proof -
  have "has_format [0x2D, 0x37]" by (simp add: has_format_iff ee_isdigit_def)
  with core_state_transition_classifies [of "[0x2D, 0x37]" "0x2C" "[0x31, 0]" "\<lambda>_. 0"]
  show ?thesis by simp
qed

subsection \<open>Runs of the machine\<close>

lemma core_state_scan_defined:
  "0 \<in> set p \<Longrightarrow> \<exists>p' q' n'. core_state_scan p q n = Some (p', q', n') \<and> 0 \<in> set p' \<and> suffix p' p"
proof (induction p arbitrary: q n)
  case Nil
  then show ?case by simp
next
  case (Cons c p)
  show ?case
  proof (cases "c \<noteq> 0 \<and> q \<noteq> CORE_INVALID \<and> c \<noteq> 0x2C")
    case True
    with Cons.prems Cons.IH [of "core_next q c" "snd (core_state_step q c n)"]
    show ?thesis
      by (auto simp: core_state_scan_step suffix_ConsI simp del: core_state_scan.simps)
  next
    case False
    with Cons.prems show ?thesis by (auto simp: suffix_Cons)
  qed
qed

lemma core_state_transition_progress:
  assumes "0 \<in> set p" "hd p \<noteq> 0"
  shows "\<exists>p' q' n'. core_state_transition p n = Some (p', q', n') \<and> 0 \<in> set p'
    \<and> length p' < length p"
proof (cases p)
  case Nil
  with assms show ?thesis by simp
next
  case (Cons c s)
  with assms have c: "c \<noteq> 0" "0 \<in> set s" by auto
  from core_state_scan_defined [OF c(2), of "core_next CORE_START c"
      "snd (core_state_step CORE_START c n)"]
  obtain p' q' n' where *: "core_state_scan s (core_next CORE_START c)
      (snd (core_state_step CORE_START c n)) = Some (p', q', n')" "0 \<in> set p'" "suffix p' s"
    by blast
  then have "length p' \<le> length s" by (simp add: suffix_length_le)
  with * c Cons show ?thesis
    by (auto simp: core_state_transition_def core_state_scan_step simp del: core_state_scan.simps
        core_next_eq)
qed

lemma core_state_run_returns: "0 \<in> set p \<Longrightarrow> \<exists>r. core_state_run p final track = Some r"
proof (induction p arbitrary: final track rule: length_induct)
  case (1 p)
  show ?case
  proof (cases "hd p = 0")
    case True
    with "1.prems" obtain s where "p = 0 # s" by (cases p) auto
    then show ?thesis by (simp add: core_state_run.simps [of "0 # s"])
  next
    case False
    from core_state_transition_progress [OF "1.prems" False] obtain p' q' n'
      where *: "core_state_transition p track = Some (p', q', n')" "0 \<in> set p'"
        "length p' < length p"
      by blast
    with "1.IH" have "\<exists>r. core_state_run p' (count_state q' final) n' = Some r" by blast
    moreover obtain c s where "p = c # s" "c \<noteq> 0" using False "1.prems" by (cases p) auto
    ultimately show ?thesis using * by (simp add: core_state_run.simps [of "c # s"])
  qed
qed

subsection \<open>Corruption of the block\<close>

text \<open>The effect of a corruption pass: the bytes at the multiples of the step.\<close>

definition corrupted :: "nat \<Rightarrow> nat \<Rightarrow> u8 \<Rightarrow> nat \<Rightarrow> u8 list \<Rightarrow> u8 list" where
  "corrupted n step seed i mem =
     map (\<lambda>j. if i \<le> j \<and> j < n \<and> step dvd (j - i) \<and> mem ! j \<noteq> 0x2C then mem ! j XOR seed
              else mem ! j) [0..<length mem]"

lemma length_corrupted [simp]: "length (corrupted n step seed i mem) = length mem"
  by (simp add: corrupted_def)

lemma nth_corrupted:
  "j < length mem \<Longrightarrow> corrupted n step seed i mem ! j =
     (if i \<le> j \<and> j < n \<and> step dvd (j - i) \<and> mem ! j \<noteq> 0x2C then mem ! j XOR seed
      else mem ! j)"
  by (simp add: corrupted_def)

lemma stride_split:
  fixes s i j :: nat
  assumes "0 < s"
  shows "i \<le> j \<and> s dvd (j - i) \<longleftrightarrow> j = i \<or> (i + s \<le> j \<and> s dvd (j - (i + s)))"
proof
  assume "i \<le> j \<and> s dvd (j - i)"
  then obtain k where k: "j = i + s * k" by (metis dvdE le_add_diff_inverse)
  show "j = i \<or> (i + s \<le> j \<and> s dvd (j - (i + s)))"
    by (cases k) (simp_all add: k)
next
  assume "j = i \<or> (i + s \<le> j \<and> s dvd (j - (i + s)))"
  then consider "j = i" | k where "j = i + s + s * k" by (metis dvdE le_add_diff_inverse)
  then show "i \<le> j \<and> s dvd (j - i)" by cases simp_all
qed

lemma corrupted_step:
  assumes "0 < s" "i < n" "n \<le> length mem"
  shows "corrupted n s seed i mem =
    corrupted n s seed (i + s) (if mem ! i \<noteq> 0x2C then mem[i := mem ! i XOR seed] else mem)"
proof (rule nth_equalityI)
  fix j
  assume "j < length (corrupted n s seed i mem)"
  then have "j < length mem" by simp
  then show "corrupted n s seed i mem ! j = corrupted n s seed (i + s)
      (if mem ! i \<noteq> 0x2C then mem[i := mem ! i XOR seed] else mem) ! j"
    using assms stride_split [OF assms(1), of i j]
    by (cases "j = i") (auto simp: nth_corrupted)
qed simp

lemma core_state_corrupt_eq:
  assumes "0 < s" "n \<le> length mem"
  shows "core_state_corrupt (int n) (int s) seed (int i) mem = Some (corrupted n s seed i mem)"
  using assms
proof (induction "n - i" arbitrary: i mem rule: less_induct)
  case less
  show ?case
  proof (cases "i < n")
    case True
    let ?mem = "if mem ! i \<noteq> 0x2C then mem[i := mem ! i XOR seed] else mem"
    have "core_state_corrupt (int n) (int s) seed (int (i + s)) ?mem =
        Some (corrupted n s seed (i + s) ?mem)"
      using True less.prems by (intro less.hyps) auto
    moreover have "core_state_corrupt (int n) (int s) seed (int i) mem =
        core_state_corrupt (int n) (int s) seed (int (i + s)) ?mem"
      using True less.prems
      by (subst core_state_corrupt.simps) (simp del: core_state_corrupt.simps)
    ultimately show ?thesis by (simp only: corrupted_step [OF less.prems(1) True less.prems(2)])
  next
    case False
    then have "corrupted n s seed i mem = mem"
      by (intro nth_equalityI) (auto simp: nth_corrupted)
    with False show ?thesis
      by (simp add: core_state_corrupt.simps [of "int n" "int s" seed "int i" mem])
  qed
qed

lemma core_bench_state_corrupt:
  assumes "unat blksize \<le> length mem" "0 < sint step"
  shows "core_state_corrupt (uint blksize) (sint step) seed 0 mem =
    Some (corrupted (unat blksize) (nat (sint step)) seed 0 mem)"
  using core_state_corrupt_eq [of "nat (sint step)" "unat blksize" mem seed 0] assms by simp

lemma core_bench_state_eq:
  assumes "unat blksize \<le> length mem" "0 < sint step"
    and "0 \<in> set mem"
    and "0 \<in> set (corrupted (unat blksize) (nat (sint step)) (ucast seed1) 0 mem)"
  shows "\<exists>crc'. core_bench_state blksize mem seed1 seed2 step crc =
    Some (crc', corrupted (unat blksize) (nat (sint step)) (ucast seed2) 0
                  (corrupted (unat blksize) (nat (sint step)) (ucast seed1) 0 mem))"
proof -
  let ?m = "corrupted (unat blksize) (nat (sint step)) (ucast seed1) 0 mem"
  obtain f t where run1: "core_state_run mem (\<lambda>_. 0) (\<lambda>_. 0) = Some (f, t)"
    using core_state_run_returns [OF assms(3)] by (metis surj_pair)
  obtain f' t' where run2: "core_state_run ?m f t = Some (f', t')"
    using core_state_run_returns [OF assms(4)] by (metis surj_pair)
  have "unat blksize \<le> length ?m" using assms(1) by simp
  from core_bench_state_corrupt [OF this assms(2)] core_bench_state_corrupt [OF assms(1,2)]
  show ?thesis by (simp add: core_bench_state_def run1 run2)
qed

text \<open>
  C37: \<open>core_bench_state\<close> never leaves its block and always returns when the step is
  positive and the block holds a NUL that the corruption does not visit; it keeps the
  block's size.
\<close>

theorem core_bench_state_safe:
  assumes "unat blksize \<le> length mem" "0 < sint step"
    and "j < length mem" "mem ! j = 0" "unat blksize \<le> j \<or> \<not> nat (sint step) dvd j"
  shows "\<exists>crc' mem'. core_bench_state blksize mem seed1 seed2 step crc = Some (crc', mem')
    \<and> length mem' = length mem"
proof -
  let ?m = "corrupted (unat blksize) (nat (sint step)) (ucast seed1) 0 mem"
  have "?m ! j = 0" using assms(3,4,5) by (auto simp: nth_corrupted)
  then have "0 \<in> set ?m" using assms(3) by (metis length_corrupted nth_mem)
  moreover have "0 \<in> set mem" using assms(3,4) by (metis nth_mem)
  ultimately show ?thesis
    using core_bench_state_eq [OF assms(1,2), of seed1 seed2 crc] by auto
qed

lemma corrupted_twice:
  assumes "n \<le> length mem"
  shows "corrupted n s x 0 (corrupted n s x 0 mem) = mem \<longleftrightarrow>
    (\<forall>j<n. s dvd j \<longrightarrow> mem ! j \<noteq> 0x2C \<longrightarrow> mem ! j XOR x \<noteq> 0x2C)"
proof -
  have "corrupted n s x 0 (corrupted n s x 0 mem) = mem \<longleftrightarrow>
      (\<forall>j<length mem. corrupted n s x 0 (corrupted n s x 0 mem) ! j = mem ! j)"
    by (simp add: list_eq_iff_nth_eq)
  also have "\<dots> \<longleftrightarrow> (\<forall>j<n. s dvd j \<longrightarrow> mem ! j \<noteq> 0x2C \<longrightarrow> mem ! j XOR x \<noteq> 0x2C)"
    using assms by (auto simp: nth_corrupted xor.assoc)
  finally show ?thesis .
qed

theorem core_bench_state_safe_witness:
  "\<exists>crc' mem'. core_bench_state 4 [0x35, 0x2C, 0, 0] 7 7 2 0 = Some (crc', mem')
    \<and> length mem' = length [0x35, 0x2C, 0, 0 :: u8]"
  using core_bench_state_safe [of 4 "[0x35, 0x2C, 0, 0]" 2 3 7 7 0] by simp

text \<open>
  C26: with equal seeds the second pass undoes the corruption exactly when no visited
  byte other than a comma becomes a comma, which the pass then skips.
\<close>

theorem core_bench_state_restores:
  assumes "unat blksize \<le> length mem" "0 < sint step"
    and "core_bench_state blksize mem seed seed step crc = Some (crc', mem')"
  shows "mem' = mem \<longleftrightarrow>
    (\<forall>j<unat blksize. nat (sint step) dvd j \<longrightarrow> mem ! j \<noteq> 0x2C \<longrightarrow> mem ! j XOR ucast seed \<noteq> 0x2C)"
proof -
  let ?c = "corrupted (unat blksize) (nat (sint step)) (ucast seed) 0"
  have "unat blksize \<le> length (?c mem)" using assms(1) by simp
  from core_bench_state_corrupt [OF this assms(2)] assms(3)
    core_bench_state_corrupt [OF assms(1,2)]
  have "mem' = ?c (?c mem)" by (auto simp: core_bench_state_def Let_def bind_eq_Some_conv)
  with corrupted_twice [OF assms(1)] show ?thesis by simp
qed

text \<open>The comment's unconditional claim fails: a minus sign under seed 1 stays a comma.\<close>

theorem core_bench_state_restores_witness:
  "\<exists>crc' mem'. core_bench_state 4 [0x2D, 0x35, 0, 0] 1 1 2 0 = Some (crc', mem')
    \<and> mem' \<noteq> [0x2D, 0x35, 0, 0]"
proof -
  let ?m = "[0x2D, 0x35, 0, 0] :: u8 list"
  have "0 \<in> set (corrupted 4 2 1 0 ?m)" by (simp add: corrupted_def upt_rec)
  then obtain crc' mem' where *: "core_bench_state 4 ?m 1 1 2 0 = Some (crc', mem')"
    using core_bench_state_eq [of 4 ?m 2 1 1 0] by auto
  with core_bench_state_restores [OF _ _ * ] have "mem' \<noteq> ?m" by (auto intro!: exI [of _ 0])
  with * show ?thesis by blast
qed

text \<open>With two adjacent NULs at its end, a block keeps one of them under every step above one.\<close>

lemma corrupted_keeps_nul:
  assumes "1 < n" "n \<le> length mem" "mem ! (n - 1) = 0" "mem ! (n - 2) = 0" "1 < s"
  shows "0 \<in> set mem" "0 \<in> set (corrupted n s x 0 mem)"
proof -
  have "\<not> (s dvd n - 1 \<and> s dvd n - 2)"
  proof
    assume "s dvd n - 1 \<and> s dvd n - 2"
    then have "s dvd (n - 1) - (n - 2)" using dvd_diff_nat [of s "n - 1" "n - 2"] by blast
    moreover have "(n - 1) - (n - 2) = 1" using assms(1) by simp
    ultimately show False using assms(5) by simp
  qed
  then obtain j where j: "j = n - 1 \<or> j = n - 2" "\<not> s dvd j" by blast
  then have "mem ! j = 0" "j < length mem" using assms by auto
  moreover from this j(2) have "corrupted n s x 0 mem ! j = 0" by (simp add: nth_corrupted)
  ultimately show "0 \<in> set mem" "0 \<in> set (corrupted n s x 0 mem)"
    by (metis nth_mem, metis length_corrupted nth_mem)
qed

text \<open>
  Equal seeds that turn no byte into a comma leave the block as it was, so that the
  benchmark can run on it again.
\<close>

lemma core_bench_state_keeps:
  assumes "1 < unat blksize" "unat blksize \<le> length mem"
    and "mem ! (unat blksize - 1) = 0" "mem ! (unat blksize - 2) = 0" "1 < sint step"
    and "(ucast seed2 :: u8) = ucast seed1" "\<forall>b\<in>set mem. b \<noteq> 0x2C \<longrightarrow> b XOR ucast seed1 \<noteq> 0x2C"
  shows "\<exists>crc'. core_bench_state blksize mem seed1 seed2 step crc = Some (crc', mem)"
proof -
  have "1 < nat (sint step)" "0 < sint step" using assms(5) by auto
  moreover from corrupted_keeps_nul [OF assms(1-4) this(1)]
  have "0 \<in> set mem" "0 \<in> set (corrupted (unat blksize) (nat (sint step)) (ucast seed1) 0 mem)" by auto
  moreover have "corrupted (unat blksize) (nat (sint step)) (ucast seed1) 0
      (corrupted (unat blksize) (nat (sint step)) (ucast seed1) 0 mem) = mem"
    using assms(2,7) by (subst corrupted_twice) auto
  ultimately show ?thesis
    using core_bench_state_eq [OF assms(2), of step seed1 seed2 crc] assms(6) by simp
qed

subsection \<open>The generated input\<close>

definition state_patterns :: "u8 list list" where
  "state_patterns = intpat @ floatpat @ scipat @ errpat"

lemma length_pattern: "buf \<in> set state_patterns \<Longrightarrow> length buf = 4 \<or> length buf = 8"
  by (auto simp: state_patterns_def intpat_def floatpat_def scipat_def errpat_def cstr_def)

lemma core_state_pattern_in:
  "fst (core_state_pattern seed) \<in> set state_patterns
   \<and> snd (core_state_pattern seed) = of_nat (length (fst (core_state_pattern seed)))"
proof -
  have "unat (drop_bit 3 seed AND 3) \<in> {0, 1, 2, 3}"
    using unat_and_le [of "drop_bit 3 seed" 3] by auto
  then show ?thesis
    by (auto simp: core_state_pattern_def Let_def state_patterns_def intpat_def floatpat_def
        scipat_def errpat_def cstr_def)
qed

text \<open>The fields already written, each with its comma.\<close>

definition state_fields :: "u8 list list \<Rightarrow> u8 list" where
  "state_fields pats = concat (map (\<lambda>p. p @ [0x2C]) pats)"

lemma state_fields_snoc [simp]: "state_fields (pats @ [p]) = state_fields pats @ p @ [0x2C]"
  by (simp add: state_fields_def)

lemma mem_write_append:
  "length bs \<le> length r \<Longrightarrow> mem_write (u @ r) (length u) bs = Some ((u @ bs) @ drop (length bs) r)"
  by (simp add: mem_write_def)

text \<open>
  The fields by number: seed \<open>s\<close> gives field \<open>i\<close> by the number \<open>s + i + 1\<close>, whose last three
  bits choose the table and whose next two the pattern in it.
\<close>

definition field_at :: "s16 \<Rightarrow> nat \<Rightarrow> u8 list" where
  "field_at seed i =
     (let n = unat (seed + of_nat (Suc i))
      in [intpat, intpat, intpat, floatpat, floatpat, scipat, scipat, errpat] ! (n mod 8) ! (n div 8 mod 4))"

lemma field_at_pattern: "fst (core_state_pattern (seed + of_nat (Suc i))) = field_at seed i"
proof -
  let ?s = "seed + of_nat (Suc i)"
  have "(7 :: s16) = mask 3" "(3 :: s16) = mask 2" by (simp_all add: mask_numeral)
  then have u: "unat (?s AND 7) = unat ?s mod 8" "unat (drop_bit 3 ?s AND 3) = unat ?s div 8 mod 4"
    by (simp_all only: unat_and_mask unat_drop_bit_eq) (simp_all add: drop_bit_eq_div)
  have "unat ?s mod 8 \<in> {0, 1, 2, 3, 4, 5, 6, 7}" by auto
  then show ?thesis unfolding core_state_pattern_def field_at_def u Let_def by auto
qed

lemma field_at_in: "field_at seed i \<in> set state_patterns"
  using core_state_pattern_in [of "seed + of_nat (Suc i)"] by (simp only: field_at_pattern)

lemma pattern_field: "core_state_pattern (seed + of_nat (Suc i)) = (field_at seed i, of_nat (length (field_at seed i)))"
  using core_state_pattern_in [of "seed + of_nat (Suc i)"] field_at_pattern [of seed i] by (simp add: prod_eq_iff)

abbreviation fields :: "s16 \<Rightarrow> nat \<Rightarrow> u8 list" where
  "fields seed m \<equiv> state_fields (map (field_at seed) [0..<m])"

lemma fields_Suc: "fields seed (Suc m) = fields seed m @ field_at seed m @ [0x2C]"
  by simp

lemma core_init_state_loop_spec:
  assumes "length (fields seed m) < unat sz" "unat sz < length (fields seed m @ r)" "unat sz + 16 < 2 ^ 32"
  shows "\<exists>m'. core_init_state_loop sz (of_nat (length (fields seed m))) (of_nat (length (field_at seed m)))
        (field_at seed m) (seed + of_nat (Suc m)) (fields seed m @ r) =
      Some (of_nat (length (fields seed m')), fields seed m' @ drop (length (fields seed m')) (fields seed m @ r))
    \<and> length (fields seed m') < unat sz \<and> unat sz \<le> length (fields seed m') + length (field_at seed m') + 1
    \<and> length (fields seed m) \<le> length (fields seed m')"
  using assms
proof (induction "unat sz - length (fields seed m)" arbitrary: m r rule: less_induct)
  case less
  let ?n = "length (fields seed m)" and ?buf = "field_at seed m"
  let ?tot = "of_nat ?n :: u32" and ?nx = "of_nat (length ?buf) :: u32"
  have len: "length ?buf \<le> 8" "0 < length ?buf" using length_pattern [OF field_at_in, of seed m] by auto
  have sum: "?tot + ?nx + 1 = of_nat (?n + length ?buf + 1)" by simp
  have unats: "unat (?tot + ?nx + 1) = ?n + length ?buf + 1" "unat ?tot = ?n" "unat ?nx = length ?buf"
    unfolding sum using len less.prems(1,3) by (intro unat_of_nat_small; simp)+
  show ?case
  proof (cases "?tot + ?nx + 1 < sz")
    case False
    then have "unat sz \<le> ?n + length ?buf + 1" by (simp add: word_less_nat_alt unats)
    with False less.prems(1) show ?thesis
      by (subst core_init_state_loop.simps) (auto intro!: exI [of _ m])
  next
    case True
    let ?r = "drop (length ?buf + 1) r" and ?F = "fields seed (Suc m)"
    have lt: "?n + length ?buf + 1 < unat sz" using True by (simp add: word_less_nat_alt unats)
    have w: "mem_write (fields seed m @ r) ?n (?buf @ [0x2C]) = Some (?F @ ?r)"
      using lt less.prems(2) by (subst mem_write_append) auto
    have tot': "(of_nat (length ?F) :: u32) = ?tot + (?nx + 1)" by simp
    have "seed + of_nat (Suc m) + 1 = seed + of_nat (Suc (Suc m))" by simp
    then have pat: "core_state_pattern (seed + of_nat (Suc m) + 1) =
        (field_at seed (Suc m), of_nat (length (field_at seed (Suc m))))" by (simp only: pattern_field)
    have step: "core_init_state_loop sz ?tot ?nx ?buf (seed + of_nat (Suc m)) (fields seed m @ r) =
        core_init_state_loop sz (of_nat (length ?F)) (of_nat (length (field_at seed (Suc m)))) (field_at seed (Suc m))
          (seed + of_nat (Suc m) + 1) (?F @ ?r)"
      unfolding tot' using True len w pat
      by (subst core_init_state_loop.simps) (simp add: unats word_less_nat_alt)
    have rest: "drop k (?F @ ?r) = drop k (fields seed m @ r)" if "length ?F \<le> k" for k
    proof -
      from that obtain l where "k = length ?F + l" using le_Suc_ex by blast
      then show ?thesis by (simp add: add.commute)
    qed
    have lens: "length ?F = ?n + length ?buf + 1" by simp
    have "unat sz < length (?F @ ?r)" "length ?F < unat sz" "unat sz - length ?F < unat sz - ?n"
      using less.prems lt unfolding length_append length_drop lens by simp_all
    from less.hyps [OF this(3) this(2) this(1) less.prems(3)] step
    obtain m' where IH: "core_init_state_loop sz ?tot ?nx ?buf (seed + of_nat (Suc m)) (fields seed m @ r) =
        Some (of_nat (length (fields seed m')), fields seed m' @ drop (length (fields seed m')) (?F @ ?r))"
      "length (fields seed m') < unat sz" "unat sz \<le> length (fields seed m') + length (field_at seed m') + 1"
      "length ?F \<le> length (fields seed m')"
      by (auto simp: add.assoc simp del: upt_Suc)
    then show ?thesis using rest [OF IH(4)] lens by (intro exI [of _ m']) simp
  qed
qed

lemma core_init_state_exact:
  assumes "1 < unat sz" "unat sz + 16 < 2 ^ 32" "unat sz \<le> length mem"
  shows "\<exists>m k. core_init_state sz seed mem = Some (fields seed m @ replicate k 0 @ drop (unat sz) mem)
    \<and> 2 \<le> k \<and> k \<le> length (field_at seed m) + 2 \<and> length (fields seed m) + k = unat sz"
proof -
  have sz: "unat (sz - 1) = unat sz - 1" using assms(1) by (intro unat_minus_one) auto
  have "\<exists>m. core_init_state_loop (sz - 1) 0 0 [] seed mem =
        Some (of_nat (length (fields seed m)), fields seed m @ drop (length (fields seed m)) mem)
      \<and> length (fields seed m) < unat (sz - 1) \<and> unat (sz - 1) \<le> length (fields seed m) + length (field_at seed m) + 1"
  proof (cases "1 < sz - 1")
    case True
    then have "core_init_state_loop (sz - 1) 0 0 [] seed mem =
        core_init_state_loop (sz - 1) 0 (of_nat (length (field_at seed 0))) (field_at seed 0) (seed + 1) mem"
      using pattern_field [of seed 0] by (subst core_init_state_loop.simps) simp
    with core_init_state_loop_spec [of seed 0 "sz - 1" mem] sz assms show ?thesis
      by (auto simp: state_fields_def)
  next
    case False
    have "4 \<le> length (field_at seed 0)" using length_pattern [OF field_at_in, of seed 0] by auto
    with False show ?thesis
      using sz assms(1)
      by (subst core_init_state_loop.simps)
        (auto simp: state_fields_def word_less_nat_alt intro!: exI [of _ 0])
  qed
  then obtain m where loop: "core_init_state_loop (sz - 1) 0 0 [] seed mem =
        Some (of_nat (length (fields seed m)), fields seed m @ drop (length (fields seed m)) mem)"
    and m: "length (fields seed m) < unat sz - 1" "unat sz - 1 \<le> length (fields seed m) + length (field_at seed m) + 1"
    using sz by auto
  let ?l = "length (fields seed m)"
  have "unat (of_nat ?l :: u32) = ?l" using m assms(2) by (simp add: unat_of_nat_small)
  then have "core_init_state sz seed mem =
      Some (fields seed m @ replicate (unat sz - ?l) 0 @ drop (unat sz) mem)"
    using assms(3) m(1) by (simp add: core_init_state_def loop mem_write_append)
  with m show ?thesis by (intro exI [of _ m] exI [of _ "unat sz - ?l"]) auto
qed

lemma core_init_state_fields:
  assumes "1 < unat sz" "unat sz + 16 < 2 ^ 32" "unat sz \<le> length mem"
  shows "\<exists>pats k. core_init_state sz seed mem =
      Some (state_fields pats @ replicate k 0 @ drop (unat sz) mem)
    \<and> set pats \<subseteq> set state_patterns \<and> 2 \<le> k \<and> length (state_fields pats) + k = unat sz"
  using core_init_state_exact [OF assms, of seed] field_at_in by fastforce

text \<open>
  C28: \<open>core_init_state\<close> fills its block of \<open>size\<close> bytes with the comma-terminated patterns
  of the numbers \<open>seed + 1\<close>, \<open>seed + 2\<close> and so on, whose last three bits choose the table
  and whose next two the pattern in it. It writes as many as leave room for two NULs: the
  next one with its comma would not. The rest of the block is NULs, and nothing is written
  behind it.
\<close>

theorem core_init_state_layout:
  assumes "1 < unat sz" "unat sz + 16 < 2 ^ 32" "unat sz \<le> length mem"
  shows "\<exists>m k. core_init_state sz seed mem =
      Some (state_fields (map (field_at seed) [0..<m]) @ replicate k 0 @ drop (unat sz) mem)
    \<and> 2 \<le> k \<and> k \<le> length (field_at seed m) + 2
    \<and> length (state_fields (map (field_at seed) [0..<m])) + k = unat sz"
  using assms by (rule core_init_state_exact)

lemma fields_length: "5 * m \<le> length (fields seed m)"
proof (induction m)
  case (Suc m)
  have "4 \<le> length (field_at seed m)" using length_pattern [OF field_at_in, of seed m] by auto
  with Suc show ?case by simp
qed simp

lemma fields_of_3: "field_at 3 0 = cstr ''35.54400''" "field_at 3 1 = cstr ''5.500e+3''" "field_at 3 2 = cstr ''5.500e+3''"
  by (simp_all add: field_at_def floatpat_def scipat_def)

theorem core_init_state_layout_witness:
  "core_init_state 20 3 (replicate 24 7) = Some (cstr ''35.54400,5.500e+3,'' @ [0, 0] @ replicate 4 7)"
proof -
  obtain m k where m: "core_init_state 20 3 (replicate 24 7) = Some (fields 3 m @ replicate k 0 @ replicate 4 7)"
    "2 \<le> k" "k \<le> length (field_at 3 m) + 2" "length (fields 3 m) + k = 20"
    using core_init_state_layout [of 20 "replicate 24 7" 3] by auto
  have "m < 4" using m(2,4) fields_length [of m 3] by simp
  then consider "m = 0" | "m = 1" | "m = 2" | "m = 3" by linarith
  then have "m = 2"
    by cases (use m(2-4) fields_of_3 in \<open>simp_all add: state_fields_def upt_rec numeral_3_eq_3 numeral_2_eq_2 cstr_def\<close>)
  with m(1,4) fields_of_3 show ?thesis
    by (simp add: state_fields_def upt_rec numeral_2_eq_2 cstr_def)
qed

text \<open>
  C24: on the input that \<open>core_init_state\<close> generates, \<open>core_bench_state\<close> with a step of
  at least two stays inside the block and returns, for every pair of seeds.
\<close>

theorem core_state_input_safe:
  assumes "1 < unat sz" "unat sz + 16 < 2 ^ 32" "unat sz \<le> length mem" "1 < sint step"
  shows "\<exists>mem' crc' mem''. core_init_state sz seed mem = Some mem'
    \<and> core_bench_state sz mem' seed1 seed2 step crc = Some (crc', mem'')"
proof -
  from core_init_state_fields [OF assms(1-3), of seed] obtain pats k where
    init: "core_init_state sz seed mem =
      Some (state_fields pats @ replicate k 0 @ drop (unat sz) mem)" (is "_ = Some ?m")
    and k: "2 \<le> k" "length (state_fields pats) + k = unat sz"
    by blast
  then have "?m ! (unat sz - 1) = 0" "?m ! (unat sz - 2) = 0" "unat sz \<le> length ?m"
    using assms(3) by (auto simp: nth_append)
  note m = corrupted_keeps_nul [OF assms(1) this(3,1,2)] core_bench_state_eq [OF this(3)]
  show ?thesis
    using m(1) [of "nat (sint step)"] m(2) [of "nat (sint step)" "ucast seed1"]
      m(3) [of step seed1 seed2 crc] init assms(4)
    by auto
qed

theorem core_state_input_safe_witness:
  "\<exists>mem' crc' mem''. core_init_state 30 5 (replicate 32 7) = Some mem'
    \<and> core_bench_state 30 mem' 0x3415 0x3415 0x22 0 = Some (crc', mem'')"
  using core_state_input_safe [of 30 "replicate 32 7" "0x22" 5 "0x3415" "0x3415" 0] by simp

end
