(* ===== verification/Coremark_Matrix.thy ===== *)
theory Coremark_Matrix
  imports Coremark_Util
begin

text \<open>
  \<open>guests/coremark/core_matrix.c\<close>: the layout and the filling of the three matrices in
  their block, the matrix operations, and the test that folds their results into a CRC.

  The matrices are arrays indexed by the offset the code computes, \<open>i * N + j\<close> in 32
  bits; \<open>A\<close> and \<open>B\<close> hold 16-bit and \<open>C\<close> 32-bit signed entries. That they may be
  taken as separate arrays is the layout property at the end of this theory.
\<close>

section \<open>Model\<close>

type_synonym matdat = "nat \<Rightarrow> s16"
type_synonym matres = "nat \<Rightarrow> s32"

text \<open>The dimension and the addresses of the three arrays.\<close>

record mat_params =
  mat_N :: u32
  mat_A :: u64
  mat_B :: u64
  mat_C :: u64

definition mat_idx :: "u32 \<Rightarrow> nat \<Rightarrow> nat \<Rightarrow> nat" where
  "mat_idx N i j = unat (of_nat i * N + of_nat j)"

text \<open>The loop \<open>for (i = 0; i < N; i++)\<close>.\<close>

definition for_N :: "u32 \<Rightarrow> (nat \<Rightarrow> 's \<Rightarrow> 's) \<Rightarrow> 's \<Rightarrow> 's" where
  "for_N N body s = fold body [0..<unat N] s"

subsection \<open>Macros\<close>

definition matrix_clip :: "s16 \<Rightarrow> bool \<Rightarrow> s16" where
  "matrix_clip x y = (if y then x AND 0x0ff else x AND 0xffff)"

definition matrix_big :: "s16 \<Rightarrow> s16" where
  "matrix_big x = 0xf000 OR x"

definition bit_extract :: "s32 \<Rightarrow> nat \<Rightarrow> nat \<Rightarrow> u32" where
  "bit_extract x fr to = signed_drop_bit fr x AND NOT (push_bit to 0xffffffff)"

subsection \<open>Operations\<close>

definition matrix_sum :: "u32 \<Rightarrow> matres \<Rightarrow> s16 \<Rightarrow> s16" where
  "matrix_sum N C clipval =
     (let (tmp, prev, ret) =
        for_N N (\<lambda>i. for_N N (\<lambda>j (tmp, prev, ret).
          let cur = C (mat_idx N i j);
              tmp = tmp + cur;
              (tmp, ret) =
                (if scast clipval <s tmp then (0, ret + 10)
                 else (tmp, ret + (if prev <s cur then 1 else 0)))
          in (tmp, cur, ret))) (0, 0, 0)
      in ret)"

definition matrix_mul_const :: "u32 \<Rightarrow> matdat \<Rightarrow> s16 \<Rightarrow> matres \<Rightarrow> matres" where
  "matrix_mul_const N A val =
     for_N N (\<lambda>i. for_N N (\<lambda>j C.
       C(mat_idx N i j := scast (A (mat_idx N i j)) * scast val)))"

definition matrix_add_const :: "u32 \<Rightarrow> s16 \<Rightarrow> matdat \<Rightarrow> matdat" where
  "matrix_add_const N val =
     for_N N (\<lambda>i. for_N N (\<lambda>j A. A(mat_idx N i j := A (mat_idx N i j) + val)))"

definition matrix_mul_vect :: "u32 \<Rightarrow> matdat \<Rightarrow> matdat \<Rightarrow> matres \<Rightarrow> matres" where
  "matrix_mul_vect N A B =
     for_N N (\<lambda>i C.
       for_N N (\<lambda>j C. C(i := C i + scast (A (mat_idx N i j)) * scast (B j))) (C(i := 0)))"

definition matrix_mul_matrix :: "u32 \<Rightarrow> matdat \<Rightarrow> matdat \<Rightarrow> matres \<Rightarrow> matres" where
  "matrix_mul_matrix N A B =
     for_N N (\<lambda>i. for_N N (\<lambda>j C.
       for_N N (\<lambda>k C.
           C(mat_idx N i j :=
               C (mat_idx N i j) + scast (A (mat_idx N i k)) * scast (B (mat_idx N k j))))
         (C(mat_idx N i j := 0))))"

definition matrix_mul_matrix_bitextract ::
  "u32 \<Rightarrow> matdat \<Rightarrow> matdat \<Rightarrow> matres \<Rightarrow> matres" where
  "matrix_mul_matrix_bitextract N A B =
     for_N N (\<lambda>i. for_N N (\<lambda>j C.
       for_N N (\<lambda>k C.
           let tmp = scast (A (mat_idx N i k)) * scast (B (mat_idx N k j)) in
           C(mat_idx N i j := C (mat_idx N i j) + bit_extract tmp 2 4 * bit_extract tmp 5 7))
         (C(mat_idx N i j := 0))))"

text \<open>The test: its result and the matrices \<open>A\<close> and \<open>C\<close> it leaves.\<close>

definition matrix_test ::
  "u32 \<Rightarrow> matres \<Rightarrow> matdat \<Rightarrow> matdat \<Rightarrow> s16 \<Rightarrow> s16 \<times> matdat \<times> matres" where
  "matrix_test N C A B val =
     (let clipval = matrix_big val;
          A = matrix_add_const N val A;
          C = matrix_mul_const N A val C;
          crc = crc16 (matrix_sum N C clipval) 0;
          C = matrix_mul_vect N A B C;
          crc = crc16 (matrix_sum N C clipval) crc;
          C = matrix_mul_matrix N A B C;
          crc = crc16 (matrix_sum N C clipval) crc;
          C = matrix_mul_matrix_bitextract N A B C;
          crc = crc16 (matrix_sum N C clipval) crc;
          A = matrix_add_const N (- val) A
      in (crc, A, C))"

definition core_bench_matrix ::
  "u32 \<Rightarrow> matdat \<Rightarrow> matdat \<Rightarrow> matres \<Rightarrow> s16 \<Rightarrow> u16 \<Rightarrow> u16 \<times> matdat \<times> matres" where
  "core_bench_matrix N A B C seed crc =
     (let (r, A, C) = matrix_test N C A B seed in (crc16 r crc, A, C))"

subsection \<open>Initialisation\<close>

definition align_mem :: "u64 \<Rightarrow> u64" where
  "align_mem x = 4 + ((x - 1) AND NOT 3)"

text \<open>The loop that looks for the dimension; at a huge block it may not end.\<close>

partial_function (option) core_init_matrix_size :: "u32 \<Rightarrow> u32 \<Rightarrow> u32 \<Rightarrow> u32 option" where
  "core_init_matrix_size blksize i j =
     (if j < blksize then
        let i = i + 1 in core_init_matrix_size blksize i (i * i * 2 * 4)
      else Some i)"

declare core_init_matrix_size.simps [code]

text \<open>The body of the filling loops; the state is \<open>seed\<close>, \<open>order\<close> and the two arrays.\<close>

definition core_init_matrix_cell ::
  "u32 \<Rightarrow> nat \<Rightarrow> nat \<Rightarrow> s32 \<times> s32 \<times> matdat \<times> matdat \<Rightarrow> s32 \<times> s32 \<times> matdat \<times> matdat" where
  "core_init_matrix_cell N i j = (\<lambda>(seed, order, A, B).
     let seed = of_int (c_rem (sint (order * seed)) 65536);
         val = ucast (seed + order);
         val = matrix_clip val False;
         B = B(mat_idx N i j := val);
         val = val + ucast order;
         val = matrix_clip val True;
         A = A(mat_idx N i j := val)
     in (seed, order + 1, A, B))"

definition core_init_matrix ::
  "u32 \<Rightarrow> u64 \<Rightarrow> s32 \<Rightarrow> matdat \<Rightarrow> matdat \<Rightarrow> (mat_params \<times> matdat \<times> matdat) option" where
  "core_init_matrix blksize memblk seed A B =
     (let seed = (if seed = 0 then 1 else seed) in
      case core_init_matrix_size blksize 0 0 of
        None \<Rightarrow> None
      | Some i \<Rightarrow>
          let N = i - 1;
              a = align_mem memblk;
              b = a + 2 * ucast (N * N);
              (_, _, A, B) = for_N N (\<lambda>i. for_N N (core_init_matrix_cell N i)) (seed, 1, A, B)
          in Some (\<lparr>mat_N = N, mat_A = a, mat_B = b, mat_C = align_mem (b + 2 * ucast (N * N))\<rparr>,
                   A, B))"

section \<open>Properties\<close>

subsection \<open>Loops over the cells\<close>

lemma fold_product:
  "fold (\<lambda>i. fold (f i) ys) xs s = fold (\<lambda>(i, j). f i j) (List.product xs ys) s"
  by (induction xs arbitrary: s) (simp_all add: fold_map comp_def)

lemma for_N_cells:
  "for_N N (\<lambda>i. for_N N (body i)) s =
     fold (\<lambda>(i, j). body i j) (List.product [0..<unat N] [0..<unat N]) s"
  by (simp add: for_N_def [abs_def] fold_product)

lemma fold_writes:
  assumes "inj_on ix (set ps)"
  shows "p \<in> set ps \<Longrightarrow> fold (\<lambda>p C. C(ix p := f p)) ps C (ix p) = f p"
  using assms
proof (induction ps arbitrary: C rule: rev_induct)
  case (snoc q ps)
  show ?case
  proof (cases "ix p = ix q")
    case True
    then have "p = q" using inj_onD [OF snoc.prems(2)] snoc.prems(1) by simp
    then show ?thesis by simp
  next
    case False
    with snoc show ?thesis by (auto simp: inj_on_def)
  qed
qed simp

lemma fold_writes_frame:
  "k \<notin> ix ` set ps \<Longrightarrow> fold (\<lambda>p C. C(ix p := f p)) ps C k = C k"
  by (induction ps arbitrary: C) auto

lemma for_N_accumulate:
  "for_N N (\<lambda>k C. C(c := C c + g k)) C = C(c := C c + (\<Sum>k<unat N. g k))"
  for g :: "nat \<Rightarrow> 'a::ab_group_add"
proof -
  have "fold (\<lambda>k C. C(c := C c + g k)) ks C = C(c := C c + sum_list (map g ks))" for ks
    by (induction ks arbitrary: C) (simp_all add: fun_upd_idem add.assoc)
  then show ?thesis by (simp add: for_N_def interv_sum_list_conv_sum_set_nat atLeast0LessThan)
qed

lemma mat_idx_small:
  assumes "unat N * unat N \<le> 2 ^ 32" "i < unat N" "j < unat N"
  shows "mat_idx N i j = i * unat N + j"
proof -
  have "i * unat N + j < Suc i * unat N" using assms(3) by simp
  also have "\<dots> \<le> unat N * unat N" using assms(2) by (intro mult_le_mono1) simp
  finally have "i * unat N + j < 2 ^ 32" using assms(1) by simp
  then have "unat (of_nat (i * unat N + j) :: u32) = i * unat N + j"
    by (intro unat_of_nat_small) simp
  then show ?thesis by (simp add: mat_idx_def)
qed

lemma cell_inj:
  fixes n :: nat
  assumes "j < n" "j' < n" "i * n + j = i' * n + j'"
  shows "i = i' \<and> j = j'"
proof -
  have "(i * n + j) div n = i" "(i * n + j) mod n = j" "(i' * n + j') div n = i'" "(i' * n + j') mod n = j'"
    using assms(1,2) by simp_all
  then show ?thesis using assms(3) by metis
qed

lemma cells_inj:
  assumes "unat N * unat N \<le> 2 ^ 32"
  shows "inj_on (\<lambda>(i, j). mat_idx N i j) (set (List.product [0..<unat N] [0..<unat N]))"
  using assms by (auto simp: inj_on_def mat_idx_small dest: cell_inj)

text \<open>A loop over the cells that writes each of them once.\<close>

lemma for_N_write_cells:
  assumes "unat N * unat N \<le> 2 ^ 32"
  shows "i < unat N \<Longrightarrow> j < unat N \<Longrightarrow>
      for_N N (\<lambda>i. for_N N (\<lambda>j C. C(mat_idx N i j := f i j))) C (i * unat N + j) = f i j"
    and "unat N * unat N \<le> k \<Longrightarrow>
      for_N N (\<lambda>i. for_N N (\<lambda>j C. C(mat_idx N i j := f i j))) C k = C k"
proof -
  let ?ps = "List.product [0..<unat N] [0..<unat N]"
  have *: "for_N N (\<lambda>i. for_N N (\<lambda>j C. C(mat_idx N i j := f i j))) C =
      fold (\<lambda>p C. C((\<lambda>(i, j). mat_idx N i j) p := (\<lambda>(i, j). f i j) p)) ?ps C" for C
    by (simp add: for_N_cells case_prod_unfold)
  show "for_N N (\<lambda>i. for_N N (\<lambda>j C. C(mat_idx N i j := f i j))) C (i * unat N + j) = f i j"
    if "i < unat N" "j < unat N"
    using fold_writes [OF cells_inj [OF assms], of "(i, j)" "\<lambda>(i, j). f i j" C] that assms
    by (simp add: * mat_idx_small)
  have out: "k \<notin> (\<lambda>(i, j). mat_idx N i j) ` set ?ps" if "unat N * unat N \<le> k"
  proof
    assume "k \<in> (\<lambda>(i, j). mat_idx N i j) ` set ?ps"
    then obtain i j where ij: "i < unat N" "j < unat N" "k = i * unat N + j"
      using assms by (auto simp: mat_idx_small)
    then have "k < Suc i * unat N" by simp
    also have "\<dots> \<le> unat N * unat N" using ij(1) by (intro mult_le_mono1) simp
    finally show False using that by simp
  qed
  show "for_N N (\<lambda>i. for_N N (\<lambda>j C. C(mat_idx N i j := f i j))) C k = C k"
    if "unat N * unat N \<le> k"
    unfolding * by (rule fold_writes_frame [OF out [OF that]])
qed

subsection \<open>Functional correctness of the operations\<close>

lemma mul_matrix_writes:
  "matrix_mul_matrix N A B =
     for_N N (\<lambda>i. for_N N (\<lambda>j C. C(mat_idx N i j :=
       (\<Sum>k<unat N. scast (A (mat_idx N i k)) * scast (B (mat_idx N k j))))))"
  by (simp add: matrix_mul_matrix_def for_N_accumulate)

lemma mul_bitextract_writes:
  "matrix_mul_matrix_bitextract N A B =
     for_N N (\<lambda>i. for_N N (\<lambda>j C. C(mat_idx N i j :=
       (\<Sum>k<unat N. let tmp = scast (A (mat_idx N i k)) * scast (B (mat_idx N k j))
          in bit_extract tmp 2 4 * bit_extract tmp 5 7))))"
  by (simp add: matrix_mul_matrix_bitextract_def Let_def for_N_accumulate)

lemma mul_vect_writes:
  "matrix_mul_vect N A B =
     for_N N (\<lambda>i C. C(i := (\<Sum>j<unat N. scast (A (mat_idx N i j)) * scast (B j))))"
  by (simp add: matrix_mul_vect_def for_N_accumulate)

text \<open>The two bit fields a product contributes: bits 2 to 5 and bits 5 to 11.\<close>

lemma signed_drop_bit_mask:
  "from + to < 32 \<Longrightarrow> signed_drop_bit from t AND mask to = drop_bit from t AND mask to" for t :: s32
  by (rule bit_word_eqI) (auto simp: bit_simps bit_signed_drop_bit_iff)

lemma bit_extract_fields:
  "bit_extract t 2 4 = drop_bit 2 t AND 0xF" "bit_extract t 5 7 = drop_bit 5 t AND 0x7F"
proof -
  have "NOT (push_bit 4 0xffffffff) = (mask 4 :: u32)" "NOT (push_bit 7 0xffffffff) = (mask 7 :: u32)"
    "mask 4 = (0xF :: u32)" "mask 7 = (0x7F :: u32)"
    by (simp_all add: mask_eq_exp_minus_1)
  note masks = this
  show "bit_extract t 2 4 = drop_bit 2 t AND 0xF" "bit_extract t 5 7 = drop_bit 5 t AND 0x7F"
    using signed_drop_bit_mask [of 2 4 t] signed_drop_bit_mask [of 5 7 t]
    unfolding bit_extract_def masks by simp_all
qed

text \<open>
  C30: the matrix operations compute what they are named for. With a dimension whose
  square fits 32 bits, every cell of the result is: the product with the constant, the
  inner product of the row and the vector, the inner product of row and column, and
  (for the bit-extracting product) the sum of the products of two bit fields of the
  elementary products. Cells outside the result keep their values: those from \<open>n * n\<close> on,
  and for the product with a vector all from \<open>n\<close> on.
\<close>

theorem matrix_operations_correct:
  assumes n: "n = unat N" and small: "n * n \<le> 2 ^ 32" and i: "i < n" and j: "j < n"
    and m: "n * n \<le> m" and l: "n \<le> l"
  shows "matrix_mul_const N A val C (i * n + j) = scast (A (i * n + j)) * scast val
    \<and> matrix_mul_vect N A B C i = (\<Sum>j<n. scast (A (i * n + j)) * scast (B j))
    \<and> matrix_mul_matrix N A B C (i * n + j) =
        (\<Sum>k<n. scast (A (i * n + k)) * scast (B (k * n + j)))
    \<and> matrix_mul_matrix_bitextract N A B C (i * n + j) =
        (\<Sum>k<n. let t = scast (A (i * n + k)) * scast (B (k * n + j))
          in (drop_bit 2 t AND 0xF) * (drop_bit 5 t AND 0x7F))
    \<and> matrix_mul_const N A val C m = C m \<and> matrix_mul_vect N A B C l = C l
    \<and> matrix_mul_matrix N A B C m = C m \<and> matrix_mul_matrix_bitextract N A B C m = C m"
proof (intro conjI)
  note cells = for_N_write_cells [OF small [unfolded n]]
  have idx: "mat_idx N i j = i * n + j" if "i < n" "j < n" for i j
    using that small n by (simp add: mat_idx_small)
  show "matrix_mul_const N A val C (i * n + j) = scast (A (i * n + j)) * scast val"
    using i j idx n by (simp add: matrix_mul_const_def cells(1))
  show "matrix_mul_matrix N A B C (i * n + j) =
      (\<Sum>k<n. scast (A (i * n + k)) * scast (B (k * n + j)))"
    using i j idx n by (simp add: mul_matrix_writes cells(1))
  show "matrix_mul_matrix_bitextract N A B C (i * n + j) =
      (\<Sum>k<n. let t = scast (A (i * n + k)) * scast (B (k * n + j))
        in (drop_bit 2 t AND 0xF) * (drop_bit 5 t AND 0x7F))"
    using i j idx n by (simp add: mul_bitextract_writes bit_extract_fields cells(1))
  show "matrix_mul_const N A val C m = C m" "matrix_mul_matrix N A B C m = C m"
    "matrix_mul_matrix_bitextract N A B C m = C m"
    using m n by (simp_all add: matrix_mul_const_def mul_matrix_writes mul_bitextract_writes cells(2))
  have id: "inj_on (\<lambda>i. i) (set [0..<n])" by simp
  show "matrix_mul_vect N A B C i = (\<Sum>j<n. scast (A (i * n + j)) * scast (B j))"
    using i idx n by (simp add: mul_vect_writes for_N_def fold_writes [OF id [unfolded n], of i])
  show "matrix_mul_vect N A B C l = C l"
    using l fold_writes_frame [of l "\<lambda>i. i" "[0..<n]"] n by (simp add: mul_vect_writes for_N_def)
qed

theorem matrix_operations_correct_witness:
  "matrix_mul_matrix 2 (\<lambda>k. of_nat k + 1) (\<lambda>k. of_nat k + 5) (\<lambda>_. 9) (1 * 2 + 0) = 3 * 5 + 4 * 7
   \<and> matrix_mul_matrix 2 (\<lambda>k. of_nat k + 1) (\<lambda>k. of_nat k + 5) (\<lambda>_. 9) 4 = 9
   \<and> matrix_mul_vect 2 (\<lambda>k. of_nat k + 1) (\<lambda>k. of_nat k + 5) (\<lambda>_. 9) 1 = 3 * 5 + 4 * 6
   \<and> matrix_mul_vect 2 (\<lambda>k. of_nat k + 1) (\<lambda>k. of_nat k + 5) (\<lambda>_. 9) 2 = 9"
proof -
  have two: "{..<2 :: nat} = {0, 1}" by auto
  show ?thesis
    using matrix_operations_correct [of 2 2 1 0 4 2 "\<lambda>k. of_nat k + 1" 0 "\<lambda>_. 9" "\<lambda>k. of_nat k + 5"]
    by (simp add: two)
qed

subsection \<open>The test leaves the input matrix as it was\<close>

lemma fold_add_cells:
  "fold (\<lambda>p A. A(ix p := A (ix p) + v)) ps A =
     (\<lambda>k. A k + of_nat (length (filter (\<lambda>p. ix p = k) ps)) * v)" for v :: "'a::len word"
  by (induction ps arbitrary: A) (auto simp: algebra_simps)

lemma matrix_add_const_eq:
  "matrix_add_const N v A =
     (\<lambda>k. A k + of_nat (length (filter (\<lambda>(i, j). mat_idx N i j = k)
        (List.product [0..<unat N] [0..<unat N]))) * v)"
proof -
  let ?ps = "List.product [0..<unat N] [0..<unat N]"
  have "matrix_add_const N v A = fold (\<lambda>p A. A((\<lambda>(i, j). mat_idx N i j) p := A ((\<lambda>(i, j). mat_idx N i j) p) + v)) ?ps A"
    by (simp add: matrix_add_const_def for_N_cells case_prod_unfold)
  also have "\<dots> = (\<lambda>k. A k + of_nat (length (filter (\<lambda>p. (\<lambda>(i, j). mat_idx N i j) p = k) ?ps)) * v)"
    by (rule fold_add_cells)
  finally show ?thesis by (simp add: case_prod_unfold)
qed

lemma matrix_test_A: "fst (snd (matrix_test N C A B val)) = A"
proof -
  have "matrix_add_const N (- v) (matrix_add_const N v A) = A" for v
    by (rule ext) (simp add: matrix_add_const_eq)
  then show ?thesis by (simp add: matrix_test_def Let_def)
qed

lemma core_bench_matrix_A: "fst (snd (core_bench_matrix N A B C seed crc)) = A"
  by (simp add: core_bench_matrix_def case_prod_unfold Let_def matrix_test_A)

text \<open>
  C32: after \<open>matrix_test\<close>, and so after \<open>core_bench_matrix\<close>, matrix \<open>A\<close> is back to its
  original contents, whatever the dimension and the value.
\<close>

theorem matrix_test_restores_A:
  "fst (snd (matrix_test N C A B val)) = A \<and> fst (snd (core_bench_matrix N A B C seed crc)) = A"
  by (simp add: matrix_test_A core_bench_matrix_A)

subsection \<open>Layout of the block\<close>

lemma unat_and_not_3: "unat (y AND NOT 3) = unat y - unat y mod 4" for y :: u64
proof -
  have mask: "(3 :: u64) = mask 2" by (simp add: mask_eq_exp_minus_1)
  have "(y AND 3) + (y AND NOT 3) = (y AND 3) OR (y AND NOT 3)"
    by (rule disjunctive_add) (auto simp: bit_simps)
  also have "\<dots> = y" by (rule bit_word_eqI) (auto simp: bit_simps)
  finally have "y AND NOT 3 = y - (y AND 3)" by (simp add: eq_diff_eq add.commute)
  moreover have "unat (y AND 3) = unat y mod 4"
    unfolding mask by (simp add: unat_and_mask)
  moreover have "y AND 3 \<le> y" by (simp add: word_le_def uint_and)
  ultimately show ?thesis by (simp add: unat_sub)
qed

lemma unat_align_mem:
  assumes "0 < unat x" "unat x + 4 < 2 ^ 64"
  shows "unat (align_mem x) = 4 * ((unat x + 3) div 4)"
proof -
  have x1: "unat (x - 1) = unat x - 1" using assms(1) by (intro unat_minus_one) auto
  have "unat (x - 1) - unat (x - 1) mod 4 = 4 * ((unat x - 1) div 4)"
    by (simp add: x1 minus_mod_eq_mult_div)
  moreover have "4 + 4 * ((unat x - 1) div 4) = 4 * ((unat x + 3) div 4)"
    using assms(1) by (cases "unat x") (simp_all add: div_add_self1)
  ultimately have "unat (4 :: u64) + unat ((x - 1) AND NOT 3) = 4 * ((unat x + 3) div 4)"
    unfolding unat_and_not_3 by simp
  moreover from this have "unat (4 :: u64) + unat ((x - 1) AND NOT 3) < 2 ^ 64"
    using assms(2) by linarith
  ultimately show ?thesis by (simp add: align_mem_def unat_word_ariths(1))
qed

lemma square_bound: "i \<le> k \<Longrightarrow> 8 * i * i \<le> 8 * k * k" for i k :: nat
  by (intro mult_le_mono) simp_all

lemma core_init_matrix_size_loop:
  assumes "i \<le> 23170" "unat blksize \<le> 8 * 23170 * 23170"
  shows "\<exists>m. core_init_matrix_size blksize (of_nat i) (of_nat (8 * i * i)) = Some (of_nat m)
    \<and> i \<le> m \<and> m \<le> 23170 \<and> unat blksize \<le> 8 * m * m
    \<and> (m = i \<or> 8 * (m - 1) * (m - 1) < unat blksize)"
  using assms(1)
proof (induction "23170 - i" arbitrary: i rule: less_induct)
  case less
  have "unat (of_nat (8 * i * i) :: u32) = 8 * i * i"
    using square_bound [OF less.prems] by (intro unat_of_nat_small) simp
  then have guard: "(of_nat (8 * i * i) :: u32) < blksize \<longleftrightarrow> 8 * i * i < unat blksize"
    by (simp add: word_less_nat_alt)
  show ?case
  proof (cases "8 * i * i < unat blksize")
    case True
    have step: "core_init_matrix_size blksize (of_nat i) (of_nat (8 * i * i)) =
        core_init_matrix_size blksize (of_nat (i + 1)) (of_nat (8 * (i + 1) * (i + 1)))"
      using True guard by (subst core_init_matrix_size.simps) (simp add: Let_def algebra_simps)
    have lt: "i < 23170"
    proof (rule ccontr)
      assume "\<not> i < 23170"
      with less.prems have "i = 23170" by simp
      with True assms(2) show False by simp
    qed
    from less.hyps [of "i + 1"] lt obtain m where m:
      "core_init_matrix_size blksize (of_nat (i + 1)) (of_nat (8 * (i + 1) * (i + 1))) = Some (of_nat m)"
      "i + 1 \<le> m" "m \<le> 23170" "unat blksize \<le> 8 * m * m"
      "m = i + 1 \<or> 8 * (m - 1) * (m - 1) < unat blksize"
      by (metis Suc_eq_plus1 Suc_leI diff_less_mono2 lessI)
    with True step show ?thesis by (intro exI [of _ m]) auto
  next
    case False
    with guard show ?thesis
      using less.prems by (intro exI [of _ i]) (simp add: core_init_matrix_size.simps [of blksize "of_nat i"])
  qed
qed

lemma core_init_matrix_cell_AND:
  "\<exists>s' o' v B'. core_init_matrix_cell N i j (s, ord, A, B) = (s', o', A(mat_idx N i j := v AND 0xFF), B')"
  by (auto simp: core_init_matrix_cell_def matrix_clip_def Let_def)

lemma core_init_matrix_cells_small:
  "fold (\<lambda>(i, j). core_init_matrix_cell N i j) ps (seed, order, A, B) = (seed', order', A', B') \<Longrightarrow>
     (i, j) \<in> set ps \<Longrightarrow> unat (A' (mat_idx N i j)) \<le> 255"
proof (induction ps arbitrary: seed' order' A' B' rule: rev_induct)
  case (snoc p ps)
  obtain s1 o1 A1 B1 where *: "fold (\<lambda>(i, j). core_init_matrix_cell N i j) ps (seed, order, A, B) = (s1, o1, A1, B1)"
    by (metis prod_cases4)
  obtain i' j' where p: "p = (i', j')" by force
  obtain v where A': "A' = A1(mat_idx N i' j' := v AND 0xFF)"
    using snoc.prems(1) core_init_matrix_cell_AND [of N i' j' s1 o1 A1 B1]
    by (auto simp: * p)
  show ?case
    using snoc.IH [OF * ] snoc.prems(2) unat_and_le [of v "0xFF"] by (auto simp: A' p)
qed simp

lemma fold_cells_split:
  "for_N N (\<lambda>i. for_N N (core_init_matrix_cell N i)) s =
     fold (\<lambda>(i, j). core_init_matrix_cell N i j) (List.product [0..<unat N] [0..<unat N]) s"
  by (rule for_N_cells)

lemma init_matrix_layout:
  assumes "0 < unat blksize" "unat blksize \<le> 8 * 23170 * 23170"
    and "0 < unat memblk" "unat memblk + unat blksize + 8 < 2 ^ 64"
  shows "\<exists>p A' B' n. core_init_matrix blksize memblk seed A B = Some (p, A', B')
    \<and> n = unat (mat_N p) \<and> 8 * n * n < unat blksize \<and> unat blksize \<le> 8 * (n + 1) * (n + 1)
    \<and> 4 dvd unat (mat_A p) \<and> unat memblk \<le> unat (mat_A p) \<and> unat (mat_A p) \<le> unat memblk + 3
    \<and> unat (mat_B p) = unat (mat_A p) + 2 * (n * n) \<and> unat (mat_C p) = unat (mat_B p) + 2 * (n * n)
    \<and> unat (mat_C p) + 4 * (n * n) \<le> unat memblk + unat blksize + 2
    \<and> (4 dvd unat memblk \<longrightarrow> unat (mat_C p) + 4 * (n * n) < unat memblk + unat blksize)
    \<and> (\<forall>i<n. \<forall>j<n. unat (A' (i * n + j)) \<le> 255)"
proof -
  from core_init_matrix_size_loop [of 0 blksize] assms(2) obtain m where
    m0: "core_init_matrix_size blksize 0 0 = Some (of_nat m)" "m \<le> 23170"
      "unat blksize \<le> 8 * m * m" "m = 0 \<or> 8 * (m - 1) * (m - 1) < unat blksize"
    by auto
  with assms(1) have "m \<noteq> 0" by (cases "m = 0") auto
  then obtain n where mn: "m = n + 1" by (cases m) auto
  have n: "of_nat m - 1 = (of_nat n :: u32)" by (simp add: mn)
  have un: "unat (of_nat n :: u32) = n" using m0(2) by (intro unat_of_nat_small) (simp add: mn)
  have nn: "8 * n * n < unat blksize" "unat blksize \<le> 8 * (n + 1) * (n + 1)"
    using m0(3,4) by (simp_all add: mn)
  have small: "n * n < 2 ^ 29" using nn(1) assms(2) by simp
  have "unat (of_nat (n * n) :: u32) = n * n" using small by (intro unat_of_nat_small) simp
  then have unn: "unat (2 * ucast ((of_nat n :: u32) * of_nat n) :: u64) = 2 * (n * n)"
    using small by (simp add: unat_word_ariths(2) unsigned_ucast_eq take_bit_nat_eq_self)
  obtain s' o' A' B' where fill: "for_N (of_nat n) (\<lambda>i. for_N (of_nat n) (core_init_matrix_cell (of_nat n) i))
      (if seed = 0 then 1 else seed, 1, A, B) = (s', o', A', B')"
    by (metis prod_cases4)
  let ?a = "align_mem memblk" and ?d = "2 * ucast ((of_nat n :: u32) * of_nat n) :: u64"
  let ?p = "\<lparr>mat_N = of_nat n, mat_A = ?a, mat_B = ?a + ?d, mat_C = align_mem (?a + ?d + ?d)\<rparr>"
  have init: "core_init_matrix blksize memblk seed A B = Some (?p, A', B')"
    using fill by (simp add: core_init_matrix_def m0(1) n Let_def)
  have a: "unat ?a = 4 * ((unat memblk + 3) div 4)" using assms(3,4) by (intro unat_align_mem) auto
  have le: "unat ?a \<le> unat memblk + 3" "unat memblk \<le> unat ?a" unfolding a by linarith+
  have b: "unat (?a + ?d) = unat ?a + 2 * (n * n)"
    using le(1) assms(4) nn(1) unn by (simp add: unat_word_ariths(1))
  have bd: "unat (?a + ?d + ?d) = unat ?a + 4 * (n * n)"
    unfolding unat_word_ariths(1) [of "?a + ?d" ?d] b unn using le(1) assms(4) nn(1) by simp
  have "4 * ((unat ?a + 4 * (n * n) + 3) div 4) = unat ?a + 4 * (n * n)"
    unfolding a by (simp add: distrib_left [symmetric] del: distrib_left_numeral)
  then have c: "unat (align_mem (?a + ?d + ?d)) = unat ?a + 4 * (n * n)"
    using unat_align_mem [of "?a + ?d + ?d", unfolded bd] le assms(3,4) nn(1) by simp
  have vals: "\<forall>i<n. \<forall>j<n. unat (A' (i * n + j)) \<le> 255"
    using core_init_matrix_cells_small [OF fill [unfolded fold_cells_split]] small
    by (simp add: un mat_idx_small)
  have aligned: "4 dvd unat memblk \<Longrightarrow> unat ?a = unat memblk" unfolding a by auto
  show ?thesis
    by (rule exI [of _ ?p], rule exI [of _ A'], rule exI [of _ B'], rule exI [of _ n], intro conjI)
      (use init un nn a b c le vals aligned in simp_all)
qed

text \<open>
  C34: for a block of at least one byte (and small enough that the search for the
  dimension does not wrap), \<open>core_init_matrix\<close> returns the largest dimension \<open>n\<close> whose three
  matrices, of \<open>8 * n * n\<close> bytes together, take strictly less than the block: a block of
  exactly \<open>8 * n * n\<close> bytes gets the dimension \<open>n - 1\<close>. \<open>A\<close>, \<open>B\<close> and \<open>C\<close> lie one behind the
  other from the first aligned address, and inside the block if the block is aligned (at
  most two bytes behind it otherwise). Every entry of \<open>A\<close> is at most 255.
\<close>

theorem core_init_matrix_layout:
  assumes "0 < unat blksize" "unat blksize \<le> 8 * 23170 * 23170"
    and "0 < unat memblk" "unat memblk + unat blksize + 8 < 2 ^ 64"
  shows "\<exists>p A' B' n. core_init_matrix blksize memblk seed A B = Some (p, A', B')
    \<and> n = unat (mat_N p) \<and> 8 * n * n < unat blksize \<and> unat blksize \<le> 8 * (n + 1) * (n + 1)
    \<and> 4 dvd unat (mat_A p) \<and> unat memblk \<le> unat (mat_A p) \<and> unat (mat_A p) \<le> unat memblk + 3
    \<and> unat (mat_B p) = unat (mat_A p) + 2 * (n * n) \<and> unat (mat_C p) = unat (mat_B p) + 2 * (n * n)
    \<and> unat (mat_C p) + 4 * (n * n) \<le> unat memblk + unat blksize + 2
    \<and> (4 dvd unat memblk \<longrightarrow> unat (mat_C p) + 4 * (n * n) < unat memblk + unat blksize)
    \<and> (\<forall>i<n. \<forall>j<n. unat (A' (i * n + j)) \<le> 255)"
  using assms by (rule init_matrix_layout)

theorem core_init_matrix_layout_witness:
  "\<exists>p A' B' n. core_init_matrix 666 0x80001002 0 (\<lambda>_. 0) (\<lambda>_. 0) = Some (p, A', B')
    \<and> n = unat (mat_N p) \<and> 8 * n * n < 666 \<and> 666 \<le> 8 * (n + 1) * (n + 1)
    \<and> unat (mat_C p) + 4 * (n * n) \<le> 0x80001002 + 668"
  using core_init_matrix_layout [of 666 "0x80001002" 0 "\<lambda>_. 0" "\<lambda>_. 0"] by auto

text \<open>
  In the configuration of the port, the second third of an aligned block of 2000 bytes,
  the result matrix ends before the last third begins.
\<close>

lemma core_init_matrix_port:
  assumes "4 dvd unat base" "0 < unat base" "unat base + 2000 < 2 ^ 63"
  shows "\<exists>p A' B'. core_init_matrix 666 (base + 666) seed A B = Some (p, A', B')
    \<and> unat (mat_N p) = 9 \<and> unat (mat_C p) + 4 * (9 * 9) \<le> unat base + 2 * 666"
proof -
  have u: "unat (base + 666) = unat base + 666" using assms(3) by (subst unat_add_lem [THEN iffD1]) simp_all
  obtain p A' B' n where p: "core_init_matrix 666 (base + 666) seed A B = Some (p, A', B')" "n = unat (mat_N p)"
    "8 * n * n < 666" "666 \<le> 8 * (n + 1) * (n + 1)" "4 dvd unat (mat_A p)" "unat (mat_A p) \<le> unat base + 666 + 3"
    "unat (mat_B p) = unat (mat_A p) + 2 * (n * n)" "unat (mat_C p) = unat (mat_B p) + 2 * (n * n)"
    using init_matrix_layout [of 666 "base + 666" seed A B] assms(3) unfolding u by auto
  have "n \<le> 9"
  proof (rule ccontr)
    assume "\<not> n \<le> 9"
    then have "10 * 10 \<le> n * n" by (intro mult_le_mono) simp_all
    with p(3) show False by simp
  qed
  moreover have "9 \<le> n"
  proof (rule ccontr)
    assume "\<not> 9 \<le> n"
    then have "(n + 1) * (n + 1) \<le> 9 * 9" by (intro mult_le_mono) simp_all
    then have "8 * ((n + 1) * (n + 1)) \<le> 8 * (9 * 9)" by (rule mult_le_mono2)
    from order_trans [OF p(4) [unfolded mult.assoc] this] show False by simp
  qed
  ultimately have n: "n = 9" by simp
  have "unat (mat_A p) \<le> unat base + 668" using p(5,6) assms(1) by presburger
  with p n show ?thesis by auto
qed

text \<open>An unaligned block that the result matrix overruns by two bytes.\<close>

lemma core_init_matrix_overrun:
  "\<exists>p A' B'. core_init_matrix 9 0x1001 1 (\<lambda>_. 0) (\<lambda>_. 0) = Some (p, A', B')
    \<and> unat (mat_N p) = 1 \<and> unat (mat_C p) + 4 = 0x1001 + 9 + 2"
proof -
  have "core_init_matrix_size 9 0 0 = Some 2" "align_mem 0x1001 = 0x1004" "align_mem 0x1008 = 0x1008"
    by code_simp+
  then show ?thesis by (simp add: core_init_matrix_def Let_def case_prod_unfold)
qed

end
