(* ===== verification/Coremark_List.thy ===== *)
theory Coremark_List
  imports Coremark_State Coremark_Matrix "HOL-Library.Multiset"
begin

text \<open>
  \<open>guests/coremark/core_list_join.c\<close>: the linked-list benchmark with its in-place merge
  sort, and the data items whose value is computed by the other two benchmarks.

  List cells and data items are the elements of the two arrays \<open>core_list_init\<close> makes of
  its block, named by their index; a pointer to a cell is \<open>None\<close> when it is \<open>NULL\<close>.
  The fields are maps from cells or items to their values, and reading a field through
  \<open>NULL\<close> is the failure \<open>None\<close> of the whole computation. Loops along the links are
  partial functions, since a cyclic list would keep them going.
\<close>

section \<open>Model\<close>

record list_heap =
  lnext :: "nat \<Rightarrow> nat option"
  linfo :: "nat \<Rightarrow> nat"
  ldata16 :: "nat \<Rightarrow> s16"
  lidx :: "nat \<Rightarrow> s16"

text \<open>The results structure: the inputs, the blocks of the three algorithms, the CRCs.\<close>

record core_results = list_heap +
  seed1 :: s16
  seed2 :: s16
  seed3 :: s16
  memblock3 :: "u8 list"
  res_size :: u32
  iterations :: u32
  execs :: u32
  res_list :: "nat option"
  res_N :: u32
  res_A :: matdat
  res_B :: matdat
  res_C :: matres
  crc :: u16
  crclist :: u16
  crcmatrix :: u16
  crcstate :: u16
  err :: s16

definition set_next :: "nat \<Rightarrow> nat option \<Rightarrow> 'a list_heap_scheme \<Rightarrow> 'a list_heap_scheme" where
  "set_next c p w = w\<lparr>lnext := (lnext w)(c := p)\<rparr>"

definition set_info :: "nat \<Rightarrow> nat \<Rightarrow> 'a list_heap_scheme \<Rightarrow> 'a list_heap_scheme" where
  "set_info c d w = w\<lparr>linfo := (linfo w)(c := d)\<rparr>"

definition set_data16 :: "nat \<Rightarrow> s16 \<Rightarrow> 'a list_heap_scheme \<Rightarrow> 'a list_heap_scheme" where
  "set_data16 d v w = w\<lparr>ldata16 := (ldata16 w)(d := v)\<rparr>"

definition set_idx :: "nat \<Rightarrow> s16 \<Rightarrow> 'a list_heap_scheme \<Rightarrow> 'a list_heap_scheme" where
  "set_idx d v w = w\<lparr>lidx := (lidx w)(d := v)\<rparr>"

subsection \<open>Data items\<close>

text \<open>The \<open>switch\<close> of \<open>calc_func\<close>: an item's value by the type and the argument in its data.\<close>

definition calc_switch :: "s16 \<Rightarrow> core_results \<Rightarrow> (s16 \<times> core_results) option" where
  "calc_switch data res =
     (let flag = data AND 0x7;
          dtype = drop_bit 3 data AND 0xf;
          dtype = dtype OR push_bit 4 dtype
      in if flag = 0 then do {
           let dtype = (if dtype <s 0x22 then 0x22 else dtype);
           (r, mem) \<leftarrow> core_bench_state (res_size res) (memblock3 res) (seed1 res) (seed2 res) dtype (crc res);
           let res = res\<lparr>memblock3 := mem\<rparr>;
           Some (r, if crcstate res = 0 then res\<lparr>crcstate := r\<rparr> else res)
         }
         else if flag = 1 then
           let (r, A, C) = core_bench_matrix (res_N res) (res_A res) (res_B res) (res_C res) dtype (crc res);
               res = res\<lparr>res_A := A, res_C := C\<rparr>
           in Some (r, if crcmatrix res = 0 then res\<lparr>crcmatrix := r\<rparr> else res)
         else Some (data, res))"

definition calc_func :: "nat \<Rightarrow> core_results \<Rightarrow> (s16 \<times> core_results) option" where
  "calc_func d res =
     (let data = ldata16 res d in
      if drop_bit 7 data AND 1 \<noteq> 0 then Some (data AND 0x007f, res)
      else do {
        (retval, res) \<leftarrow> calc_switch data res;
        let res = res\<lparr>crc := crcu16 retval (crc res)\<rparr>;
        let retval = retval AND 0x007f;
        Some (retval, set_data16 d ((data AND 0xff00) OR 0x0080 OR retval) res)
      })"

definition cmp_complex :: "nat \<Rightarrow> nat \<Rightarrow> core_results \<Rightarrow> (s32 \<times> core_results) option" where
  "cmp_complex a b res =
     do {
       (val1, res) \<leftarrow> calc_func a res;
       (val2, res) \<leftarrow> calc_func b res;
       Some (scast val1 - scast val2, res)
     }"

definition regen_data :: "s16 \<Rightarrow> s16" where
  "regen_data d = (d AND 0xff00) OR (0x00ff AND drop_bit 8 d)"

text \<open>The first argument says whether the \<open>res\<close> the code passes is \<open>NULL\<close>.\<close>

definition cmp_idx ::
  "bool \<Rightarrow> nat \<Rightarrow> nat \<Rightarrow> 'a list_heap_scheme \<Rightarrow> (s32 \<times> 'a list_heap_scheme) option" where
  "cmp_idx res_null a b w =
     (let w = (if res_null then
            let w = set_data16 a (regen_data (ldata16 w a)) w
            in set_data16 b (regen_data (ldata16 w b)) w
          else w)
      in Some (scast (lidx w a) - scast (lidx w b), w))"

definition copy_info :: "nat \<Rightarrow> s16 \<times> s16 \<Rightarrow> 'a list_heap_scheme \<Rightarrow> 'a list_heap_scheme" where
  "copy_info to from w = set_idx to (snd from) (set_data16 to (fst from) w)"

subsection \<open>List operations\<close>

text \<open>
  \<open>core_list_insert_new\<close>: \<open>memblock\<close> and \<open>datablock\<close> are the next free cell and item;
  the result is the new cell (\<open>None\<close> for \<open>NULL\<close>) and the three updated values.
\<close>

definition core_list_insert_new ::
  "nat \<Rightarrow> s16 \<times> s16 \<Rightarrow> nat \<Rightarrow> nat \<Rightarrow> nat \<Rightarrow> nat \<Rightarrow> 'a list_heap_scheme \<Rightarrow>
   nat option \<times> nat \<times> nat \<times> 'a list_heap_scheme" where
  "core_list_insert_new insert_point info memblock datablock memblock_end datablock_end w =
     (if memblock + 1 \<ge> memblock_end then (None, memblock, datablock, w)
      else if datablock + 1 \<ge> datablock_end then (None, memblock, datablock, w)
      else
        let newitem = memblock;
            w = set_next newitem (lnext w insert_point) w;
            w = set_next insert_point (Some newitem) w;
            w = set_info newitem datablock w;
            w = copy_info datablock info w
        in (Some newitem, memblock + 1, datablock + 1, w))"

definition core_list_remove ::
  "nat \<Rightarrow> 'a list_heap_scheme \<Rightarrow> (nat \<times> 'a list_heap_scheme) option" where
  "core_list_remove item w =
     do {
       ret \<leftarrow> lnext w item;
       let tmp = linfo w item;
       let w = set_info item (linfo w ret) w;
       let w = set_info ret tmp w;
       let w = set_next item (lnext w ret) w;
       let w = set_next ret None w;
       Some (ret, w)
     }"

definition core_list_undo_remove ::
  "nat \<Rightarrow> nat \<Rightarrow> 'a list_heap_scheme \<Rightarrow> nat \<times> 'a list_heap_scheme" where
  "core_list_undo_remove item_removed item_modified w =
     (let tmp = linfo w item_removed;
          w = set_info item_removed (linfo w item_modified) w;
          w = set_info item_modified tmp w;
          w = set_next item_removed (lnext w item_modified) w;
          w = set_next item_modified (Some item_removed) w
      in (item_removed, w))"

text \<open>The loop of \<open>core_list_find\<close>; the outer \<open>None\<close> is a loop that never ends.\<close>

partial_function (option) core_list_search ::
  "(nat \<Rightarrow> bool) \<Rightarrow> nat option \<Rightarrow> 'a list_heap_scheme \<Rightarrow> nat option option" where
  "core_list_search found p w =
     (case p of
        None \<Rightarrow> Some None
      | Some c \<Rightarrow> if found (linfo w c) then Some (Some c) else core_list_search found (lnext w c) w)"

definition core_list_find ::
  "nat option \<Rightarrow> s16 \<times> s16 \<Rightarrow> 'a list_heap_scheme \<Rightarrow> nat option option" where
  "core_list_find p info w =
     (if 0 \<le>s snd info then core_list_search (\<lambda>d. lidx w d = snd info) p w
      else core_list_search (\<lambda>d. ldata16 w d AND 0xff = fst info) p w)"

partial_function (option) core_list_reverse_loop ::
  "nat option \<Rightarrow> nat option \<Rightarrow> 'a list_heap_scheme \<Rightarrow> (nat option \<times> 'a list_heap_scheme) option" where
  "core_list_reverse_loop p nxt w =
     (case p of
        None \<Rightarrow> Some (nxt, w)
      | Some c \<Rightarrow> core_list_reverse_loop (lnext w c) (Some c) (set_next c nxt w))"

definition core_list_reverse ::
  "nat option \<Rightarrow> 'a list_heap_scheme \<Rightarrow> (nat option \<times> 'a list_heap_scheme) option" where
  "core_list_reverse p w = core_list_reverse_loop p None w"

subsection \<open>Merge sort\<close>

type_synonym 'w list_cmp = "nat \<Rightarrow> nat \<Rightarrow> 'w \<Rightarrow> (s32 \<times> 'w) option"

text \<open>The \<open>for\<close> loop that steps \<open>insize\<close> places along from \<open>p\<close>: \<open>q\<close> and \<open>psize\<close>.\<close>

fun ms_advance :: "'a list_heap_scheme \<Rightarrow> nat \<Rightarrow> nat option \<Rightarrow> nat \<Rightarrow> (nat option \<times> nat) option" where
  "ms_advance w 0 q psize = Some (q, psize)"
| "ms_advance w (Suc i) None psize = None"
| "ms_advance w (Suc i) (Some q) psize =
     (case lnext w q of
        None \<Rightarrow> Some (None, psize + 1)
      | Some q' \<Rightarrow> ms_advance w i (Some q') (psize + 1))"

text \<open>Appending the chosen cell to the merged list; the new value of \<open>list\<close>.\<close>

definition ms_append ::
  "nat \<Rightarrow> nat option \<Rightarrow> nat option \<Rightarrow> 'a list_heap_scheme \<Rightarrow> nat option \<times> 'a list_heap_scheme" where
  "ms_append e list tail w =
     (case tail of Some t \<Rightarrow> (list, set_next t (Some e) w) | None \<Rightarrow> (Some e, w))"

text \<open>
  The choice of the next cell, from \<open>p\<close> (\<open>True\<close>) or from \<open>q\<close>, with the effects of the
  comparison.
\<close>

definition ms_choose ::
  "'a list_heap_scheme list_cmp \<Rightarrow> nat option \<Rightarrow> nat \<Rightarrow> nat option \<Rightarrow> nat \<Rightarrow> 'a list_heap_scheme \<Rightarrow>
   (bool \<times> 'a list_heap_scheme) option" where
  "ms_choose cmp p psize q qsize w =
     (if psize = 0 then Some (False, w)
      else if qsize = 0 \<or> q = None then Some (True, w)
      else do {
        pc \<leftarrow> p;
        qc \<leftarrow> q;
        (r, w) \<leftarrow> cmp (linfo w pc) (linfo w qc) w;
        Some (r \<le>s 0, w)
      })"

text \<open>The merge loop; each round takes one cell from a run, so the sizes bound it.\<close>

function ms_merge ::
  "'a list_heap_scheme list_cmp \<Rightarrow> nat option \<Rightarrow> nat \<Rightarrow> nat option \<Rightarrow> nat \<Rightarrow> nat option \<Rightarrow> nat option \<Rightarrow>
   'a list_heap_scheme \<Rightarrow> (nat option \<times> nat option \<times> nat option \<times> 'a list_heap_scheme) option" where
  "ms_merge cmp p psize q qsize list tail w =
     (if psize > 0 \<or> (qsize > 0 \<and> q \<noteq> None) then
        case ms_choose cmp p psize q qsize w of
          None \<Rightarrow> None
        | Some (from_p, w) \<Rightarrow>
            (case if from_p then p else q of
               None \<Rightarrow> None
             | Some e \<Rightarrow>
                 let nxt = lnext w e;
                     (list, w) = ms_append e list tail w
                 in if from_p then ms_merge cmp nxt (psize - 1) q qsize list (Some e) w
                    else ms_merge cmp p psize nxt (qsize - 1) list (Some e) w)
      else Some (q, list, tail, w))"
  by pat_completeness auto
termination
  by (relation "measure (\<lambda>(cmp, p, psize, q, qsize, list, tail, w). psize + qsize)")
    (auto simp: ms_choose_def split: if_splits)

declare ms_merge.simps [simp del]

text \<open>The loop \<open>while (p)\<close> of one pass; the count of merges is \<open>nmerges\<close>.\<close>

partial_function (option) ms_pass ::
  "'a list_heap_scheme list_cmp \<Rightarrow> int \<Rightarrow> nat option \<Rightarrow> nat option \<Rightarrow> nat option \<Rightarrow> nat \<Rightarrow>
   'a list_heap_scheme \<Rightarrow> (nat option \<times> nat option \<times> nat \<times> 'a list_heap_scheme) option" where
  "ms_pass cmp insize p list tail nmerges w =
     (if p = None then Some (list, tail, nmerges, w)
      else
        case ms_advance w (nat insize) p 0 of
          None \<Rightarrow> None
        | Some (q, psize) \<Rightarrow>
            (case ms_merge cmp p psize q (nat insize) list tail w of
               None \<Rightarrow> None
             | Some (q, list, tail, w) \<Rightarrow> ms_pass cmp insize q list tail (nmerges + 1) w))"

text \<open>The passes: \<open>insize\<close> doubles in 32 bits.\<close>

partial_function (option) ms_loop ::
  "'a list_heap_scheme list_cmp \<Rightarrow> int \<Rightarrow> nat option \<Rightarrow> 'a list_heap_scheme \<Rightarrow>
   (nat option \<times> 'a list_heap_scheme) option" where
  "ms_loop cmp insize list w =
     (case ms_pass cmp insize list None None 0 w of
        None \<Rightarrow> None
      | Some (list, tail, nmerges, w) \<Rightarrow>
          (case tail of
             None \<Rightarrow> None
           | Some t \<Rightarrow>
               let w = set_next t None w
               in if nmerges \<le> 1 then Some (list, w)
                  else ms_loop cmp (wrap_s32 (insize * 2)) list w))"

definition core_list_mergesort ::
  "nat option \<Rightarrow> 'a list_heap_scheme list_cmp \<Rightarrow> 'a list_heap_scheme \<Rightarrow>
   (nat option \<times> 'a list_heap_scheme) option" where
  "core_list_mergesort list cmp w = ms_loop cmp 1 list w"

subsection \<open>Initialisation\<close>

text \<open>The data of the \<open>i\<close>-th inserted item.\<close>

definition core_list_dat :: "s16 \<Rightarrow> nat \<Rightarrow> s16" where
  "core_list_dat seed i =
     (let datpat = ucast ((scast seed :: u32) XOR of_nat i) AND 0xf;
          dat = push_bit 3 datpat OR (ucast (of_nat i :: u32) AND 0x7)
      in push_bit 8 dat OR dat)"

text \<open>The insertion loop; the state is the free cell, the free item and the heap.\<close>

definition core_list_fill ::
  "nat \<Rightarrow> s16 \<Rightarrow> nat \<times> nat \<times> 'a list_heap_scheme \<Rightarrow> nat \<times> nat \<times> 'a list_heap_scheme" where
  "core_list_fill sz seed st =
     fold (\<lambda>i (mb, db, w).
       let (_, mb, db, w) = core_list_insert_new 0 (core_list_dat seed i, 0x7fff) mb db sz sz w
       in (mb, db, w)) [0..<sz] st"

text \<open>The indexing loop: the next index \<open>i\<close> is 32 bits wide.\<close>

partial_function (option) core_list_index ::
  "u32 \<Rightarrow> s16 \<Rightarrow> nat \<Rightarrow> u32 \<Rightarrow> 'a list_heap_scheme \<Rightarrow> 'a list_heap_scheme option" where
  "core_list_index sz seed finder i w =
     (case lnext w finder of
        None \<Rightarrow> Some w
      | Some nxt \<Rightarrow>
          let v = (if i < sz div 5 then ucast i
                   else let pat = ucast (i XOR scast seed) :: u16
                        in 0x3fff AND (push_bit 8 (ucast (i + 1) AND 0x07) OR pat))
          in core_list_index sz seed nxt (i + 1) (set_idx (linfo w finder) v w))"

text \<open>
  The block is cut into an array of cells and an array of items behind it, \<open>sz\<close> of each, and
  the head takes the first of both. For \<open>sz = 0\<close> (40 to 59 bytes) the first item would lie
  on the first cell, and below 40 bytes \<open>sz\<close> wraps and the arrays leave the block: these
  sizes are \<open>None\<close>, since the two arrays are not apart.
\<close>

definition core_list_init ::
  "u32 \<Rightarrow> s16 \<Rightarrow> 'a list_heap_scheme \<Rightarrow> (nat option \<times> 'a list_heap_scheme) option" where
  "core_list_init blksize seed w =
     (let per_item = 20;
          sz = blksize div per_item - 2
      in if blksize div per_item < 3 then None
      else let
          w = set_next 0 None w;
          w = set_info 0 0 w;
          w = set_idx 0 0 w;
          w = set_data16 0 0x8080 w;
          (_, mb, db, w) = core_list_insert_new 0 (0xffff, 0x7fff) 1 1 (unat sz) (unat sz) w;
          (_, _, w) = core_list_fill (unat sz) seed (mb, db, w)
      in do {
        finder \<leftarrow> lnext w 0;
        w \<leftarrow> core_list_index sz seed finder 1 w;
        core_list_mergesort (Some 0) (cmp_idx True) w
      })"

subsection \<open>The benchmark\<close>

text \<open>The state of the find loop: the list, the sought item, \<open>retval\<close>, found and missed.\<close>

record find_state =
  fs_list :: "nat option"
  fs_info :: "s16 \<times> s16"
  fs_retval :: u16
  fs_found :: u16
  fs_missed :: u16

definition find_round ::
  "nat \<Rightarrow> find_state \<times> 'a list_heap_scheme \<Rightarrow> (find_state \<times> 'a list_heap_scheme) option" where
  "find_round i = (\<lambda>(f, w).
     do {
       let info = (of_nat i AND 0xff, snd (fs_info f));
       this_find \<leftarrow> core_list_find (fs_list f) info w;
       (list, w) \<leftarrow> core_list_reverse (fs_list f) w;
       let f = f\<lparr>fs_list := list, fs_info := info\<rparr>;
       (f, w) \<leftarrow>
         (case this_find of
            None \<Rightarrow> do {
              l \<leftarrow> list;
              n \<leftarrow> lnext w l;
              Some (f\<lparr>fs_missed := fs_missed f + 1,
                      fs_retval := fs_retval f + (drop_bit 8 (ldata16 w (linfo w n)) AND 1)\<rparr>, w)
            }
          | Some c \<Rightarrow> do {
              let d = ldata16 w (linfo w c);
              let f = f\<lparr>fs_found := fs_found f + 1,
                        fs_retval := (if d AND 1 \<noteq> 0 then fs_retval f + (drop_bit 9 d AND 1)
                                      else fs_retval f)\<rparr>;
              case lnext w c of
                None \<Rightarrow> Some (f, w)
              | Some finder \<Rightarrow> do {
                  l \<leftarrow> list;
                  let w = set_next c (lnext w finder) w;
                  let w = set_next finder (lnext w l) w;
                  let w = set_next l (Some finder) w;
                  Some (f, w)
                }
            });
       Some (if 0 \<le>s snd info then f\<lparr>fs_info := (fst info, snd info + 1)\<rparr> else f, w)
     })"

fun find_rounds ::
  "nat \<Rightarrow> nat \<Rightarrow> find_state \<times> 'a list_heap_scheme \<Rightarrow> (find_state \<times> 'a list_heap_scheme) option" where
  "find_rounds 0 i s = Some s"
| "find_rounds (Suc k) i s = find_round i s \<bind> find_rounds k (i + 1)"

text \<open>The loops \<open>while (finder)\<close> that fold the head's data into the CRC.\<close>

partial_function (option) crc_walk ::
  "nat \<Rightarrow> nat option \<Rightarrow> u16 \<Rightarrow> 'a list_heap_scheme \<Rightarrow> u16 option" where
  "crc_walk l finder retval w =
     (case finder of
        None \<Rightarrow> Some retval
      | Some c \<Rightarrow> crc_walk l (lnext w c) (crc16 (ldata16 w (linfo w l)) retval) w)"

definition core_bench_list :: "s16 \<Rightarrow> core_results \<Rightarrow> (u16 \<times> core_results) option" where
  "core_bench_list finder_idx res =
     do {
       (f, res) \<leftarrow> find_rounds (nat (sint (seed3 res))) 0
         (\<lparr>fs_list = res_list res, fs_info = (0, finder_idx), fs_retval = 0, fs_found = 0,
           fs_missed = 0\<rparr>, res);
       let retval = fs_retval f + (fs_found f * 4 - fs_missed f);
       (list, res) \<leftarrow>
         (if 0 <s finder_idx then core_list_mergesort (fs_list f) cmp_complex res
          else Some (fs_list f, res));
       l \<leftarrow> list;
       item \<leftarrow> lnext res l;
       (remover, res) \<leftarrow> core_list_remove item res;
       finder \<leftarrow> core_list_find list (fs_info f) res;
       let finder = (case finder of None \<Rightarrow> lnext res l | Some c \<Rightarrow> Some c);
       retval \<leftarrow> crc_walk l finder retval res;
       item \<leftarrow> lnext res l;
       let (remover, res) = core_list_undo_remove remover item res;
       (list, res) \<leftarrow> core_list_mergesort list (cmp_idx True) res;
       l \<leftarrow> list;
       retval \<leftarrow> crc_walk l (lnext res l) retval res;
       Some (retval, res)
     }"

declare core_list_search.simps [code] core_list_reverse_loop.simps [code]
  ms_pass.simps [code] ms_loop.simps [code] core_list_index.simps [code] crc_walk.simps [code]

end
