(* ===== verification/Coremark_Sort.thy ===== *)
theory Coremark_Sort
  imports Coremark_List
begin

text \<open>
  Correctness of \<open>core_list_mergesort\<close>. The contract of a comparison function is the
  locale \<open>list_order\<close>; the sort is verified once against it, by following the links of
  the heap, and interpreted for \<open>cmp_idx\<close> and for \<open>cmp_complex\<close>.
\<close>

section \<open>Linked segments\<close>

text \<open>The cells \<open>xs\<close> are linked one to the next from \<open>p\<close>, and the last one links to \<open>r\<close>.\<close>

fun seg :: "(nat \<Rightarrow> nat option) \<Rightarrow> nat option \<Rightarrow> nat list \<Rightarrow> nat option \<Rightarrow> bool" where
  "seg n p [] r \<longleftrightarrow> p = r"
| "seg n p (x # xs) r \<longleftrightarrow> p = Some x \<and> seg n (n x) xs r"

lemma seg_append: "seg n p (xs @ ys) r \<longleftrightarrow> (\<exists>q. seg n p xs q \<and> seg n q ys r)"
  by (induction xs arbitrary: p) auto

lemma seg_cong: "(\<And>x. x \<in> set xs \<Longrightarrow> n x = n' x) \<Longrightarrow> seg n p xs r = seg n' p xs r"
  by (induction xs arbitrary: p) auto

lemma seg_upd [simp]: "x \<notin> set xs \<Longrightarrow> seg (n(x := v)) p xs r = seg n p xs r"
  by (rule seg_cong) auto

lemma seg_None_iff: "seg n p xs None \<Longrightarrow> p = None \<longleftrightarrow> xs = []"
  by (cases xs) auto

text \<open>The merged list so far: its head, its last cell, and its cells.\<close>

definition merged :: "(nat \<Rightarrow> nat option) \<Rightarrow> nat option \<Rightarrow> nat option \<Rightarrow> nat list \<Rightarrow> bool" where
  "merged n list tail out \<longleftrightarrow>
     (if out = [] then list = None \<and> tail = None
      else tail = Some (last out) \<and> seg n list (butlast out) tail)"

lemma merged_cong:
  "(\<And>x. x \<in> set out \<Longrightarrow> n x = n' x) \<Longrightarrow> merged n list tail out = merged n' list tail out"
proof -
  assume "\<And>x. x \<in> set out \<Longrightarrow> n x = n' x"
  then have "seg n list (butlast out) tail = seg n' list (butlast out) tail"
    by (intro seg_cong) (auto dest: in_set_butlastD)
  then show ?thesis by (simp add: merged_def)
qed

lemma merged_append:
  assumes "merged (lnext w) list tail out" "distinct (e # out)"
  shows "merged (lnext (snd (ms_append e list tail w))) (fst (ms_append e list tail w)) (Some e) (out @ [e])"
proof (cases "out = []")
  case True
  with assms show ?thesis by (simp add: merged_def ms_append_def)
next
  case False
  then obtain ys t where out: "out = ys @ [t]" by (meson rev_exhaust)
  with assms have "tail = Some t" "seg (lnext w) list ys (Some t)" "t \<notin> set ys"
    by (auto simp: merged_def)
  then show ?thesis
    by (auto simp: merged_def ms_append_def set_next_def out seg_append butlast_append
        intro!: exI [of _ "Some t"])
qed

lemma ms_append_next:
  "lnext (snd (ms_append e list tail w)) =
     (case tail of None \<Rightarrow> lnext w | Some t \<Rightarrow> (lnext w)(t := Some e))"
  by (simp add: ms_append_def set_next_def split: option.splits)

lemma ms_append_state:
  "snd (ms_append e list tail w) = w\<lparr>lnext := lnext (snd (ms_append e list tail w))\<rparr>"
  by (cases w) (simp add: ms_append_def set_next_def split: option.splits)

lemma merged_tail: "merged n list tail out \<Longrightarrow> tail = Some t \<Longrightarrow> t \<in> set out"
  by (auto simp: merged_def split: if_splits)

lemma append_frame:
  "merged (lnext w) list tail out \<Longrightarrow> x \<notin> set out \<Longrightarrow>
     lnext (snd (ms_append e list tail w)) x = lnext w x"
  by (auto simp: ms_append_next dest: merged_tail split: option.splits)

lemma append_seg:
  "merged (lnext w) list tail out \<Longrightarrow> set xs \<inter> set out = {} \<Longrightarrow>
     seg (lnext (snd (ms_append e list tail w))) p xs r = seg (lnext w) p xs r"
  by (rule seg_cong) (auto intro: append_frame)

lemma merged_close:
  assumes "merged (lnext w) list tail out" "distinct out" "out \<noteq> []"
  shows "seg (lnext (set_next (the tail) None w)) list out None"
proof -
  from assms obtain ys t where out: "out = ys @ [t]" by (meson rev_exhaust)
  with assms have "tail = Some t" "seg (lnext w) list ys (Some t)" "t \<notin> set ys"
    by (auto simp: merged_def)
  then show ?thesis by (auto simp: out set_next_def seg_append intro!: exI [of _ "Some t"])
qed

lemma ms_advance_spec:
  assumes "seg (lnext w) p xs None" "xs \<noteq> []" "0 < n"
  shows "\<exists>q. ms_advance w n p a = Some (q, a + min n (length xs))
    \<and> seg (lnext w) p (take n xs) q \<and> seg (lnext w) q (drop n xs) None"
  using assms
proof (induction n arbitrary: p xs a)
  case (Suc n)
  then obtain x ys where xs: "xs = x # ys" and p: "p = Some x" and ys: "seg (lnext w) (lnext w x) ys None"
    by (cases xs) auto
  show ?case
  proof (cases "lnext w x")
    case None
    with ys have "ys = []" by (cases ys) auto
    with None show ?thesis by (simp add: xs p)
  next
    case (Some y)
    with ys have ne: "ys \<noteq> []" by auto
    show ?thesis
    proof (cases "n = 0")
      case True
      with Some ys show ?thesis by (simp add: xs p)
    next
      case False
      with Suc.IH [OF ys ne, of "a + 1"] Some show ?thesis by (auto simp: xs p)
    qed
  qed
qed simp

section \<open>The contract of a comparison\<close>

text \<open>
  A comparison orders items by an integer key. It may compute the key of an item (and
  remember it) when it first meets it: \<open>key w\<close> is the map of the keys known in state
  \<open>w\<close>. What it does to the state is limited by \<open>rel\<close>: known keys stay, the links and the
  items of the cells do not change.
\<close>

locale list_order =
  fixes cmp :: "'a list_heap_scheme list_cmp"
    and inv :: "'a list_heap_scheme \<Rightarrow> bool"
    and key :: "'a list_heap_scheme \<Rightarrow> nat \<Rightarrow> int option"
    and rel :: "'a list_heap_scheme \<Rightarrow> 'a list_heap_scheme \<Rightarrow> bool"
  assumes cmp_ok: "inv w \<Longrightarrow> \<exists>r w' x y. cmp a b w = Some (r, w') \<and> rel w w' \<and> lnext w' = lnext w
      \<and> key w' a = Some x \<and> key w' b = Some y \<and> (r \<le>s 0 \<longleftrightarrow> x \<le> y)"
    and rel_trans: "rel w w' \<Longrightarrow> rel w' w'' \<Longrightarrow> rel w w''"
    and rel_next: "rel w (w\<lparr>lnext := n\<rparr>)"
    and rel_inv: "rel w w' \<Longrightarrow> inv w \<Longrightarrow> inv w'"
    and rel_info: "rel w w' \<Longrightarrow> linfo w' = linfo w"
    and rel_key: "rel w w' \<Longrightarrow> key w \<subseteq>\<^sub>m key w'"
begin

definition below :: "'a list_heap_scheme \<Rightarrow> nat \<Rightarrow> nat \<Rightarrow> bool" where
  "below w c d \<longleftrightarrow> (\<exists>x y. key w (linfo w c) = Some x \<and> key w (linfo w d) = Some y \<and> x \<le> y)"

abbreviation in_order :: "'a list_heap_scheme \<Rightarrow> nat list \<Rightarrow> bool" where
  "in_order w \<equiv> sorted_wrt (below w)"

lemma rel_refl: "rel w w"
  using rel_next [of w "lnext w"] by simp

lemma below_trans: "below w c d \<Longrightarrow> below w d e \<Longrightarrow> below w c e"
  by (auto simp: below_def)

lemma below_mono: "rel w w' \<Longrightarrow> below w c d \<Longrightarrow> below w' c d"
  by (auto simp: below_def rel_info map_le_def dest!: rel_key) (metis domI)

lemma in_order_mono: "rel w w' \<Longrightarrow> in_order w xs \<Longrightarrow> in_order w' xs"
  by (erule sorted_wrt_mono_rel [rotated]) (auto intro: below_mono)

text \<open>One choice of the merge: which run the next cell comes from, and that it is the least.\<close>

lemma ms_choose_spec:
  assumes "inv w" "seg (lnext w) p ps r" "seg (lnext w) q qs None"
    and "ps \<noteq> [] \<or> (0 < qsize \<and> qs \<noteq> [])"
  obtains from_p w' where "ms_choose cmp p (length ps) q qsize w = Some (from_p, w')"
    "rel w w'" "lnext w' = lnext w"
    "from_p \<Longrightarrow> ps \<noteq> [] \<and> (0 < qsize \<and> qs \<noteq> [] \<longrightarrow> below w' (hd ps) (hd qs))"
    "\<not> from_p \<Longrightarrow> 0 < qsize \<and> qs \<noteq> [] \<and> (ps \<noteq> [] \<longrightarrow> below w' (hd qs) (hd ps))"
proof -
  consider "ps = []" | "ps \<noteq> []" "qsize = 0 \<or> qs = []" | "ps \<noteq> []" "0 < qsize" "qs \<noteq> []" by blast
  then show ?thesis
  proof cases
    case 1
    then show ?thesis using assms(4) that [of False w] rel_refl by (simp add: ms_choose_def)
  next
    case 2
    then show ?thesis
      using assms(3) that [of True w] rel_refl seg_None_iff [OF assms(3)]
      by (auto simp: ms_choose_def)
  next
    case 3
    then obtain pc qc where hd: "p = Some pc" "hd ps = pc" "q = Some qc" "hd qs = qc"
      using assms(2,3) by (cases ps; cases qs) auto
    obtain r w' x y where c: "cmp (linfo w pc) (linfo w qc) w = Some (r, w')" "rel w w'"
      "lnext w' = lnext w" "key w' (linfo w pc) = Some x" "key w' (linfo w qc) = Some y"
      "r \<le>s 0 \<longleftrightarrow> x \<le> y"
      using cmp_ok [OF assms(1)] by blast
    have "ms_choose cmp p (length ps) q qsize w = Some (r \<le>s 0, w')"
      using 3 hd c(1) by (simp add: ms_choose_def)
    moreover have "r \<le>s 0 \<Longrightarrow> below w' pc qc" "\<not> r \<le>s 0 \<Longrightarrow> below w' qc pc"
      using c rel_info [OF c(2)] by (auto simp: below_def)
    ultimately show ?thesis using that [of "r \<le>s 0" w'] c(2,3) 3 hd by simp
  qed
qed

lemma in_order_Cons:
  assumes "in_order w (e # xs)" "in_order w ys" "ys \<noteq> [] \<Longrightarrow> below w1 e (hd ys)"
    and "rel w w1" "rel w1 w'" "in_order w' zs" "set zs = set xs \<union> set ys"
  shows "in_order w' (e # zs)"
proof -
  have "below w' e z" if "z \<in> set xs" for z
    using assms(1,4,5) that by (auto intro: below_mono rel_trans)
  moreover have "below w' e z" if "z \<in> set ys" for z
  proof (cases ys)
    case (Cons y ys')
    with assms(3) have "below w1 e y" by simp
    then have e: "below w' e y" using assms(5) by (rule below_mono [rotated])
    from that Cons consider "z = y" | "z \<in> set ys'" by auto
    then show ?thesis
    proof cases
      case 2
      with assms(2) Cons have "below w y z" by simp
      then have "below w' y z" using assms(4,5) by (blast intro: below_mono rel_trans)
      with e show ?thesis by (rule below_trans)
    qed (use e in simp)
  qed (use that in simp)
  ultimately show ?thesis using assms(6,7) by auto
qed

lemma append_rel: "rel w (snd (ms_append e list tail w))"
  by (subst ms_append_state) (rule rel_next)

text \<open>What the merge of the runs \<open>ps\<close> and \<open>take qsize qs\<close> behind \<open>out\<close> achieves.\<close>

definition merges ::
  "'a list_heap_scheme \<Rightarrow> nat option \<Rightarrow> nat list \<Rightarrow> nat option \<Rightarrow> nat list \<Rightarrow> nat \<Rightarrow> nat option \<Rightarrow>
   nat option \<Rightarrow> nat list \<Rightarrow> bool" where
  "merges w p ps q qs qsize list tail out \<longleftrightarrow>
     (\<exists>q' list' tail' w' zs. ms_merge cmp p (length ps) q qsize list tail w = Some (q', list', tail', w')
      \<and> rel w w' \<and> seg (lnext w') q' (drop qsize qs) None \<and> merged (lnext w') list' tail' (out @ zs)
      \<and> mset zs = mset (ps @ take qsize qs)
      \<and> (\<forall>x. x \<notin> set (out @ ps @ qs) \<longrightarrow> lnext w' x = lnext w x)
      \<and> (in_order w ps \<longrightarrow> in_order w (take qsize qs) \<longrightarrow> in_order w' zs))"

lemma merges_append:
  assumes "inv w" "rel w w1" "lnext w1 = lnext w" "merged (lnext w) list tail out"
    and "seg (lnext w) p ps r" "seg (lnext w) q qs None" "distinct (out @ e # ps @ qs)"
    and w2: "w2 = snd (ms_append e list tail w1)" and l2: "l2 = fst (ms_append e list tail w1)"
  shows "inv w2" "rel w1 w2" "rel w w2" "seg (lnext w2) p ps r" "seg (lnext w2) q qs None"
    "merged (lnext w2) l2 (Some e) (out @ [e])" "\<And>x. x \<notin> set out \<Longrightarrow> lnext w2 x = lnext w x"
proof -
  have m: "merged (lnext w1) list tail out" using assms(3,4) by simp
  show "rel w1 w2" unfolding w2 by (rule append_rel)
  with assms(2) show "rel w w2" by (blast intro: rel_trans)
  with assms(1) show "inv w2" by (blast intro: rel_inv)
  show "seg (lnext w2) p ps r" "seg (lnext w2) q qs None"
    unfolding w2 using assms(3,5-7) append_seg [OF m, of ps e p r] append_seg [OF m, of qs e q None]
    by (auto simp: disjoint_iff)
  show "merged (lnext w2) l2 (Some e) (out @ [e])"
    unfolding w2 l2 using assms(7) by (intro merged_append [OF m]) auto
  show "lnext w2 x = lnext w x" if "x \<notin> set out" for x
    unfolding w2 using append_frame [OF m that] assms(3) by simp
qed

lemma merges_from_p:
  assumes choice: "ms_choose cmp p (length (e # ps)) q qsize w = Some (True, w1)"
    and w1: "rel w w1" "lnext w1 = lnext w" "0 < qsize \<and> qs \<noteq> [] \<longrightarrow> below w1 e (hd qs)"
    and pre: "inv w" "seg (lnext w) p (e # ps) r" "seg (lnext w) q qs None"
      "merged (lnext w) list tail out" "distinct (out @ (e # ps) @ qs)"
    and w2: "w2 = snd (ms_append e list tail w1)" and l2: "l2 = fst (ms_append e list tail w1)"
    and IH: "merges w2 (lnext w e) ps q qs qsize l2 (Some e) (out @ [e])"
  shows "merges w p (e # ps) q qs qsize list tail out"
proof -
  have p: "p = Some e" "seg (lnext w) (lnext w e) ps r" using pre(2) by simp_all
  note ap = merges_append [OF pre(1) w1(1,2) pre(4) p(2) pre(3) _ w2 l2]
  have dist: "distinct (out @ e # ps @ qs)" using pre(5) by simp
  have step: "ms_merge cmp p (length (e # ps)) q qsize list tail w =
      ms_merge cmp (lnext w e) (length ps) q qsize l2 (Some e) w2"
    using choice p(1) w1(2)
    by (subst ms_merge.simps) (simp add: w2 l2 case_prod_unfold Let_def)
  from IH obtain q' list' tail' w' zs where IH:
    "ms_merge cmp (lnext w e) (length ps) q qsize l2 (Some e) w2 = Some (q', list', tail', w')"
    "rel w2 w'" "seg (lnext w') q' (drop qsize qs) None"
    "merged (lnext w') list' tail' ((out @ [e]) @ zs)" "mset zs = mset (ps @ take qsize qs)"
    "\<forall>x. x \<notin> set ((out @ [e]) @ ps @ qs) \<longrightarrow> lnext w' x = lnext w2 x"
    "in_order w2 ps \<longrightarrow> in_order w2 (take qsize qs) \<longrightarrow> in_order w' zs"
    unfolding merges_def by blast
  have rels: "rel w1 w'" "rel w w'" using IH(2) ap(2,3) [OF dist] rel_trans by blast+
  have "in_order w' (e # zs)" if "in_order w (e # ps)" "in_order w (take qsize qs)"
  proof (rule in_order_Cons [OF that _ w1(1) rels(1)])
    show "take qsize qs \<noteq> [] \<Longrightarrow> below w1 e (hd (take qsize qs))" using w1(3) by auto
    show "in_order w' zs" using IH(7) that ap(3) [OF dist] by (auto intro: in_order_mono)
    show "set zs = set ps \<union> set (take qsize qs)" using IH(5) by (metis set_append set_mset_mset)
  qed
  moreover have "lnext w' x = lnext w x" if "x \<notin> set (out @ (e # ps) @ qs)" for x
    using IH(6) that ap(7) [OF dist] by simp
  ultimately show ?thesis
    unfolding merges_def step using IH(1,3-5) rels(2)
    by (intro exI [of _ q'] exI [of _ list'] exI [of _ tail'] exI [of _ w'] exI [of _ "e # zs"]) auto
qed

lemma merges_from_q:
  assumes choice: "ms_choose cmp p (length ps) q (Suc qsize) w = Some (False, w1)"
    and w1: "rel w w1" "lnext w1 = lnext w" "ps \<noteq> [] \<longrightarrow> below w1 e (hd ps)"
    and pre: "inv w" "seg (lnext w) p ps r" "seg (lnext w) q (e # qs) None"
      "merged (lnext w) list tail out" "distinct (out @ ps @ e # qs)"
    and w2: "w2 = snd (ms_append e list tail w1)" and l2: "l2 = fst (ms_append e list tail w1)"
    and IH: "merges w2 p ps (lnext w e) qs qsize l2 (Some e) (out @ [e])"
  shows "merges w p ps q (e # qs) (Suc qsize) list tail out"
proof -
  have q: "q = Some e" "seg (lnext w) (lnext w e) qs None" using pre(3) by simp_all
  have dist: "distinct (out @ e # ps @ qs)" using pre(5) by auto
  note ap = merges_append [OF pre(1) w1(1,2) pre(4) pre(2) q(2) dist w2 l2]
  have step: "ms_merge cmp p (length ps) q (Suc qsize) list tail w =
      ms_merge cmp p (length ps) (lnext w e) qsize l2 (Some e) w2"
    using choice q(1) w1(2)
    by (subst ms_merge.simps) (simp add: w2 l2 case_prod_unfold Let_def)
  from IH obtain q' list' tail' w' zs where IH:
    "ms_merge cmp p (length ps) (lnext w e) qsize l2 (Some e) w2 = Some (q', list', tail', w')"
    "rel w2 w'" "seg (lnext w') q' (drop qsize qs) None"
    "merged (lnext w') list' tail' ((out @ [e]) @ zs)" "mset zs = mset (ps @ take qsize qs)"
    "\<forall>x. x \<notin> set ((out @ [e]) @ ps @ qs) \<longrightarrow> lnext w' x = lnext w2 x"
    "in_order w2 ps \<longrightarrow> in_order w2 (take qsize qs) \<longrightarrow> in_order w' zs"
    unfolding merges_def by blast
  have rels: "rel w1 w'" "rel w w'" using IH(2) ap(2,3) rel_trans by blast+
  have "in_order w' (e # zs)" if ord: "in_order w ps" "in_order w (e # take qsize qs)"
  proof (rule in_order_Cons [OF ord(2,1) _ w1(1) rels(1)])
    show "ps \<noteq> [] \<Longrightarrow> below w1 e (hd ps)" using w1(3) by auto
    show "in_order w' zs" using IH(7) ord ap(3) by (auto intro: in_order_mono)
    show "set zs = set (take qsize qs) \<union> set ps"
      using IH(5) by (metis Un_commute set_append set_mset_mset)
  qed
  moreover have "lnext w' x = lnext w x" if "x \<notin> set (out @ ps @ e # qs)" for x
    using IH(6) that ap(7) by simp
  ultimately show ?thesis
    unfolding merges_def step using IH(1,3-5) rels(2)
    by (intro exI [of _ q'] exI [of _ list'] exI [of _ tail'] exI [of _ w'] exI [of _ "e # zs"]) auto
qed

lemma ms_merge_spec:
  assumes "inv w" "seg (lnext w) p ps r" "seg (lnext w) q qs None"
    and "merged (lnext w) list tail out" "distinct (out @ ps @ qs)"
  shows "merges w p ps q qs qsize list tail out"
  using assms
proof (induction "length ps + qsize" arbitrary: p ps q qs qsize list tail w out rule: less_induct)
  case less
  show ?case
  proof (cases "ps \<noteq> [] \<or> (0 < qsize \<and> qs \<noteq> [])")
    case False
    then have "take qsize qs = []" "drop qsize qs = qs" by auto
    with False less.prems seg_None_iff [OF less.prems(3)] show ?thesis
      by (auto simp: merges_def ms_merge.simps [of cmp r 0] rel_refl intro!: exI [of _ "[]"])
  next
    case True
    obtain from_p w1 where choice: "ms_choose cmp p (length ps) q qsize w = Some (from_p, w1)"
      and w1: "rel w w1" "lnext w1 = lnext w"
      and from_p: "from_p \<Longrightarrow> ps \<noteq> [] \<and> (0 < qsize \<and> qs \<noteq> [] \<longrightarrow> below w1 (hd ps) (hd qs))"
      and from_q: "\<not> from_p \<Longrightarrow> 0 < qsize \<and> qs \<noteq> [] \<and> (ps \<noteq> [] \<longrightarrow> below w1 (hd qs) (hd ps))"
      using ms_choose_spec [OF less.prems(1-3) True] by metis
    show ?thesis
    proof (cases from_p)
      case True
      with from_p obtain e ps' where ps: "ps = e # ps'" by (cases ps) auto
      have seg': "seg (lnext w) (lnext w e) ps' r" using less.prems(2) ps by simp
      have dist: "distinct (out @ e # ps' @ qs)" using less.prems(5) ps by simp
      note ap = merges_append [OF less.prems(1) w1 less.prems(4) seg' less.prems(3) dist refl refl]
      have dist': "distinct ((out @ [e]) @ ps' @ qs)" using dist by simp
      have "length ps' + qsize < length ps + qsize" using ps by simp
      from less.hyps [OF this ap(1) ap(4) ap(5) ap(6) dist']
      show ?thesis
        using merges_from_p [OF _ w1 _ less.prems(1) _ less.prems(3,4) _ refl refl] choice True from_p
          less.prems(2,5) ps by auto
    next
      case False
      with from_q obtain e qs' n where qs: "qs = e # qs'" "qsize = Suc n"
        by (cases qs; cases qsize) auto
      have seg': "seg (lnext w) (lnext w e) qs' None" using less.prems(3) qs by simp
      have dist: "distinct (out @ e # ps @ qs')" using less.prems(5) qs by auto
      note ap = merges_append [OF less.prems(1) w1 less.prems(4,2) seg' dist refl refl]
      have dist': "distinct ((out @ [e]) @ ps @ qs')" using dist by simp
      have "length ps + n < length ps + qsize" using qs by simp
      from less.hyps [OF this ap(1) ap(4) ap(5) ap(6) dist']
      show ?thesis
        using merges_from_q [OF _ w1 _ less.prems(1,2) _ less.prems(4) _ refl refl] choice False from_q
          less.prems(3,5) qs by auto
    qed
  qed
qed

subsection \<open>Passes\<close>

text \<open>Every block of \<open>n\<close> consecutive cells is in order.\<close>

definition runs :: "'a list_heap_scheme \<Rightarrow> nat \<Rightarrow> nat list \<Rightarrow> bool" where
  "runs w n xs \<longleftrightarrow> (\<forall>k. in_order w (take n (drop (k * n) xs)))"

lemma runs_D:
  assumes "runs w n xs"
  shows "in_order w (take n xs)" "in_order w (take n (drop n xs))" "runs w n (drop (n + n) xs)"
proof -
  show "in_order w (take n xs)" using assms by (auto simp: runs_def dest: spec [of _ 0])
  show "in_order w (take n (drop n xs))" using assms by (auto simp: runs_def dest: spec [of _ 1])
  show "runs w n (drop (n + n) xs)"
    unfolding runs_def
  proof
    fix k
    have eq: "(k + 2) * n = k * n + (n + n)" by simp
    have "in_order w (take n (drop ((k + 2) * n) xs))"
      using assms unfolding runs_def by (rule spec)
    then show "in_order w (take n (drop (k * n) (drop (n + n) xs)))"
      by (simp only: eq drop_drop)
  qed
qed

lemma runs_append:
  assumes "in_order w xs" "runs w n ys" "length xs \<le> n" "ys \<noteq> [] \<Longrightarrow> length xs = n"
  shows "runs w n (xs @ ys)"
  unfolding runs_def
proof
  fix k
  show "in_order w (take n (drop (k * n) (xs @ ys)))"
  proof (cases "ys = []")
    case True
    have "drop (k * n) xs = [] \<or> k * n = 0" using assms(3) by (cases k) auto
    with True assms(1,3) show ?thesis by (cases "k * n = 0") auto
  next
    case False
    with assms(2-4) show ?thesis
      by (cases k) (use assms(1) in \<open>auto simp: runs_def\<close>)
  qed
qed

lemma runs_mono: "rel w w' \<Longrightarrow> runs w n xs \<Longrightarrow> runs w' n xs"
  by (auto simp: runs_def intro: in_order_mono)

lemma runs_single: "runs w 1 xs"
  unfolding runs_def
proof
  fix k
  show "in_order w (take 1 (drop (k * 1) xs))" by (cases "drop (k * 1) xs") simp_all
qed

definition passes ::
  "'a list_heap_scheme \<Rightarrow> nat \<Rightarrow> nat option \<Rightarrow> nat list \<Rightarrow> nat option \<Rightarrow> nat option \<Rightarrow> nat list \<Rightarrow> nat \<Rightarrow> bool" where
  "passes w n p xs list tail out k \<longleftrightarrow>
     (\<exists>list' tail' k' w' zs. ms_pass cmp (int n) p list tail k w = Some (list', tail', k', w')
      \<and> rel w w' \<and> merged (lnext w') list' tail' (out @ zs) \<and> mset zs = mset xs
      \<and> (\<forall>x. x \<notin> set (out @ xs) \<longrightarrow> lnext w' x = lnext w x)
      \<and> (runs w n xs \<longrightarrow> runs w' (n + n) zs)
      \<and> k \<le> k' \<and> (k' = k \<longleftrightarrow> xs = []) \<and> (k' \<le> k + 1 \<longleftrightarrow> length xs \<le> n + n))"

lemma ms_pass_spec:
  assumes "0 < n" "inv w" "seg (lnext w) p xs None" "merged (lnext w) list tail out" "distinct (out @ xs)"
  shows "passes w n p xs list tail out k"
  using assms(2-)
proof (induction "length xs" arbitrary: p xs list tail w out k rule: less_induct)
  case (less xs p list tail w out k)
  show ?case
  proof (cases "xs = []")
    case True
    with less.prems show ?thesis
      by (auto simp: passes_def ms_pass.simps [of cmp "int n" None] rel_refl runs_def
          intro!: exI [of _ "[]"])
  next
    case False
    obtain q where adv: "ms_advance w n p 0 = Some (q, min n (length xs))"
      and segs: "seg (lnext w) p (take n xs) q" "seg (lnext w) q (drop n xs) None"
      using ms_advance_spec [OF less.prems(2) False assms(1), of 0] by auto
    have "merges w p (take n xs) q (drop n xs) n list tail out"
      using less.prems by (intro ms_merge_spec [OF _ segs]) simp_all
    then obtain q' list' tail' w' zs where M:
      "ms_merge cmp p (min n (length xs)) q n list tail w = Some (q', list', tail', w')"
      "rel w w'" "seg (lnext w') q' (drop (n + n) xs) None" "merged (lnext w') list' tail' (out @ zs)"
      "mset zs = mset (take n xs @ take n (drop n xs))"
      "\<forall>x. x \<notin> set (out @ xs) \<longrightarrow> lnext w' x = lnext w x"
      "in_order w (take n xs) \<longrightarrow> in_order w (take n (drop n xs)) \<longrightarrow> in_order w' zs"
      unfolding merges_def by (auto simp: min.commute simp flip: set_append)
    let ?rest = "drop (n + n) xs"
    have zs: "mset zs = mset (take (n + n) xs)" using M(5) by (simp add: take_add)
    then have sz: "set zs = set (take (n + n) xs)" "length zs = length (take (n + n) xs)"
      by (metis set_mset_mset, metis size_mset)
    have split: "take (n + n) xs @ ?rest = xs" by simp
    have perm: "mset ((out @ zs) @ ?rest) = mset (out @ xs)"
      using zs split by (metis append.assoc mset_append)
    then have dist: "distinct ((out @ zs) @ ?rest)" and cells: "set ((out @ zs) @ ?rest) = set (out @ xs)"
      using less.prems(4) by (metis mset_eq_imp_distinct_iff, metis set_mset_mset)
    have "length ?rest < length xs" using False assms(1) by simp
    from less.hyps [OF this rel_inv [OF M(2) less.prems(1)] M(3,4) dist, of "k + 1"]
    obtain list2 tail2 k2 w2 zs2 where R:
      "ms_pass cmp (int n) q' list' tail' (k + 1) w' = Some (list2, tail2, k2, w2)"
      "rel w' w2" "merged (lnext w2) list2 tail2 ((out @ zs) @ zs2)" "mset zs2 = mset ?rest"
      "\<forall>x. x \<notin> set ((out @ zs) @ ?rest) \<longrightarrow> lnext w2 x = lnext w' x"
      "runs w' n ?rest \<longrightarrow> runs w2 (n + n) zs2" "k + 1 \<le> k2" "k2 = k + 1 \<longleftrightarrow> ?rest = []"
      unfolding passes_def by blast
    have step: "ms_pass cmp (int n) p list tail k w = Some (list2, tail2, k2, w2)"
      using M(1) R(1) adv False seg_None_iff [OF less.prems(2)]
      by (subst ms_pass.simps) auto
    have "runs w2 (n + n) (zs @ zs2)" if "runs w n xs"
    proof (rule runs_append)
      show "in_order w2 zs" using M(7) runs_D(1,2) [OF that] R(2) by (blast intro: in_order_mono)
      show "runs w2 (n + n) zs2" using R(6) runs_mono [OF M(2) runs_D(3) [OF that]] by blast
      show "zs2 \<noteq> [] \<Longrightarrow> length zs = n + n"
        using R(4) sz(2) by (cases "length xs \<le> n + n") auto
    qed (use sz(2) in simp)
    moreover have "mset (zs @ zs2) = mset xs" using zs R(4) split by (metis mset_append)
    moreover have "lnext w2 x = lnext w x" if "x \<notin> set (out @ xs)" for x
      using M(6) R(5) that by (metis cells)
    moreover have "rel w w2" using M(2) R(2) by (rule rel_trans)
    ultimately show ?thesis
      unfolding passes_def step using R(3,7,8) False
      by (intro exI [of _ list2] exI [of _ tail2] exI [of _ k2] exI [of _ w2] exI [of _ "zs @ zs2"]) auto
  qed
qed

subsection \<open>The sort\<close>

lemma wrap_double: "n \<le> 2 ^ 29 \<Longrightarrow> wrap_s32 (int n * 2) = int (n + n)"
  by (simp add: wrap_s32_def signed_take_bit_int_eq_self)

lemma ms_loop_spec:
  assumes "0 < n" "inv w" "seg (lnext w) p xs None" "xs \<noteq> []" "distinct xs" "runs w n xs"
    and "length xs \<le> 2 ^ 30"
  shows "\<exists>p' ys w'. ms_loop cmp (int n) p w = Some (p', w') \<and> seg (lnext w') p' ys None
    \<and> mset ys = mset xs \<and> in_order w' ys \<and> rel w w'
    \<and> (\<forall>x. x \<notin> set xs \<longrightarrow> lnext w' x = lnext w x)"
  using assms
proof (induction "length xs - n" arbitrary: n p xs w rule: less_induct)
  case less
  have "passes w n p xs None None [] 0"
    using less.prems by (intro ms_pass_spec) (simp_all add: merged_def)
  then obtain list tail k w1 zs where P:
    "ms_pass cmp (int n) p None None 0 w = Some (list, tail, k, w1)" "rel w w1"
    "merged (lnext w1) list tail zs" "mset zs = mset xs"
    "\<forall>x. x \<notin> set xs \<longrightarrow> lnext w1 x = lnext w x" "runs w1 (n + n) zs" "k \<le> 1 \<longleftrightarrow> length xs \<le> n + n"
    unfolding passes_def using less.prems(6) by auto
  have zs: "zs \<noteq> []" "distinct zs" "length zs = length xs" "set zs = set xs"
    using P(4) less.prems(4,5)
    by (auto dest: mset_eq_imp_distinct_iff mset_eq_length mset_eq_setD)
  then obtain t where t: "tail = Some t" using P(3) by (auto simp: merged_def)
  let ?w2 = "set_next t None w1"
  have seg: "seg (lnext ?w2) list zs None" using merged_close [OF P(3) zs(2,1)] t by simp
  have rel2: "rel w ?w2" using P(2) rel_next rel_trans unfolding set_next_def by blast
  have r1: "rel w1 ?w2" using rel_next unfolding set_next_def by blast
  have "t \<in> set zs" using merged_tail [OF P(3) t] .
  then have frame: "lnext ?w2 x = lnext w x" if "x \<notin> set xs" for x
    using P(5) that zs(4) by (auto simp: set_next_def)
  show ?case
  proof (cases "k \<le> 1")
    case True
    then have "take (n + n) zs = zs" using P(7) zs(3) by simp
    then have "in_order w1 zs" using runs_D(1) [OF P(6)] by simp
    then have "in_order ?w2 zs" using r1 in_order_mono by blast
    with True P seg rel2 frame t show ?thesis
      by (intro exI [of _ list] exI [of _ zs] exI [of _ ?w2]) (simp add: ms_loop.simps [of cmp "int n"])
  next
    case False
    then have long: "n + n < length xs" using P(7) by simp
    have step: "ms_loop cmp (int n) p w = ms_loop cmp (int (n + n)) list ?w2"
      using False P(1) t long less.prems(7) wrap_double [of n]
      by (simp add: ms_loop.simps [of cmp "int n"])
    have "length zs - (n + n) < length xs - n" using long zs(3) less.prems(1) by simp
    from less.hyps [OF this _ rel_inv [OF rel2 less.prems(2)] seg zs(1,2) runs_mono [OF r1 P(6)]]
    obtain p' ys w' where "ms_loop cmp (int (n + n)) list ?w2 = Some (p', w')"
      "seg (lnext w') p' ys None" "mset ys = mset zs" "in_order w' ys" "rel ?w2 w'"
      "\<forall>x. x \<notin> set zs \<longrightarrow> lnext w' x = lnext ?w2 x"
      using less.prems(1,7) zs(3) by auto
    then show ?thesis
      unfolding step using P(4) rel2 frame zs(4) rel_trans
      by (intro exI [of _ p'] exI [of _ ys] exI [of _ w']) auto
  qed
qed

theorem mergesort_sorts:
  assumes "inv w" "seg (lnext w) p xs None" "xs \<noteq> []" "distinct xs" "length xs \<le> 2 ^ 30"
  shows "\<exists>p' ys w'. core_list_mergesort p cmp w = Some (p', w') \<and> seg (lnext w') p' ys None
    \<and> mset ys = mset xs \<and> in_order w' ys \<and> rel w w'
    \<and> (\<forall>x. x \<notin> set xs \<longrightarrow> lnext w' x = lnext w x)"
  using ms_loop_spec [OF _ assms(1-4) runs_single assms(5)] by (simp add: core_list_mergesort_def)

end

section \<open>The comparison of indices\<close>

lemma diff_sle_zero: "(scast x - scast y :: s32) \<le>s 0 \<longleftrightarrow> sint x \<le> sint y" for x y :: s16
proof -
  have range: "- 32768 \<le> sint z \<and> sint z < 32768" for z :: s16
    using sint_greater_eq [of z] sint_less [of z] by simp
  have up: "sint (scast z :: s32) = sint z" for z :: s16
    by (rule sint_up_scast) (simp add: is_up)
  have "sint (scast x - scast y :: s32) = sint x - sint y"
    using range [of x] range [of y]
    by (simp add: sint_word_diff up signed_take_bit_int_eq_self)
  then show ?thesis by (simp add: word_sle_eq)
qed

lemma regen_data_idem [simp]: "regen_data (regen_data d) = regen_data d"
  by (rule bit_word_eqI) (auto simp: regen_data_def bit_simps)

definition idx_key :: "'a list_heap_scheme \<Rightarrow> nat \<Rightarrow> int option" where
  "idx_key w d = (if regen_data (ldata16 w d) = ldata16 w d then Some (sint (lidx w d)) else None)"

text \<open>The comparison by index only regenerates data: low byte from the high byte.\<close>

definition idx_rel :: "'a list_heap_scheme \<Rightarrow> 'a list_heap_scheme \<Rightarrow> bool" where
  "idx_rel w w' \<longleftrightarrow> linfo w' = linfo w \<and> lidx w' = lidx w \<and> list_heap.more w' = list_heap.more w
     \<and> (\<forall>d. ldata16 w' d = ldata16 w d \<or> ldata16 w' d = regen_data (ldata16 w d))"

interpretation by_idx: list_order "cmp_idx True" "\<lambda>_. True" idx_key idx_rel
proof
  fix w :: "'a list_heap_scheme" and a b
  obtain w' where w': "cmp_idx True a b w = Some (scast (lidx w a) - scast (lidx w b), w')"
    "lnext w' = lnext w" "idx_rel w w'" "lidx w' = lidx w"
    "regen_data (ldata16 w' a) = ldata16 w' a" "regen_data (ldata16 w' b) = ldata16 w' b"
    by (auto simp: cmp_idx_def set_data16_def idx_rel_def Let_def)
  then have "idx_key w' a = Some (sint (lidx w a))" "idx_key w' b = Some (sint (lidx w b))"
    by (simp_all add: idx_key_def)
  with w'(1-3) show "\<exists>r w' x y. cmp_idx True a b w = Some (r, w') \<and> idx_rel w w' \<and> lnext w' = lnext w
      \<and> idx_key w' a = Some x \<and> idx_key w' b = Some y \<and> (r \<le>s 0 \<longleftrightarrow> x \<le> y)"
    using diff_sle_zero by blast
next
  fix w w' w'' :: "'a list_heap_scheme"
  show "idx_rel w w' \<Longrightarrow> idx_rel w' w'' \<Longrightarrow> idx_rel w w''"
    unfolding idx_rel_def by (metis regen_data_idem)
  show "idx_rel w w' \<Longrightarrow> idx_key w \<subseteq>\<^sub>m idx_key w'"
    by (auto simp: idx_rel_def idx_key_def map_le_def dom_def split: if_splits) metis+
qed (auto simp: idx_rel_def)

section \<open>The comparison of computed values\<close>

text \<open>The cached value of an item: bit 7 says that the low seven bits hold it.\<close>

definition complex_key :: "core_results \<Rightarrow> nat \<Rightarrow> int option" where
  "complex_key res d =
     (if drop_bit 7 (ldata16 res d) AND 1 \<noteq> 0 then Some (sint (ldata16 res d AND 0x007f)) else None)"

text \<open>
  The input of the state benchmark survives the calls: it ends in two NULs, the seeds
  have the same low byte, and that byte turns no byte of the input into a comma.
\<close>

definition state_ok :: "core_results \<Rightarrow> bool" where
  "state_ok res \<longleftrightarrow> 1 < unat (res_size res) \<and> unat (res_size res) \<le> length (memblock3 res)
     \<and> memblock3 res ! (unat (res_size res) - 1) = 0 \<and> memblock3 res ! (unat (res_size res) - 2) = 0
     \<and> (ucast (seed2 res) :: u8) = ucast (seed1 res)
     \<and> (\<forall>b\<in>set (memblock3 res). b \<noteq> 0x2C \<longrightarrow> b XOR ucast (seed1 res) \<noteq> 0x2C)"

text \<open>
  A computation keeps the list's cells, the indices and the rebuild values, the inputs of
  the benchmarks, and the values already cached.
\<close>

definition complex_rel :: "core_results \<Rightarrow> core_results \<Rightarrow> bool" where
  "complex_rel r r' \<longleftrightarrow> linfo r' = linfo r \<and> lidx r' = lidx r
     \<and> (\<forall>d. ldata16 r' d AND 0xff00 = ldata16 r d AND 0xff00)
     \<and> (\<forall>d. complex_key r d \<noteq> None \<longrightarrow> ldata16 r' d = ldata16 r d)
     \<and> seed1 r' = seed1 r \<and> seed2 r' = seed2 r \<and> seed3 r' = seed3 r \<and> res_size r' = res_size r
     \<and> memblock3 r' = memblock3 r \<and> res_list r' = res_list r \<and> res_N r' = res_N r
     \<and> res_A r' = res_A r \<and> res_B r' = res_B r \<and> execs r' = execs r \<and> iterations r' = iterations r
     \<and> crclist r' = crclist r"

lemma calc_switch_ok:
  assumes "state_ok res"
  shows "\<exists>v res1. calc_switch data res = Some (v, res1) \<and> lnext res1 = lnext res
    \<and> ldata16 res1 = ldata16 res \<and> complex_rel res res1"
proof -
  let ?dtype = "(drop_bit 3 data AND 0xf) OR push_bit 4 (drop_bit 3 data AND 0xf)"
  consider "data AND 0x7 = 0" | "data AND 0x7 = 1" | "data AND 0x7 \<noteq> 0" "data AND 0x7 \<noteq> 1" by blast
  then show ?thesis
  proof cases
    case 1
    define step where "step = (if ?dtype <s 0x22 then 0x22 else ?dtype)"
    have "1 < sint step" by (auto simp: step_def word_sless_alt)
    then obtain r where r: "core_bench_state (res_size res) (memblock3 res) (seed1 res) (seed2 res)
        step (crc res) = Some (r, memblock3 res)"
      using core_bench_state_keeps [of "res_size res" "memblock3 res"] assms
      unfolding state_ok_def by blast
    have "calc_switch data res = Some (r, if crcstate res = 0 then res\<lparr>crcstate := r\<rparr> else res)"
      using 1 r unfolding calc_switch_def Let_def step_def [symmetric] by simp
    then show ?thesis by (simp add: complex_rel_def)
  next
    case 2
    define dtype where "dtype = ?dtype"
    obtain r C where "core_bench_matrix (res_N res) (res_A res) (res_B res) (res_C res) dtype (crc res)
        = (r, res_A res, C)"
      using core_bench_matrix_A by (metis prod.collapse)
    then show ?thesis
      using 2 unfolding calc_switch_def Let_def dtype_def [symmetric] by (simp add: complex_rel_def)
  next
    case 3
    then show ?thesis by (simp add: calc_switch_def complex_rel_def)
  qed
qed

lemma cached_bits:
  "drop_bit 7 ((d AND 0xff00) OR 0x0080 OR (v AND 0x7f)) AND 1 \<noteq> (0 :: s16)"
  "((d AND 0xff00) OR 0x0080 OR (v AND 0x7f)) AND 0x7f = (v AND 0x7f :: s16)"
  "((d AND 0xff00) OR 0x0080 OR (v AND 0x7f)) AND 0xff00 = (d AND 0xff00 :: s16)"
  by (simp add: drop_bit_and_1 bit_simps del: drop_bit_and drop_bit_or)
    (simp_all add: bit.conj_disj_distrib2 and.assoc)

lemma calc_func_ok:
  assumes "state_ok res"
  shows "\<exists>v res'. calc_func d res = Some (v, res') \<and> complex_rel res res' \<and> lnext res' = lnext res
    \<and> complex_key res' d = Some (sint v)"
proof (cases "drop_bit 7 (ldata16 res d) AND 1 = 0")
  case True
  let ?c = "\<lambda>v. (ldata16 res d AND 0xff00) OR 0x0080 OR (v AND 0x7f)"
  from calc_switch_ok [OF assms, of "ldata16 res d"] obtain v res1 where *:
    "calc_switch (ldata16 res d) res = Some (v, res1)"
    "lnext res1 = lnext res" "ldata16 res1 = ldata16 res" "complex_rel res res1"
    by blast
  define res2 where "res2 = set_data16 d (?c v) (res1\<lparr>crc := crcu16 v (crc res1)\<rparr>)"
  have calc: "calc_func d res = Some (v AND 0x7f, res2)"
    using True *(1) by (simp add: calc_func_def res2_def Let_def)
  have "complex_key res2 d = Some (sint (v AND 0x7f))"
    unfolding complex_key_def res2_def set_data16_def by (simp add: cached_bits)
  moreover have "complex_rel res res2"
    using *(3,4) True unfolding complex_rel_def res2_def set_data16_def
    by (auto simp: cached_bits complex_key_def)
  ultimately show ?thesis using calc *(2) by (auto simp: res2_def set_data16_def)
next
  case False
  then show ?thesis by (simp add: calc_func_def complex_key_def complex_rel_def)
qed

lemma complex_rel_ok: "complex_rel r r' \<Longrightarrow> state_ok r \<Longrightarrow> state_ok r'"
  by (simp add: complex_rel_def state_ok_def)

lemma complex_rel_key: "complex_rel r r' \<Longrightarrow> complex_key r \<subseteq>\<^sub>m complex_key r'"
  by (auto simp: complex_rel_def map_le_def complex_key_def dom_def split: if_splits)

lemma complex_rel_trans: "complex_rel r r' \<Longrightarrow> complex_rel r' r'' \<Longrightarrow> complex_rel r r''"
  by (simp add: complex_rel_def complex_key_def)

interpretation by_value: list_order cmp_complex state_ok complex_key complex_rel
proof
  fix w :: core_results and a b
  assume ok: "state_ok w"
  from calc_func_ok [OF this, of a] obtain u w1 where 1: "calc_func a w = Some (u, w1)"
    "complex_rel w w1" "lnext w1 = lnext w" "complex_key w1 a = Some (sint u)"
    by blast
  from calc_func_ok [OF complex_rel_ok [OF 1(2) ok], of b] obtain v w2 where 2:
    "calc_func b w1 = Some (v, w2)" "complex_rel w1 w2" "lnext w2 = lnext w1"
    "complex_key w2 b = Some (sint v)"
    by blast
  have "complex_key w2 a = Some (sint u)"
    using complex_rel_key [OF 2(2)] 1(4) by (auto simp: map_le_def dom_def)
  moreover have "cmp_complex a b w = Some (scast u - scast v, w2)"
    by (simp add: cmp_complex_def 1(1) 2(1))
  ultimately show "\<exists>r w' x y. cmp_complex a b w = Some (r, w') \<and> complex_rel w w' \<and> lnext w' = lnext w
      \<and> complex_key w' a = Some x \<and> complex_key w' b = Some y \<and> (r \<le>s 0 \<longleftrightarrow> x \<le> y)"
    using complex_rel_trans [OF 1(2) 2(2)] 1(3) 2(3,4) diff_sle_zero
    by (intro exI [of _ "scast u - scast v"] exI [of _ w2] exI [of _ "sint u"] exI [of _ "sint v"]) simp
next
  fix w w' w'' :: core_results
  show "complex_rel w w' \<Longrightarrow> complex_rel w' w'' \<Longrightarrow> complex_rel w w''" by (rule complex_rel_trans)
  show "complex_rel w w' \<Longrightarrow> state_ok w \<Longrightarrow> state_ok w'" by (rule complex_rel_ok)
  show "complex_rel w w' \<Longrightarrow> complex_key w \<subseteq>\<^sub>m complex_key w'" by (rule complex_rel_key)
qed (auto simp: complex_rel_def)

section \<open>The sort, for the two comparisons\<close>

lemma sorted_map_iff: "sorted (map f xs) \<longleftrightarrow> sorted_wrt (\<lambda>x y. f x \<le> f y) xs"
  by (simp add: sorted_wrt_map)

text \<open>In an ordered list of at least two cells every cell has a key.\<close>

lemma sorted_wrt_all:
  assumes "sorted_wrt P xs" "2 \<le> length xs" "c \<in> set xs" "\<And>x y. P x y \<Longrightarrow> Q x \<and> Q y"
  shows "Q c"
proof -
  from assms(3) obtain us vs where xs: "xs = us @ c # vs" by (meson split_list)
  show ?thesis
  proof (cases us)
    case Nil
    with assms(2) xs obtain v vs' where "vs = v # vs'" by (cases vs) auto
    with Nil assms(1) xs have "P c v" by simp
    then show ?thesis using assms(4) by blast
  next
    case (Cons u us')
    with assms(1) xs have "P u c" by simp
    then show ?thesis using assms(4) by blast
  qed
qed

lemma mergesort_by_idx:
  assumes "seg (lnext w) p xs None" "xs \<noteq> []" "distinct xs" "length xs \<le> 2 ^ 30"
  shows "\<exists>p' ys w'. core_list_mergesort p (cmp_idx True) w = Some (p', w') \<and> seg (lnext w') p' ys None
    \<and> mset ys = mset xs \<and> sorted (map (\<lambda>c. sint (lidx w (linfo w c))) ys)
    \<and> idx_rel w w' \<and> (2 \<le> length xs \<longrightarrow>
        (\<forall>c\<in>set xs. ldata16 w' (linfo w c) = regen_data (ldata16 w (linfo w c))))
    \<and> (\<forall>x. x \<notin> set xs \<longrightarrow> lnext w' x = lnext w x)"
proof -
  have "\<exists>p' ys w'. core_list_mergesort p (cmp_idx True) w = Some (p', w') \<and> seg (lnext w') p' ys None
      \<and> mset ys = mset xs \<and> by_idx.in_order w' ys \<and> idx_rel w w'
      \<and> (\<forall>x. x \<notin> set xs \<longrightarrow> lnext w' x = lnext w x)"
    by (rule by_idx.mergesort_sorts [OF TrueI assms])
  then obtain p' ys w' where s: "core_list_mergesort p (cmp_idx True) w = Some (p', w')"
    "seg (lnext w') p' ys None" "mset ys = mset xs" "by_idx.in_order w' ys" "idx_rel w w'"
    "\<forall>x. x \<notin> set xs \<longrightarrow> lnext w' x = lnext w x"
    by blast
  have same: "linfo w' = linfo w" "lidx w' = lidx w" using s(5) by (simp_all add: idx_rel_def)
  have le: "sint (lidx w (linfo w c)) \<le> sint (lidx w (linfo w d))" if "by_idx.below w' c d" for c d
    using that by (auto simp: by_idx.below_def idx_key_def same split: if_splits)
  have ord: "sorted (map (\<lambda>c. sint (lidx w (linfo w c))) ys)"
    unfolding sorted_map_iff using s(4) by (rule sorted_wrt_mono_rel [rotated]) (rule le)
  have regen: "ldata16 w' (linfo w c) = regen_data (ldata16 w (linfo w c))"
    if "2 \<le> length xs" "c \<in> set xs" for c
  proof -
    have "regen_data (ldata16 w' (linfo w c)) = ldata16 w' (linfo w c)"
    proof (rule sorted_wrt_all [OF s(4),
          where Q = "\<lambda>c. regen_data (ldata16 w' (linfo w c)) = ldata16 w' (linfo w c)"])
      show "2 \<le> length ys" using that(1) s(3) by (metis mset_eq_length)
      show "c \<in> set ys" using that(2) s(3) by (metis mset_eq_setD)
      show "regen_data (ldata16 w' (linfo w x)) = ldata16 w' (linfo w x)
          \<and> regen_data (ldata16 w' (linfo w y)) = ldata16 w' (linfo w y)" if "by_idx.below w' x y" for x y
        using that by (auto simp: by_idx.below_def idx_key_def same split: if_splits)
    qed
    then show ?thesis using s(5) unfolding idx_rel_def by (metis regen_data_idem)
  qed
  from s ord regen show ?thesis by blast
qed

text \<open>
  C3: \<open>core_list_mergesort\<close> with \<open>cmp_idx\<close> and a null \<open>res\<close> terminates and sorts a list of
  up to 2^30 cells in place: the result links the same cells in the order of their
  indices, the cells keep their items and the items their indices, and every item of a
  list of at least two cells has its data regenerated from the upper byte.
\<close>

theorem core_list_mergesort_by_idx:
  assumes "seg (lnext w) p xs None" "xs \<noteq> []" "distinct xs" "length xs \<le> 2 ^ 30"
  shows "\<exists>p' ys w'. core_list_mergesort p (cmp_idx True) w = Some (p', w') \<and> seg (lnext w') p' ys None
    \<and> mset ys = mset xs \<and> sorted (map (\<lambda>c. sint (lidx w' (linfo w' c))) ys)
    \<and> linfo w' = linfo w \<and> lidx w' = lidx w
    \<and> (2 \<le> length xs \<longrightarrow>
        (\<forall>c\<in>set xs. ldata16 w' (linfo w c) = regen_data (ldata16 w (linfo w c))))"
  using mergesort_by_idx [OF assms] by (auto simp: idx_rel_def)

text \<open>Three cells in descending order of their indices.\<close>

definition three_cells :: list_heap where
  "three_cells = \<lparr>lnext = (\<lambda>c. if c < 2 then Some (c + 1) else None), linfo = id,
     ldata16 = (\<lambda>_. 0x1200), lidx = (\<lambda>d. 9 - of_nat d)\<rparr>"

theorem core_list_mergesort_by_idx_witness:
  "\<exists>p' ys w'. core_list_mergesort (Some 0) (cmp_idx True) three_cells = Some (p', w')
    \<and> seg (lnext w') p' ys None \<and> mset ys = mset [0, 1, 2]
    \<and> sorted (map (\<lambda>c. sint (lidx w' (linfo w' c))) ys)"
  using core_list_mergesort_by_idx [of three_cells "Some 0" "[0, 1, 2]"]
  by (auto simp: three_cells_def)

text \<open>
  C8: with \<open>cmp_complex\<close>, where the values are computed during the sort, the result is in
  the order of the values that end up cached in the items, provided the input of the
  state benchmark survives its runs.
\<close>

theorem core_list_mergesort_by_value:
  assumes "state_ok res" "seg (lnext res) p xs None" "xs \<noteq> []" "distinct xs" "length xs \<le> 2 ^ 30"
  shows "\<exists>p' ys res'. core_list_mergesort p cmp_complex res = Some (p', res')
    \<and> seg (lnext res') p' ys None \<and> mset ys = mset xs
    \<and> sorted (map (\<lambda>c. sint (ldata16 res' (linfo res' c) AND 0x7f)) ys)
    \<and> (2 \<le> length xs \<longrightarrow> (\<forall>c\<in>set xs. drop_bit 7 (ldata16 res' (linfo res' c)) AND 1 \<noteq> 0))
    \<and> complex_rel res res'"
proof -
  obtain p' ys w' where s: "core_list_mergesort p cmp_complex res = Some (p', w')"
    "seg (lnext w') p' ys None" "mset ys = mset xs" "by_value.in_order w' ys" "complex_rel res w'"
    using by_value.mergesort_sorts [OF assms] by blast
  have "sorted (map (\<lambda>c. sint (ldata16 w' (linfo w' c) AND 0x7f)) ys)"
    unfolding sorted_map_iff using s(4)
    by (rule sorted_wrt_mono_rel [rotated])
      (auto simp: by_value.below_def complex_key_def split: if_splits)
  moreover have "drop_bit 7 (ldata16 w' (linfo w' c)) AND 1 \<noteq> 0" if "2 \<le> length xs" "c \<in> set xs" for c
  proof (rule sorted_wrt_all [OF s(4),
        where Q = "\<lambda>c. drop_bit 7 (ldata16 w' (linfo w' c)) AND 1 \<noteq> 0"])
    show "2 \<le> length ys" using that(1) s(3) by (metis mset_eq_length)
    show "c \<in> set ys" using that(2) s(3) by (metis mset_eq_setD)
    show "drop_bit 7 (ldata16 w' (linfo w' x)) AND 1 \<noteq> 0 \<and> drop_bit 7 (ldata16 w' (linfo w' y)) AND 1 \<noteq> 0"
      if "by_value.below w' x y" for x y
      using that by (auto simp: by_value.below_def complex_key_def split: if_splits)
  qed
  ultimately show ?thesis using s by blast
qed

text \<open>A small results structure: the three cells, with a state-machine input of one token.\<close>

definition small_results :: core_results where
  "small_results = list_heap.extend three_cells
     \<lparr>seed1 = 0, seed2 = 0, seed3 = 4, memblock3 = [0x35, 0x2C, 0, 0], res_size = 4,
      iterations = 1, execs = 7, res_list = Some 0, res_N = 0, res_A = (\<lambda>_. 0), res_B = (\<lambda>_. 0),
      res_C = (\<lambda>_. 0), crc = 0, crclist = 0, crcmatrix = 0, crcstate = 0, err = 0\<rparr>"

theorem core_list_mergesort_by_value_witness:
  "\<exists>p' ys res'. core_list_mergesort (Some 0) cmp_complex small_results = Some (p', res')
    \<and> seg (lnext res') p' ys None \<and> mset ys = mset [0, 1, 2]
    \<and> sorted (map (\<lambda>c. sint (ldata16 res' (linfo res' c) AND 0x7f)) ys)"
  using core_list_mergesort_by_value [of small_results "Some 0" "[0, 1, 2]"]
  by (auto simp: small_results_def three_cells_def list_heap.defs state_ok_def)

end
