(* ===== verification/Coremark_Bench.thy ===== *)
theory Coremark_Bench
  imports Coremark_Sort
begin

text \<open>
  Correctness of the list operations of \<open>core_list_join.c\<close> against lists of cells, and of
  the benchmark built from them: it terminates and leaves the list, the data of its items
  and the inputs of the other benchmarks as it found them.
\<close>

section \<open>List operations\<close>

text \<open>The states differ in the links only.\<close>

definition relinked :: "'a list_heap_scheme \<Rightarrow> 'a list_heap_scheme \<Rightarrow> bool" where
  "relinked w w' \<longleftrightarrow> w' = w\<lparr>lnext := lnext w'\<rparr>"

lemma relinked_refl [simp]: "relinked w w"
  by (simp add: relinked_def)

lemma relinked_set_next [simp]: "relinked w (set_next c p w') \<longleftrightarrow> relinked w w'"
proof -
  have "w'\<lparr>lnext := f\<rparr> = w\<lparr>lnext := f\<rparr> \<longleftrightarrow> w' = w\<lparr>lnext := lnext w'\<rparr>" for f
    by (cases w; cases w') auto
  then show ?thesis by (simp add: relinked_def set_next_def)
qed

lemma relinked_trans: "relinked w w' \<Longrightarrow> relinked w' w'' \<Longrightarrow> relinked w w''"
  unfolding relinked_def by (cases w; cases w'; cases w'') auto

lemma relinked_fields:
  assumes "relinked w w'"
  shows "linfo w' = linfo w" "ldata16 w' = ldata16 w" "lidx w' = lidx w" "list_heap.more w' = list_heap.more w"
  using assms unfolding relinked_def by (metis list_heap.select_convs list_heap.simps list_heap.surjective list_heap.update_convs(1))+

lemma search_spec:
  "seg (lnext w) p xs None \<Longrightarrow> core_list_search found p w = Some (List.find (\<lambda>c. found (linfo w c)) xs)"
  by (induction xs arbitrary: p) (auto simp: core_list_search.simps [of found _ w])

text \<open>What \<open>core_list_find\<close> looks for in a cell.\<close>

definition sought :: "'a list_heap_scheme \<Rightarrow> s16 \<times> s16 \<Rightarrow> nat \<Rightarrow> bool" where
  "sought w info c \<longleftrightarrow>
     (if 0 \<le> sint (snd info) then lidx w (linfo w c) = snd info
      else ldata16 w (linfo w c) AND 0xff = fst info)"

lemma find_spec:
  "seg (lnext w) p xs None \<Longrightarrow> core_list_find p info w = Some (List.find (sought w info) xs)"
  by (simp add: core_list_find_def search_spec word_sle_eq sought_def [abs_def])

lemma reverse_loop_spec:
  assumes "seg (lnext w) p xs None" "seg (lnext w) nxt ys None" "distinct (xs @ ys)"
  shows "\<exists>p' w'. core_list_reverse_loop p nxt w = Some (p', w') \<and> seg (lnext w') p' (rev xs @ ys) None
    \<and> relinked w w' \<and> (\<forall>x. x \<notin> set xs \<longrightarrow> lnext w' x = lnext w x)"
  using assms
proof (induction xs arbitrary: p nxt ys w)
  case Nil
  then show ?case by (simp add: core_list_reverse_loop.simps)
next
  case (Cons c xs)
  let ?w = "set_next c nxt w"
  have p: "p = Some c" "seg (lnext w) (lnext w c) xs None" using Cons.prems(1) by simp_all
  have "seg (lnext ?w) (lnext w c) xs None" "seg (lnext ?w) (Some c) (c # ys) None"
    using p Cons.prems by (simp_all add: set_next_def)
  from Cons.IH [OF this] Cons.prems(3) obtain p' w' where
    "core_list_reverse_loop (lnext w c) (Some c) ?w = Some (p', w')"
    "seg (lnext w') p' (rev xs @ c # ys) None" "relinked ?w w'" "\<forall>x. x \<notin> set xs \<longrightarrow> lnext w' x = lnext ?w x"
    by auto
  moreover have "relinked w w'" using \<open>relinked ?w w'\<close> relinked_trans relinked_set_next relinked_refl by blast
  ultimately show ?case
    by (simp add: core_list_reverse_loop.simps [of "Some c"] p(1)) (auto simp: set_next_def)
qed

lemma reverse_spec:
  assumes "seg (lnext w) p xs None" "distinct xs"
  shows "\<exists>p' w'. core_list_reverse p w = Some (p', w') \<and> seg (lnext w') p' (rev xs) None
    \<and> relinked w w' \<and> (\<forall>x. x \<notin> set xs \<longrightarrow> lnext w' x = lnext w x)"
  using reverse_loop_spec [OF assms(1), of None "[]"] assms(2) by (simp add: core_list_reverse_def)

lemma remove_undo:
  assumes "lnext w item = Some ret" "ret \<noteq> item"
  shows "\<exists>w'. core_list_remove item w = Some (ret, w') \<and> core_list_undo_remove ret item w' = (ret, w)
    \<and> lnext w' = (lnext w)(item := lnext w ret, ret := None)
    \<and> linfo w' = (linfo w)(item := linfo w ret, ret := linfo w item)
    \<and> ldata16 w' = ldata16 w \<and> lidx w' = lidx w"
  using assms
  by (cases w) (auto simp: core_list_remove_def core_list_undo_remove_def set_next_def set_info_def Let_def
      fun_upd_twist fun_upd_idem_iff)

text \<open>
  C25: \<open>core_list_reverse\<close> terminates on every list and links its cells in the reverse
  order, changing nothing but their links; \<open>core_list_find\<close> then returns the last of the
  sought cells of the original list, where on the original list it returns the first.
  A cell is sought by its index when the index asked for is not negative, so also for an
  index of 0, for which the comment of the function announces the search by data.
\<close>

theorem core_list_reverse_find:
  assumes "seg (lnext w) p xs None" "distinct xs"
  shows "\<exists>p' w'. core_list_reverse p w = Some (p', w') \<and> seg (lnext w') p' (rev xs) None
    \<and> w' = w\<lparr>lnext := lnext w'\<rparr> \<and> (\<forall>x. x \<notin> set xs \<longrightarrow> lnext w' x = lnext w x)
    \<and> core_list_find p info w = Some (List.find (sought w info) xs)
    \<and> core_list_find p' info w' = Some (List.find (sought w info) (rev xs))"
proof -
  from reverse_spec [OF assms] obtain p' w' where r: "core_list_reverse p w = Some (p', w')"
    "seg (lnext w') p' (rev xs) None" "relinked w w'" "\<forall>x. x \<notin> set xs \<longrightarrow> lnext w' x = lnext w x"
    by blast
  have "sought w' info = sought w info"
    by (rule ext) (simp add: sought_def relinked_fields [OF r(3)])
  with find_spec [OF r(2), of info] find_spec [OF assms(1), of info] r show ?thesis
    by (auto simp: relinked_def)
qed

theorem core_list_reverse_find_witness:
  "\<exists>p' w'. core_list_reverse (Some 0) three_cells = Some (p', w') \<and> seg (lnext w') p' [2, 1, 0] None
    \<and> core_list_find p' (0, 8) w' = Some (List.find (sought three_cells (0, 8)) [2, 1, 0])"
  using core_list_reverse_find [of three_cells "Some 0" "[0, 1, 2]" "(0, 8)"]
  by (auto simp: three_cells_def)

text \<open>
  C27: \<open>core_list_undo_remove\<close> undoes \<open>core_list_remove\<close>: applied to the removed cell and
  the modified one, it restores the whole state.
\<close>

theorem core_list_undo_remove_inverts:
  assumes "lnext w item = Some ret" "ret \<noteq> item"
  shows "\<exists>w'. core_list_remove item w = Some (ret, w') \<and> core_list_undo_remove ret item w' = (ret, w)"
  using remove_undo [OF assms] by blast

theorem core_list_undo_remove_inverts_witness:
  "\<exists>w'. core_list_remove 0 three_cells = Some (1, w') \<and> core_list_undo_remove 1 0 w' = (1, three_cells)"
  using core_list_undo_remove_inverts [of three_cells 0 1] by (simp add: three_cells_def)

section \<open>The find loop\<close>

text \<open>Moving the cell behind \<open>c\<close> to the second place of the list.\<close>

lemma move_behind_head:
  assumes "seg (lnext w) (Some l) xs None" "distinct xs" "c \<in> set xs" "lnext w c = Some f"
  defines "w1 \<equiv> set_next c (lnext w f) w"
  defines "w2 \<equiv> set_next f (lnext w1 l) w1"
  defines "w3 \<equiv> set_next l (Some f) w2"
  shows "\<exists>ys. seg (lnext w3) (Some l) ys None \<and> mset ys = mset xs"
proof -
  from assms(3) obtain us vs where xs: "xs = us @ c # vs" by (meson split_list)
  have "seg (lnext w) (lnext w c) vs None" using assms(1) xs by (auto simp: seg_append)
  with assms(4) obtain bs where vs: "vs = f # bs" and bs: "seg (lnext w) (lnext w f) bs None"
    by (cases vs) auto
  show ?thesis
  proof (cases us)
    case Nil
    with assms(1,2) xs vs bs have "l = c" "c \<noteq> f" "c \<notin> set bs" "f \<notin> set bs" by auto
    with bs have "seg (lnext w3) (Some l) (c # f # bs) None"
      unfolding w3_def w2_def w1_def set_next_def by simp
    with xs vs Nil show ?thesis by (intro exI [of _ "c # f # bs"]) auto
  next
    case (Cons l' as)
    with assms(1) xs have l: "l' = l" by simp
    have dist: "distinct (l # as @ c # f # bs)" using assms(2) xs vs Cons l by simp
    have as: "seg (lnext w) (lnext w l) as (Some c)"
      using assms(1) xs Cons l by (auto simp: seg_append)
    have "lnext w1 l = lnext w l" using dist unfolding w1_def set_next_def by auto
    then have n3: "lnext w3 = (lnext w)(c := lnext w f, f := lnext w l, l := Some f)"
      unfolding w3_def w2_def w1_def set_next_def by simp
    have "seg (lnext w3) (Some l) (l # f # as @ c # bs) None"
      using as bs dist unfolding n3 by (auto simp: seg_append intro!: exI [of _ "Some c"])
    then show ?thesis using xs vs Cons l by (intro exI [of _ "l # f # as @ c # bs"]) auto
  qed
qed

lemma find_round_spec:
  assumes "seg (lnext w) (fs_list f) xs None" "distinct xs" "2 \<le> length xs"
  shows "\<exists>f' w' ys. find_round i (f, w) = Some (f', w') \<and> seg (lnext w') (fs_list f') ys None
    \<and> mset ys = mset xs \<and> relinked w w'"
proof -
  let ?info = "(of_nat i AND 0xff, snd (fs_info f))"
  from reverse_spec [OF assms(1,2)] obtain p w1 where rev: "core_list_reverse (fs_list f) w = Some (p, w1)"
    "seg (lnext w1) p (rev xs) None" "relinked w w1"
    by blast
  obtain l n bs where r: "rev xs = l # n # bs" using assms(3)
    by (cases "rev xs"; cases "tl (rev xs)") (auto simp: Suc_le_eq dest: arg_cong [of _ _ length])
  with rev(2) have p: "p = Some l" "lnext w1 l = Some n" by auto
  have find: "core_list_find (fs_list f) ?info w = Some (List.find (sought w ?info) xs)"
    by (rule find_spec [OF assms(1)])
  show ?thesis
  proof (cases "List.find (sought w ?info) xs")
    case None
    then show ?thesis
      using rev p find by (auto simp: find_round_def Let_def intro!: exI [of _ "rev xs"])
  next
    case (Some c)
    then have c: "c \<in> set (rev xs)" by (auto simp: find_Some_iff)
    show ?thesis
    proof (cases "lnext w1 c")
      case None
      with Some show ?thesis
        using rev p find by (auto simp: find_round_def Let_def intro!: exI [of _ "rev xs"])
    next
      case (Some m)
      have "distinct (rev xs)" using assms(2) by simp
      from move_behind_head [OF rev(2) [unfolded p(1)] this c Some] obtain ys where
        "seg (lnext (set_next l (Some m) (set_next m (lnext (set_next c (lnext w1 m) w1) l)
            (set_next c (lnext w1 m) w1)))) (Some l) ys None" "mset ys = mset xs"
        by auto
      with Some \<open>List.find (sought w ?info) xs = Some c\<close> show ?thesis
        using rev p find by (auto simp: find_round_def Let_def intro!: exI [of _ ys])
    qed
  qed
qed

lemma find_rounds_spec:
  assumes "seg (lnext w) (fs_list f) xs None" "distinct xs" "2 \<le> length xs"
  shows "\<exists>f' w' ys. find_rounds k i (f, w) = Some (f', w') \<and> seg (lnext w') (fs_list f') ys None
    \<and> mset ys = mset xs \<and> relinked w w'"
  using assms
proof (induction k arbitrary: i f w xs)
  case 0
  then show ?case by auto
next
  case (Suc k)
  from find_round_spec [OF Suc.prems] obtain f' w' ys where 1: "find_round i (f, w) = Some (f', w')"
    "seg (lnext w') (fs_list f') ys None" "mset ys = mset xs" "relinked w w'"
    by blast
  have "distinct ys" "2 \<le> length ys"
    using 1(3) Suc.prems(2,3) by (metis mset_eq_imp_distinct_iff, metis mset_eq_length)
  from Suc.IH [OF 1(2) this, of "i + 1"] 1 show ?case
    by (auto intro: relinked_trans)
qed

section \<open>The benchmark\<close>

lemma crc_walk_returns:
  "seg (lnext w) p xs None \<Longrightarrow> \<exists>r. crc_walk l p v w = Some r"
  by (induction xs arbitrary: p v) (auto simp: crc_walk.simps [of l])

text \<open>
  A list as the benchmark wants it: in strictly ascending order of the indices, with
  every item's data in the regenerated form, of at least three cells (head, tail and one
  more).
\<close>

definition list_ok :: "core_results \<Rightarrow> nat list \<Rightarrow> bool" where
  "list_ok res xs \<longleftrightarrow> seg (lnext res) (res_list res) xs None \<and> distinct xs
     \<and> 3 \<le> length xs \<and> length xs \<le> 2 ^ 30
     \<and> sorted_wrt (<) (map (\<lambda>c. sint (lidx res (linfo res c))) xs)
     \<and> (\<forall>c\<in>set xs. regen_data (ldata16 res (linfo res c)) = ldata16 res (linfo res c))"

text \<open>What a run of the benchmark keeps.\<close>

definition bench_keeps :: "core_results \<Rightarrow> core_results \<Rightarrow> bool" where
  "bench_keeps r r' \<longleftrightarrow> linfo r' = linfo r \<and> lidx r' = lidx r
     \<and> (\<forall>d. ldata16 r' d AND 0xff00 = ldata16 r d AND 0xff00)
     \<and> seed1 r' = seed1 r \<and> seed2 r' = seed2 r \<and> seed3 r' = seed3 r \<and> res_size r' = res_size r
     \<and> memblock3 r' = memblock3 r \<and> res_list r' = res_list r \<and> res_N r' = res_N r
     \<and> res_A r' = res_A r \<and> res_B r' = res_B r \<and> execs r' = execs r \<and> iterations r' = iterations r
     \<and> crclist r' = crclist r"

lemma bench_keeps_refl: "bench_keeps r r"
  by (simp add: bench_keeps_def)

lemma bench_keeps_trans: "bench_keeps r r' \<Longrightarrow> bench_keeps r' r'' \<Longrightarrow> bench_keeps r r''"
  by (simp add: bench_keeps_def)

lemma relinked_keeps: "relinked r r' \<Longrightarrow> bench_keeps r r'"
  unfolding relinked_def bench_keeps_def by (cases r; cases r') auto

lemma complex_rel_keeps: "complex_rel r r' \<Longrightarrow> bench_keeps r r'"
  by (simp add: complex_rel_def bench_keeps_def)

lemma regen_data_upper: "regen_data d AND 0xff00 = d AND 0xff00"
  by (simp add: regen_data_def bit.conj_disj_distrib2 and.assoc and.commute [of "0xff" "drop_bit 8 d"])

lemma regen_data_cong: "d AND 0xff00 = e AND 0xff00 \<Longrightarrow> regen_data d = regen_data e"
proof -
  assume eq: "d AND 0xff00 = e AND 0xff00"
  have upper: "drop_bit 8 x = drop_bit 8 (x AND 0xff00)" for x :: s16
    by (simp add: word_bits)
  show ?thesis unfolding regen_data_def by (subst (1 2) upper) (simp only: eq)
qed

lemma idx_rel_keeps: "idx_rel r r' \<Longrightarrow> bench_keeps r r'" for r r' :: core_results
proof -
  assume rel: "idx_rel r r'"
  then have "ldata16 r' d AND 0xff00 = ldata16 r d AND 0xff00" for d
    using regen_data_upper unfolding idx_rel_def by metis
  with rel show ?thesis unfolding idx_rel_def bench_keeps_def by (cases r; cases r') auto
qed

lemma sorted_perm_unique:
  fixes f :: "'a \<Rightarrow> 'b::linorder"
  assumes "sorted (map f ys)" "mset ys = mset xs" "sorted_wrt (<) (map f xs)"
  shows "ys = xs"
proof -
  have "mset (map f ys) = mset (map f xs)" using assms(2) by (metis mset_map)
  then have "map f ys = map f xs"
    using assms(1,3) by (metis properties_for_sort sorted_sort_id strict_sorted_imp_sorted)
  moreover have "inj_on f (set ys \<union> set xs)"
    using assms(2,3) strict_sorted_iff [of "map f xs"] by (metis Un_absorb distinct_map mset_eq_setD)
  ultimately show ?thesis by (simp add: inj_on_map_eq_map)
qed

lemma seg_from_cell: "seg n p xs None \<Longrightarrow> c \<in> set xs \<Longrightarrow> \<exists>ys. seg n (Some c) ys None"
  by (induction xs arbitrary: p) (auto, metis seg.simps(2))

lemma remove_phase:
  assumes "seg (lnext w) (Some l) (l # item # ret # rest) None" "distinct (l # item # ret # rest)"
  shows "\<exists>w' fo r. core_list_remove item w = Some (ret, w') \<and> lnext w l = Some item \<and> lnext w' l = Some item
    \<and> core_list_find (Some l) info w' = Some fo
    \<and> crc_walk l (case fo of None \<Rightarrow> lnext w' l | Some c \<Rightarrow> Some c) v w' = Some r
    \<and> core_list_undo_remove ret item w' = (ret, w)"
proof -
  have n: "lnext w l = Some item" "lnext w item = Some ret" "seg (lnext w) (lnext w ret) rest None"
    using assms(1) by auto
  from remove_undo [OF n(2)] assms(2) obtain w' where w': "core_list_remove item w = Some (ret, w')"
    "core_list_undo_remove ret item w' = (ret, w)"
    "lnext w' = (lnext w)(item := lnext w ret, ret := None)"
    by auto
  have seg: "seg (lnext w') (Some l) (l # item # rest) None"
    using n assms(2) by (auto simp: w'(3))
  have find: "core_list_find (Some l) info w' = Some (List.find (sought w' info) (l # item # rest))"
    by (rule find_spec [OF seg])
  have "\<exists>ys. seg (lnext w') (case List.find (sought w' info) (l # item # rest) of
      None \<Rightarrow> lnext w' l | Some c \<Rightarrow> Some c) ys None"
  proof (cases "List.find (sought w' info) (l # item # rest)")
    case None
    with seg show ?thesis by (intro exI [of _ "item # rest"]) simp
  next
    case (Some c)
    then have "c \<in> set (l # item # rest)" unfolding find_Some_iff by (metis nth_mem)
    with Some seg_from_cell [OF seg] show ?thesis by simp
  qed
  then obtain ys where "seg (lnext w') (case List.find (sought w' info) (l # item # rest) of
      None \<Rightarrow> lnext w' l | Some c \<Rightarrow> Some c) ys None" by blast
  from crc_walk_returns [OF this, of l v] w'(1,2) n(1) find show ?thesis
    using assms(2) by (auto simp: w'(3))
qed

text \<open>The sort by value, if the benchmark does it.\<close>

lemma value_phase:
  assumes "state_ok w" "seg (lnext w) p ys None" "ys \<noteq> []" "distinct ys" "length ys \<le> 2 ^ 30"
  shows "\<exists>p' w' zs. (if b then core_list_mergesort p cmp_complex w else Some (p, w)) = Some (p', w')
    \<and> seg (lnext w') p' zs None \<and> mset zs = mset ys \<and> bench_keeps w w' \<and> state_ok w'"
proof (cases b)
  case True
  from by_value.mergesort_sorts [OF assms] obtain p' zs w' where
    "core_list_mergesort p cmp_complex w = Some (p', w')" "seg (lnext w') p' zs None" "mset zs = mset ys"
    "complex_rel w w'"
    by blast
  with True assms(1) show ?thesis by (auto intro: complex_rel_keeps complex_rel_ok)
next
  case False
  with assms show ?thesis by (auto intro: bench_keeps_refl)
qed

text \<open>The sort by index puts every permutation of the list back into the original order.\<close>

lemma index_phase:
  assumes "list_ok r xs" "bench_keeps r w" "seg (lnext w) p zs None" "mset zs = mset xs"
  shows "\<exists>p' w'. core_list_mergesort p (cmp_idx True) w = Some (p', w') \<and> bench_keeps r w'
    \<and> seg (lnext w') p' xs None \<and> (\<forall>c\<in>set xs. ldata16 w' (linfo r c) = ldata16 r (linfo r c))"
proof -
  have xs: "distinct xs" "3 \<le> length xs" "length xs \<le> 2 ^ 30" using assms(1) by (simp_all add: list_ok_def)
  have zs: "distinct zs" "length zs = length xs" "set zs = set xs"
    using assms(4) xs(1) by (metis mset_eq_imp_distinct_iff, metis mset_eq_length, metis mset_eq_setD)
  have "zs \<noteq> []" "length zs \<le> 2 ^ 30" using zs(2) xs by auto
  from mergesort_by_idx [OF assms(3) this(1) zs(1) this(2)] obtain p' ys w' where s:
    "core_list_mergesort p (cmp_idx True) w = Some (p', w')" "seg (lnext w') p' ys None" "mset ys = mset zs"
    "sorted (map (\<lambda>c. sint (lidx w (linfo w c))) ys)" "idx_rel w w'"
    "\<forall>c\<in>set zs. ldata16 w' (linfo w c) = regen_data (ldata16 w (linfo w c))"
    using zs(2) xs(2) by auto
  have same: "linfo w = linfo r" "lidx w = lidx r" using assms(2) by (simp_all add: bench_keeps_def)
  have "ys = xs"
    using sorted_perm_unique [of _ ys xs] s(3,4) assms(1,4) unfolding same list_ok_def by metis
  moreover have "ldata16 w' (linfo r c) = ldata16 r (linfo r c)" if "c \<in> set xs" for c
  proof -
    have "ldata16 w' (linfo r c) = regen_data (ldata16 w (linfo r c))" using s(6) that zs(3) same by simp
    also have "\<dots> = regen_data (ldata16 r (linfo r c))"
      using assms(2) by (intro regen_data_cong) (simp add: bench_keeps_def)
    finally show ?thesis using assms(1) that by (simp add: list_ok_def)
  qed
  moreover have "bench_keeps r w'" using assms(2) idx_rel_keeps [OF s(5)] by (rule bench_keeps_trans)
  ultimately show ?thesis using s(1,2) by blast
qed

lemma bench_list_restores:
  assumes "list_ok r xs" "state_ok r"
  shows "\<exists>v r'. core_bench_list finder_idx r = Some (v, r') \<and> bench_keeps r r'
    \<and> seg (lnext r') (res_list r') xs None \<and> (\<forall>c\<in>set xs. ldata16 r' (linfo r c) = ldata16 r (linfo r c))"
proof -
  have xs: "seg (lnext r) (res_list r) xs None" "distinct xs" "3 \<le> length xs" "length xs \<le> 2 ^ 30"
    using assms(1) by (simp_all add: list_ok_def)
  let ?f = "\<lparr>fs_list = res_list r, fs_info = (0, finder_idx), fs_retval = 0, fs_found = 0, fs_missed = 0\<rparr>"
  obtain f r1 ys where 1: "find_rounds (nat (sint (seed3 r))) 0 (?f, r) = Some (f, r1)"
    "seg (lnext r1) (fs_list f) ys None" "mset ys = mset xs" "relinked r r1"
    using find_rounds_spec [of r ?f xs "nat (sint (seed3 r))" 0] xs by auto
  have ys: "distinct ys" "length ys = length xs" "ys \<noteq> []"
    using 1(3) xs(2,3) by (metis mset_eq_imp_distinct_iff, metis mset_eq_length, auto)
  have k1: "bench_keeps r r1" using 1(4) by (rule relinked_keeps)
  have ok1: "state_ok r1" using assms(2) k1 by (simp add: state_ok_def bench_keeps_def)
  obtain p r2 zs where 2: "(if 0 <s finder_idx then core_list_mergesort (fs_list f) cmp_complex r1
        else Some (fs_list f, r1)) = Some (p, r2)"
    "seg (lnext r2) p zs None" "mset zs = mset ys" "bench_keeps r1 r2"
    using value_phase [OF ok1 1(2) ys(3,1)] ys(2) xs(4) by (metis (no_types, lifting))
  have zs: "mset zs = mset xs" "length zs = length xs" "distinct zs"
    using 1(3) 2(3) xs(2) by (simp, metis mset_eq_length, metis mset_eq_imp_distinct_iff)
  then obtain l item ret rest where z: "zs = l # item # ret # rest"
    using xs(3) by (metis One_nat_def Suc_1 Suc_le_length_iff numeral_3_eq_3)
  then have p: "p = Some l" using 2(2) by simp
  obtain w' fo v where 3: "core_list_remove item r2 = Some (ret, w')" "lnext r2 l = Some item" "lnext w' l = Some item"
    "core_list_find (Some l) (fs_info f) w' = Some fo"
    "crc_walk l (case fo of None \<Rightarrow> lnext w' l | Some c \<Rightarrow> Some c)
       (fs_retval f + (fs_found f * 4 - fs_missed f)) w' = Some v"
    "core_list_undo_remove ret item w' = (ret, r2)"
    using remove_phase [of r2 l item ret rest "fs_info f"] 2(2) zs(3) unfolding z p by blast
  obtain p' r3 where 4: "core_list_mergesort p (cmp_idx True) r2 = Some (p', r3)" "bench_keeps r r3"
    "seg (lnext r3) p' xs None" "\<forall>c\<in>set xs. ldata16 r3 (linfo r c) = ldata16 r (linfo r c)"
    using index_phase [OF assms(1) bench_keeps_trans [OF k1 2(4)] 2(2) zs(1)] by blast
  obtain h t where xh: "xs = h # t" using xs(3) by (cases xs) auto
  then have p': "p' = Some h" "res_list r = Some h" "seg (lnext r3) (lnext r3 h) t None"
    using 4(3) xs(1) by simp_all
  obtain v' where 5: "crc_walk h (lnext r3 h) v r3 = Some v'" using crc_walk_returns [OF p'(3)] by blast
  have "core_bench_list finder_idx r = Some (v', r3)"
    using 1(1) 2(1) 3 4(1) 5 unfolding core_bench_list_def p p' by (simp add: Let_def)
  moreover have "res_list r3 = res_list r" using 4(2) by (simp add: bench_keeps_def)
  ultimately show ?thesis using 4(2-4) p' by simp
qed

lemma bench_list_ok:
  assumes "list_ok r xs" "bench_keeps r r'" "seg (lnext r') (res_list r') xs None"
    and "\<forall>c\<in>set xs. ldata16 r' (linfo r c) = ldata16 r (linfo r c)"
  shows "list_ok r' xs"
  using assms by (simp add: list_ok_def bench_keeps_def)

lemma bench_state_ok: "state_ok r \<Longrightarrow> bench_keeps r r' \<Longrightarrow> state_ok r'"
  by (simp add: state_ok_def bench_keeps_def)

text \<open>
  C1: \<open>core_bench_list\<close> terminates without dereferencing a null pointer and leaves the
  list in its original state: the same cells in the same order, with the same items,
  indices and data, whatever it found, cached, sorted and removed in between. It also
  leaves the input of the state benchmark and the matrices \<open>A\<close> and \<open>B\<close> unchanged, so
  that it can be run again.
\<close>

theorem core_bench_list_restores:
  assumes "list_ok r xs" "state_ok r"
  shows "\<exists>v r'. core_bench_list finder_idx r = Some (v, r') \<and> list_ok r' xs \<and> state_ok r'
    \<and> linfo r' = linfo r \<and> lidx r' = lidx r
    \<and> (\<forall>c\<in>set xs. ldata16 r' (linfo r c) = ldata16 r (linfo r c))
    \<and> memblock3 r' = memblock3 r \<and> res_A r' = res_A r \<and> res_B r' = res_B r"
proof -
  from bench_list_restores [OF assms] obtain v r' where r':
    "core_bench_list finder_idx r = Some (v, r')" "bench_keeps r r'"
    "seg (lnext r') (res_list r') xs None" "\<forall>c\<in>set xs. ldata16 r' (linfo r c) = ldata16 r (linfo r c)"
    by blast
  with bench_list_ok [OF assms(1) r'(2-4)] bench_state_ok [OF assms(2) r'(2)] show ?thesis
    by (auto simp: bench_keeps_def)
qed

text \<open>The small results structure with the indices in ascending order.\<close>

definition bench_results :: core_results where
  "bench_results = small_results\<lparr>lidx := (\<lambda>d. of_nat d), ldata16 := (\<lambda>_. 0x1212)\<rparr>"

lemma bench_results_ok: "list_ok bench_results [0, 1, 2]" "state_ok bench_results"
  by (simp_all add: bench_results_def list_ok_def state_ok_def small_results_def three_cells_def
      list_heap.defs regen_data_def)

theorem core_bench_list_restores_witness:
  "\<exists>v r'. core_bench_list 1 bench_results = Some (v, r') \<and> list_ok r' [0, 1, 2] \<and> state_ok r'"
  using core_bench_list_restores [OF bench_results_ok, of 1] by blast

section \<open>Initialisation\<close>

text \<open>
  While the list is built, the cells are the head, the inserted ones in the reverse order
  of their insertion, and the first one inserted as the tail; cell \<open>c\<close> has item \<open>c\<close>,
  and the head and the tail have their indices.
\<close>

definition built :: "nat \<Rightarrow> 'a list_heap_scheme \<Rightarrow> bool" where
  "built m w \<longleftrightarrow> 2 \<le> m \<and> seg (lnext w) (Some 0) (0 # rev [1..<m]) None \<and> (\<forall>c<m. linfo w c = c)
     \<and> lidx w 0 = 0 \<and> lidx w 1 = 0x7fff"

lemma insert_new_built:
  assumes "built m w" "m + 1 < sz"
  shows "\<exists>w'. core_list_insert_new 0 info m m sz sz w = (Some m, m + 1, m + 1, w') \<and> built (m + 1) w'"
proof -
  have m: "2 \<le> m" and seg: "seg (lnext w) (lnext w 0) (rev [1..<m]) None" and info: "\<forall>c<m. linfo w c = c"
    and idx: "lidx w 0 = 0" "lidx w 1 = 0x7fff"
    using assms(1) by (auto simp: built_def)
  let ?n = "(lnext w)(m := lnext w 0, 0 := Some m)"
  have "seg ?n (lnext w 0) (rev [1..<m]) None" using seg by (subst seg_cong [of _ _ "lnext w"]) auto
  then have "seg ?n (Some 0) (0 # rev [1..<m + 1]) None" using m by simp
  moreover have "\<forall>c<m + 1. ((linfo w)(m := m)) c = c" using info by auto
  ultimately show ?thesis
    using assms(2) m idx
    by (auto simp: core_list_insert_new_def Let_def set_next_def set_info_def copy_info_def set_idx_def
        set_data16_def built_def)
qed

lemma fill_built:
  assumes "built m w" "m < sz"
  shows "\<exists>m' w'. fold (\<lambda>i (mb, db, w).
       let (_, mb, db, w) = core_list_insert_new 0 (core_list_dat seed i, 0x7fff) mb db sz sz w
       in (mb, db, w)) is (m, m, w) = (m', m', w') \<and> built m' w' \<and> m' = min (m + length is) (sz - 1)"
  using assms
proof (induction "is" arbitrary: m w)
  case Nil
  then show ?case by auto
next
  case (Cons i "is")
  show ?case
  proof (cases "m + 1 < sz")
    case True
    with insert_new_built [OF Cons.prems(1), of sz "(core_list_dat seed i, 0x7fff)"] obtain w1 where
      "core_list_insert_new 0 (core_list_dat seed i, 0x7fff) m m sz sz w = (Some m, m + 1, m + 1, w1)"
      "built (m + 1) w1"
      by blast
    with Cons.IH [of "m + 1" w1] True show ?thesis by auto
  next
    case False
    then have "core_list_insert_new 0 (core_list_dat seed i, 0x7fff) m m sz sz w = (None, m, m, w)"
      by (simp add: core_list_insert_new_def)
    with Cons.IH [OF Cons.prems] False show ?thesis by auto
  qed
qed

text \<open>The index the loop gives to the cell it visits as number \<open>i\<close>.\<close>

definition idx_at :: "u32 \<Rightarrow> s16 \<Rightarrow> u32 \<Rightarrow> s16" where
  "idx_at sz seed i = (if i < sz div 5 then ucast i
     else 0x3fff AND (push_bit 8 (ucast (i + 1) AND 0x07) OR ucast (i XOR scast seed)))"

lemma index_returns:
  assumes "seg (lnext w) (Some c) (c # cs) None" "distinct (c # cs)" "\<forall>x\<in>set (c # cs). linfo w x = x"
  shows "\<exists>w'. core_list_index sz seed c i w = Some w' \<and> lnext w' = lnext w \<and> linfo w' = linfo w
    \<and> list_heap.more w' = list_heap.more w
    \<and> (\<forall>x. x \<notin> set (butlast (c # cs)) \<longrightarrow> lidx w' x = lidx w x)
    \<and> (\<forall>k<length cs. lidx w' ((c # cs) ! k) = idx_at sz seed (i + of_nat k))"
  using assms
proof (induction cs arbitrary: c i w)
  case Nil
  then show ?case by (simp add: core_list_index.simps)
next
  case (Cons d cs)
  let ?w = "set_idx c (idx_at sz seed i) w"
  have d: "lnext w c = Some d" "linfo w c = c" using Cons.prems by simp_all
  have "seg (lnext ?w) (Some d) (d # cs) None" "\<forall>x\<in>set (d # cs). linfo ?w x = x"
    using Cons.prems by (simp_all add: set_idx_def)
  from Cons.IH [OF this(1) _ this(2), of "i + 1"] Cons.prems(2) obtain w' where w':
    "core_list_index sz seed d (i + 1) ?w = Some w'" "lnext w' = lnext ?w" "linfo w' = linfo ?w"
    "list_heap.more w' = list_heap.more ?w"
    "\<forall>x. x \<notin> set (butlast (d # cs)) \<longrightarrow> lidx w' x = lidx ?w x"
    "\<forall>k<length cs. lidx w' ((d # cs) ! k) = idx_at sz seed (i + 1 + of_nat k)"
    by auto
  have "core_list_index sz seed c i w = Some w'"
    using w'(1) d
    by (cases "i < sz div 5") (simp_all add: core_list_index.simps [of sz seed c] idx_at_def Let_def)
  moreover have "c \<notin> set (butlast (d # cs))" using Cons.prems(2) by (meson distinct.simps(2) in_set_butlastD)
  then have "lidx w' c = idx_at sz seed i" using w'(5) by (simp add: set_idx_def)
  then have "lidx w' ((c # d # cs) ! k) = idx_at sz seed (i + of_nat k)" if "k < length (d # cs)" for k
    using w'(6) that by (cases k) (auto simp: add.assoc)
  ultimately show ?case using w'(2-5) by (auto simp: set_idx_def)
qed

text \<open>The list with the fake head only.\<close>

definition list_head :: "'a list_heap_scheme \<Rightarrow> 'a list_heap_scheme" where
  "list_head w = set_data16 0 0x8080 (set_idx 0 0 (set_info 0 0 (set_next 0 None w)))"

lemma list_size: "2 \<le> unat blksize div 20 \<Longrightarrow> unat (blksize div 20 - 2) = unat blksize div 20 - 2" for blksize :: u32
  by (subst unat_sub) (simp_all add: word_le_nat_alt unat_div)

lemma tail_built:
  assumes "2 < sz"
  shows "\<exists>w'. core_list_insert_new 0 (0xffff, 0x7fff) 1 1 sz sz (list_head w) = (Some 1, 2, 2, w') \<and> built 2 w'
    \<and> list_heap.more w' = list_heap.more w"
  using assms
  by (auto simp: core_list_insert_new_def list_head_def Let_def set_next_def set_info_def copy_info_def
      set_idx_def set_data16_def built_def less_Suc_eq numeral_2_eq_2)

lemma insert_new_more:
  "core_list_insert_new p info m d e f w = (c, m', d', w') \<Longrightarrow> list_heap.more w' = list_heap.more w"
  by (auto simp: core_list_insert_new_def Let_def set_next_def set_info_def copy_info_def set_idx_def
      set_data16_def split: if_splits)

lemma fill_more:
  "core_list_fill sz seed (m, d, w) = (m', d', w') \<Longrightarrow> list_heap.more w' = list_heap.more w"
proof -
  have "fold (\<lambda>i (mb, db, w).
       let (_, mb, db, w) = core_list_insert_new 0 (core_list_dat seed i, 0x7fff) mb db sz sz w
       in (mb, db, w)) is (m, d, w) = (m', d', w') \<Longrightarrow> list_heap.more w' = list_heap.more w" for "is"
    by (induction "is" arbitrary: m d w) (auto simp: Let_def split: prod.splits dest!: insert_new_more)
  then show "core_list_fill sz seed (m, d, w) = (m', d', w') \<Longrightarrow> list_heap.more w' = list_heap.more w"
    by (simp add: core_list_fill_def)
qed

text \<open>The index of cell \<open>c\<close>: the insertion order is the reverse of the order of the list.\<close>

definition cell_idx :: "u32 \<Rightarrow> s16 \<Rightarrow> nat \<Rightarrow> s16" where
  "cell_idx sz seed c = (if c = 0 then 0 else if c = 1 then 0x7fff else idx_at sz seed (of_nat (unat sz - 1 - c)))"

lemma rev_upt_nth: "k < m - 1 \<Longrightarrow> rev [1..<m] ! k = m - 1 - k"
  by (simp add: rev_nth)

lemma cells_indexed:
  assumes "built m w" "m = unat sz - 1"
  shows "\<exists>c w'. lnext w 0 = Some c \<and> core_list_index sz seed c 1 w = Some w' \<and> lnext w' = lnext w
    \<and> linfo w' = linfo w \<and> list_heap.more w' = list_heap.more w \<and> (\<forall>c<m. lidx w' c = cell_idx sz seed c)"
proof -
  have m: "1 < m" using assms(1) by (simp add: built_def)
  have b: "seg (lnext w) (lnext w 0) (rev [1..<m]) None" "\<forall>c<m. linfo w c = c" "lidx w 0 = 0" "lidx w 1 = 0x7fff"
    using assms(1) by (simp_all add: built_def)
  obtain c cs where c: "rev [1..<m] = c # cs" using m by (cases "rev [1..<m]") auto
  have dist: "distinct (c # cs)" "set (c # cs) = {1..<m}" "length cs = m - 2"
    using c by (metis distinct_rev distinct_upt, metis set_rev set_upt, metis diff_Suc_1 diff_diff_left
      length_Cons length_rev length_upt nat_1_add_1)
  have n0: "lnext w 0 = Some c" and seg: "seg (lnext w) (Some c) (c # cs) None" using b(1) c by simp_all
  obtain w' where w': "core_list_index sz seed c 1 w = Some w'" "lnext w' = lnext w"
    "linfo w' = linfo w" "list_heap.more w' = list_heap.more w"
    "\<forall>x. x \<notin> set (butlast (c # cs)) \<longrightarrow> lidx w' x = lidx w x"
    "\<forall>k<length cs. lidx w' ((c # cs) ! k) = idx_at sz seed (1 + of_nat k)"
    using index_returns [OF seg dist(1), of sz seed 1] b(2) dist(2) by (metis atLeastLessThan_iff)
  have "butlast (c # cs) = rev [2..<m]" using c m by (metis One_nat_def Suc_1 butlast_rev list.sel(3) upt_conv_Cons)
  then have "lidx w' 0 = 0" "lidx w' 1 = 0x7fff" using w'(5) b(3,4) by auto
  moreover have "lidx w' x = idx_at sz seed (of_nat (unat sz - 1 - x))" if "2 \<le> x" "x < m" for x
  proof -
    have "(c # cs) ! (m - 1 - x) = x" using that rev_upt_nth [of "m - 1 - x" m] unfolding c by simp
    moreover have "m - 1 - x < length cs" using that dist(3) by simp
    ultimately have "lidx w' x = idx_at sz seed (1 + of_nat (m - 1 - x))" using w'(6) by metis
    moreover have "1 + of_nat (m - 1 - x) = (of_nat (m - x) :: u32)"
      using that by (metis Suc_diff_Suc diff_diff_left of_nat_Suc plus_1_eq_Suc)
    ultimately show ?thesis using assms(2) by simp
  qed
  ultimately show ?thesis using w'(1-4) n0 by (auto simp: cell_idx_def)
qed

lemma list_init_sorted:
  assumes "5 \<le> unat blksize div 20"
  shows "\<exists>p w' ys. core_list_init blksize seed w = Some (p, w') \<and> seg (lnext w') p ys None
    \<and> mset ys = mset [0..<unat blksize div 20 - 3]
    \<and> sorted (map (\<lambda>c. sint (lidx w' c)) ys) \<and> (\<forall>c\<in>set ys. linfo w' c = c)
    \<and> (\<forall>c\<in>set ys. regen_data (ldata16 w' c) = ldata16 w' c)
    \<and> (\<forall>c\<in>set ys. lidx w' c = cell_idx (blksize div 20 - 2) seed c)
    \<and> list_heap.more w' = list_heap.more w"
proof -
  define sz where "sz = blksize div 20 - 2"
  have sz: "unat sz = unat blksize div 20 - 2" "2 < unat sz" using list_size assms by (simp_all add: sz_def)
  have "unat blksize < 2 ^ LENGTH(32)" by (rule unsigned_less)
  then have lim: "unat sz \<le> 2 ^ 30" using sz(1) by simp
  obtain w1 where w1: "core_list_insert_new 0 (0xffff, 0x7fff) 1 1 (unat sz) (unat sz) (list_head w) = (Some 1, 2, 2, w1)"
    "built 2 w1" "list_heap.more w1 = list_heap.more w"
    using tail_built [OF sz(2)] by blast
  let ?m = "unat sz - 1"
  obtain w2 where w2: "core_list_fill (unat sz) seed (2, 2, w1) = (?m, ?m, w2)" "built ?m w2"
    using fill_built [OF w1(2) sz(2), of seed "[0..<unat sz]"] by (auto simp: core_list_fill_def)
  let ?xs = "0 # rev [1..<?m]"
  have seg2: "seg (lnext w2) (Some 0) ?xs None" "\<forall>c<?m. linfo w2 c = c" using w2(2) by (simp_all add: built_def)
  obtain c w3 where n0: "lnext w2 0 = Some c" and w3: "core_list_index sz seed c 1 w2 = Some w3"
    "lnext w3 = lnext w2" "linfo w3 = linfo w2" "list_heap.more w3 = list_heap.more w2"
    "\<forall>c<?m. lidx w3 c = cell_idx sz seed c"
    using cells_indexed [OF w2(2) refl] by blast
  have dist: "distinct ?xs" and len: "length ?xs \<le> 2 ^ 30" "2 \<le> length ?xs" using lim sz(2) by auto
  from mergesort_by_idx [of w3 "Some 0" ?xs] seg2(1) dist len(1) obtain p ys w' where s:
    "core_list_mergesort (Some 0) (cmp_idx True) w3 = Some (p, w')" "seg (lnext w') p ys None"
    "mset ys = mset ?xs" "sorted (map (\<lambda>c. sint (lidx w3 (linfo w3 c))) ys)" "idx_rel w3 w'"
    "\<forall>c\<in>set ?xs. ldata16 w' (linfo w3 c) = regen_data (ldata16 w3 (linfo w3 c))"
    using len(2) unfolding w3(2) by auto
  have init: "core_list_init blksize seed w = Some (p, w')"
    using w1(1) w2(1) w3(1) n0 s(1) assms by (simp add: core_list_init_def sz_def list_head_def Let_def word_less_nat_alt unat_div)
  have perm: "mset ?xs = mset [0..<?m]" using sz(2) by (simp add: upt_conv_Cons)
  then have ys: "set ys = {0..<?m}" using s(3) by (metis mset_eq_setD set_upt)
  have li: "linfo w' c = c" "linfo w3 c = c" if "c \<in> set ys" for c
    using that seg2(2) ys s(5) by (auto simp: w3(3) idx_rel_def)
  have "map (\<lambda>c. sint (lidx w' c)) ys = map (\<lambda>c. sint (lidx w3 (linfo w3 c))) ys"
    using li(2) s(5) by (simp add: idx_rel_def)
  then have "sorted (map (\<lambda>c. sint (lidx w' c)) ys)" using s(4) by argo
  moreover have "regen_data (ldata16 w' c) = ldata16 w' c" if "c \<in> set ys" for c
    using s(3,6) li(2) [OF that] that by (metis mset_eq_setD regen_data_idem)
  moreover have "list_heap.more w' = list_heap.more w"
    using s(5) w3(4) fill_more [OF w2(1)] w1(3) by (simp add: idx_rel_def)
  moreover have "?m = unat blksize div 20 - 3" using sz(1) by simp
  moreover have "lidx w' c = cell_idx sz seed c" if "c \<in> set ys" for c
    using that ys w3(5) s(5) by (simp add: idx_rel_def)
  moreover have "mset ys = mset [0..<?m]" using s(3) perm by simp
  ultimately show ?thesis using init s(2) li(1) unfolding sz_def
    by (intro exI [of _ p] exI [of _ w'] exI [of _ ys]) simp
qed

text \<open>
  C23: from a block of at least 100 bytes \<open>core_list_init\<close> builds a list of
  \<open>blksize / 20 - 3\<close> cells, in ascending order of the indices, every cell with its own
  item, and every item's data in the regenerated form.
\<close>

theorem core_list_init_sorted:
  assumes "5 \<le> unat blksize div 20"
  shows "\<exists>p w' ys. core_list_init blksize seed w = Some (p, w') \<and> seg (lnext w') p ys None
    \<and> mset ys = mset [0..<unat blksize div 20 - 3]
    \<and> sorted (map (\<lambda>c. sint (lidx w' c)) ys) \<and> (\<forall>c\<in>set ys. linfo w' c = c)
    \<and> (\<forall>c\<in>set ys. regen_data (ldata16 w' c) = ldata16 w' c)"
  using list_init_sorted [OF assms] by blast

theorem core_list_init_sorted_witness:
  "\<exists>p w' ys. core_list_init 666 0 three_cells = Some (p, w') \<and> seg (lnext w') p ys None
    \<and> mset ys = mset [0..<30] \<and> sorted (map (\<lambda>c. sint (lidx w' c)) ys)"
proof -
  have "unat (666 :: u32) div 20 = 33" by simp
  then show ?thesis using core_list_init_sorted [of 666 0 three_cells] by auto
qed

end
