(* ===== verification/Coremark_Main.thy ===== *)
theory Coremark_Main
  imports Coremark_Bench
begin

text \<open>
  \<open>guests/coremark/core_main.c\<close> and the RISC-V port \<open>riscv/core_portme.c\<close>: the timer, the
  seeds, the partition of the memory block, the timed run and the report.

  The configuration is the one of the port: seeds in volatile variables, the block on
  the stack, one context, no floating point. The hardware timer is a parameter: reading
  number \<open>n\<close> of \<open>rdtime\<close> gives \<open>rdtime n\<close>. The console is the list of the \<open>ee_printf\<close>
  calls, each a format with its arguments.
\<close>

section \<open>Model\<close>

text \<open>
  An argument of a variadic call with its type after the default promotions: an \<open>int\<close> (also
  a promoted \<open>ee_u16\<close>), an \<open>ee_u32\<close>, a \<open>long unsigned\<close>, a string.
\<close>

datatype printf_arg = Arg_int s32 | Arg_u32 u32 | Arg_ulong u64 | Arg_str string

type_synonym printf_call = "string \<times> printf_arg list"

subsection \<open>The port\<close>

record port_time =
  start_time_val :: u32
  stop_time_val :: u32
  clock_reads :: nat

definition barebones_clock :: "(nat \<Rightarrow> u64) \<Rightarrow> port_time \<Rightarrow> u32 \<times> port_time" where
  "barebones_clock rdtime t =
     (let v = rdtime (clock_reads t) in (ucast v, t\<lparr>clock_reads := clock_reads t + 1\<rparr>))"

definition start_time :: "(nat \<Rightarrow> u64) \<Rightarrow> port_time \<Rightarrow> port_time" where
  "start_time rdtime t = (let (v, t) = barebones_clock rdtime t in t\<lparr>start_time_val := v\<rparr>)"

definition stop_time :: "(nat \<Rightarrow> u64) \<Rightarrow> port_time \<Rightarrow> port_time" where
  "stop_time rdtime t = (let (v, t) = barebones_clock rdtime t in t\<lparr>stop_time_val := v\<rparr>)"

definition get_time :: "port_time \<Rightarrow> u32" where
  "get_time t = stop_time_val t - start_time_val t"

definition time_in_secs :: "u32 \<Rightarrow> u32" where
  "time_in_secs ticks = ticks div 10000000"

definition portable_init :: "type_sizes \<Rightarrow> printf_call list \<times> u8" where
  "portable_init t =
     ((if sizeof_ee_ptr_int t \<noteq> sizeof_int_ptr t
       then [(''ERROR! Please define ee_ptr_int to a type that holds a pointer!\<newline>'', [])] else [])
      @ (if sizeof_ee_u32 t \<noteq> 4
         then [(''ERROR! Please define ee_u32 to a 32b unsigned type!\<newline>'', [])] else []), 1)"

definition portable_fini :: u8 where
  "portable_fini = 0"

subsection \<open>The run\<close>

text \<open>One round of the loop of \<open>iterate\<close>.\<close>

definition iterate_round :: "nat \<Rightarrow> core_results \<Rightarrow> core_results option" where
  "iterate_round i res =
     do {
       (c, res) \<leftarrow> core_bench_list 1 res;
       let res = res\<lparr>crc := crcu16 c (crc res)\<rparr>;
       (c, res) \<leftarrow> core_bench_list (-1) res;
       let res = res\<lparr>crc := crcu16 c (crc res)\<rparr>;
       Some (if i = 0 then res\<lparr>crclist := crc res\<rparr> else res)
     }"

fun iterate_loop :: "nat list \<Rightarrow> core_results \<Rightarrow> core_results option" where
  "iterate_loop [] res = Some res"
| "iterate_loop (i # is) res = Option.bind (iterate_round i res) (iterate_loop is)"

definition iterate :: "core_results \<Rightarrow> core_results option" where
  "iterate res =
     iterate_loop [0..<unat (iterations res)] (res\<lparr>crc := 0, crclist := 0, crcmatrix := 0, crcstate := 0\<rparr>)"

subsection \<open>Seeds and memory\<close>

text \<open>The seeds, with the defaults of the performance and the validation run.\<close>

definition main_seeds :: "volatile_seeds \<Rightarrow> core_results \<Rightarrow> core_results" where
  "main_seeds v res =
     (let res = res\<lparr>seed1 := scast (get_seed_32 v 1), seed2 := scast (get_seed_32 v 2),
                    seed3 := scast (get_seed_32 v 3), iterations := get_seed_32 v 4,
                    execs := get_seed_32 v 5\<rparr>;
          res = (if execs res = 0 then res\<lparr>execs := 7\<rparr> else res);
          res = (if seed1 res = 0 \<and> seed2 res = 0 \<and> seed3 res = 0
                 then res\<lparr>seed1 := 0, seed2 := 0, seed3 := 0x66\<rparr> else res)
      in if seed1 res = 1 \<and> seed2 res = 0 \<and> seed3 res = 0
         then res\<lparr>seed1 := 0x3415, seed2 := 0x3415, seed3 := 0x66\<rparr> else res)"

definition selected :: "u32 \<Rightarrow> nat \<Rightarrow> bool" where
  "selected ex i \<longleftrightarrow> push_bit i 1 AND ex \<noteq> 0"

definition count_algorithms :: "u32 \<Rightarrow> u16" where
  "count_algorithms ex = fold (\<lambda>i n. if selected ex i then n + 1 else n) [0..<3] 0"

text \<open>The offset of the part of every selected algorithm in the block.\<close>

definition assign_pointers :: "u32 \<Rightarrow> u32 \<Rightarrow> nat \<Rightarrow> u32 option" where
  "assign_pointers ex sz =
     fst (fold (\<lambda>i (offs, j). if selected ex i then (offs(i := Some (sz * j)), j + 1) else (offs, j))
       [0..<3] (Map.empty, 0))"

text \<open>
  The calls of the initialisers; \<open>base\<close> is the address of the block and \<open>block\<close> its
  contents. The parts of the list and of the matrices are the maps of the results
  structure, the part of the state machine is its bytes.

  The initialisers write apart from each other: \<open>core_init_matrix\<close> writes \<open>A\<close> and \<open>B\<close>, which
  lie inside its part. The matrix \<open>C\<close>, which the benchmark fills later, may end up to two
  bytes behind an unaligned part (\<open>core_init_matrix_overrun\<close>), in the part of the state
  machine; it is kept apart from that here, which is what the code does whenever \<open>C\<close> fits,
  as in the port's block of 2000 bytes (\<open>core_init_matrix_port\<close>).
\<close>

definition main_inits :: "u64 \<Rightarrow> u8 list \<Rightarrow> (nat \<Rightarrow> u32 option) \<Rightarrow> core_results \<Rightarrow> core_results option" where
  "main_inits base block offs res =
     do {
       res \<leftarrow> (if execs res AND 1 \<noteq> 0 then do {
           (l, res) \<leftarrow> core_list_init (res_size res) (seed1 res) res;
           Some (res\<lparr>res_list := l\<rparr>)
         } else Some res);
       res \<leftarrow> (if execs res AND 2 \<noteq> 0 then do {
           off \<leftarrow> offs 1;
           (p, A, B) \<leftarrow> core_init_matrix (res_size res) (base + ucast off)
             (scast (seed1 res) OR push_bit 16 (scast (seed2 res))) (res_A res) (res_B res);
           Some (res\<lparr>res_N := mat_N p, res_A := A, res_B := B\<rparr>)
         } else Some res);
       (if execs res AND 4 \<noteq> 0 then do {
           off \<leftarrow> offs 2;
           m \<leftarrow> core_init_state (res_size res) (seed1 res)
             (take (unat (res_size res)) (drop (unat off) block));
           Some (res\<lparr>memblock3 := m\<rparr>)
         } else Some res)
     }"

text \<open>
  Splitting the block and initialising its parts; without a selected algorithm the size
  is divided by zero.
\<close>

definition main_memory :: "u64 \<Rightarrow> u8 list \<Rightarrow> core_results \<Rightarrow> core_results option" where
  "main_memory base block res =
     (let res = res\<lparr>res_size := of_nat (length block), err := 0\<rparr>;
          n = count_algorithms (execs res)
      in if n = 0 then None
         else let res = res\<lparr>res_size := res_size res div ucast n\<rparr>
              in main_inits base block (assign_pointers (execs res) (res_size res)) res)"

subsection \<open>Timing\<close>

definition timed_run :: "(nat \<Rightarrow> u64) \<Rightarrow> core_results \<times> port_time \<Rightarrow> (core_results \<times> port_time) option" where
  "timed_run rdtime = (\<lambda>(res, t).
     do {
       let t = start_time rdtime t;
       res \<leftarrow> iterate res;
       let t = stop_time rdtime t;
       Some (res, t)
     })"

partial_function (option) calibrate_loop ::
  "(nat \<Rightarrow> u64) \<Rightarrow> core_results \<Rightarrow> port_time \<Rightarrow> (u32 \<times> core_results \<times> port_time) option" where
  "calibrate_loop rdtime res t =
     do {
       let res = res\<lparr>iterations := iterations res * 10\<rparr>;
       (res, t) \<leftarrow> timed_run rdtime (res, t);
       let secs_passed = time_in_secs (get_time t);
       if secs_passed < 1 then calibrate_loop rdtime res t else Some (secs_passed, res, t)
     }"

declare calibrate_loop.simps [code]

definition calibrate :: "(nat \<Rightarrow> u64) \<Rightarrow> core_results \<times> port_time \<Rightarrow> (core_results \<times> port_time) option" where
  "calibrate rdtime = (\<lambda>(res, t).
     if iterations res \<noteq> 0 then Some (res, t)
     else do {
       (secs_passed, res, t) \<leftarrow> calibrate_loop rdtime (res\<lparr>iterations := 1\<rparr>) t;
       let divisor = (if secs_passed = 0 then 1 else secs_passed);
       Some (res\<lparr>iterations := iterations res * (1 + 10 div divisor)\<rparr>, t)
     })"

subsection \<open>Validation and report\<close>

definition list_known_crc :: "u16 list" where
  "list_known_crc = [0xd4b0, 0x3340, 0x6a79, 0xe714, 0xe3c1]"

definition matrix_known_crc :: "u16 list" where
  "matrix_known_crc = [0xbe52, 0x1199, 0x5608, 0x1fd7, 0x0747]"

definition state_known_crc :: "u16 list" where
  "state_known_crc = [0x5e47, 0x39bf, 0xe5a4, 0x8e3a, 0x8d84]"

definition seed_crc :: "core_results \<Rightarrow> u16" where
  "seed_crc res =
     crc16 (ucast (res_size res)) (crc16 (seed3 res) (crc16 (seed2 res) (crc16 (seed1 res) 0)))"

text \<open>The \<open>switch\<close> on the seed CRC: \<open>known_id\<close>, \<open>total_errors\<close> and what it prints.\<close>

definition known_seeds :: "u16 \<Rightarrow> s16 \<times> s16 \<times> printf_call list" where
  "known_seeds seedcrc =
     (if seedcrc = 0x8a02 then (0, 0, [(''6k performance run parameters for coremark.\<newline>'', [])])
      else if seedcrc = 0x7b05 then (1, 0, [(''6k validation run parameters for coremark.\<newline>'', [])])
      else if seedcrc = 0x4eaf then (2, 0, [(''Profile generation run parameters for coremark.\<newline>'', [])])
      else if seedcrc = 0xe9f5 then (3, 0, [(''2K performance run parameters for coremark.\<newline>'', [])])
      else if seedcrc = 0x18f2 then (4, 0, [(''2K validation run parameters for coremark.\<newline>'', [])])
      else (-1, -1, []))"

text \<open>One comparison with a known CRC.\<close>

definition check_crc ::
  "string \<Rightarrow> bool \<Rightarrow> u16 \<Rightarrow> u16 \<Rightarrow> s16 \<times> printf_call list \<Rightarrow> s16 \<times> printf_call list" where
  "check_crc msg sel val known = (\<lambda>(e, out).
     if sel \<and> val \<noteq> known then (e + 1, out @ [(msg, [Arg_int 0, Arg_int (ucast val), Arg_int (ucast known)])])
     else (e, out))"

definition check_results :: "s16 \<Rightarrow> core_results \<Rightarrow> s16 \<times> printf_call list" where
  "check_results known_id res =
     (let k = nat (sint known_id)
      in check_crc ''[%u]ERROR! state crc 0x%04x - should be 0x%04x\<newline>''
           (execs res AND 4 \<noteq> 0) (crcstate res) (state_known_crc ! k)
         (check_crc ''[%u]ERROR! matrix crc 0x%04x - should be 0x%04x\<newline>''
           (execs res AND 2 \<noteq> 0) (crcmatrix res) (matrix_known_crc ! k)
         (check_crc ''[%u]ERROR! list crc 0x%04x - should be 0x%04x\<newline>''
           (execs res AND 1 \<noteq> 0) (crclist res) (list_known_crc ! k) (0, []))))"

text \<open>The compiler's version and flags are strings the build supplies.\<close>

record build_info =
  sizes :: type_sizes
  sizeof_list_head_s :: nat
  compiler_version :: string
  compiler_flags :: string

definition report_results :: "build_info \<Rightarrow> u16 \<Rightarrow> u32 \<Rightarrow> core_results \<Rightarrow> printf_call list" where
  "report_results b seedcrc ticks res =
     [(''CoreMark Size    : %lu\<newline>'', [Arg_ulong (ucast (res_size res))]),
      (''Total ticks      : %lu\<newline>'', [Arg_ulong (ucast ticks)]),
      (''Total time (secs): %d\<newline>'', [Arg_u32 (time_in_secs ticks)])]
     @ (if 0 < time_in_secs ticks
        then [(''Iterations/Sec   : %d\<newline>'', [Arg_u32 (1 * iterations res div time_in_secs ticks)])] else [])
     @ (if time_in_secs ticks < 10
        then [(''ERROR! Must execute for at least 10 secs for a valid result!\<newline>'', [])] else [])
     @ [(''Iterations       : %lu\<newline>'', [Arg_ulong (1 * ucast (iterations res))]),
        (''Compiler version : %s\<newline>'', [Arg_str (compiler_version b)]),
        (''Compiler flags   : %s\<newline>'', [Arg_str (compiler_flags b)]),
        (''Memory location  : %s\<newline>'', [Arg_str ''STACK'']),
        (''seedcrc          : 0x%04x\<newline>'', [Arg_int (ucast seedcrc)])]
     @ (if execs res AND 1 \<noteq> 0 then [(''[%d]crclist       : 0x%04x\<newline>'', [Arg_int 0, Arg_int (ucast (crclist res))])] else [])
     @ (if execs res AND 2 \<noteq> 0 then [(''[%d]crcmatrix     : 0x%04x\<newline>'', [Arg_int 0, Arg_int (ucast (crcmatrix res))])] else [])
     @ (if execs res AND 4 \<noteq> 0 then [(''[%d]crcstate      : 0x%04x\<newline>'', [Arg_int 0, Arg_int (ucast (crcstate res))])] else [])
     @ [(''[%d]crcfinal      : 0x%04x\<newline>'', [Arg_int 0, Arg_int (ucast (crc res))])]"

definition validated_msg :: printf_call where
  "validated_msg = (''Correct operation validated. See README.md for run and reporting rules.\<newline>'', [])"

definition errors_msg :: printf_call where
  "errors_msg = (''Errors detected\<newline>'', [])"

definition unknown_msg :: printf_call where
  "unknown_msg =
     (''Cannot validate operation for these seed values, please compare with results on a known platform.\<newline>'', [])"

definition verdict :: "s16 \<Rightarrow> printf_call list" where
  "verdict total_errors =
     (if total_errors = 0 then [validated_msg] else [])
     @ (if 0 <s total_errors then [errors_msg] else [])
     @ (if total_errors <s 0 then [unknown_msg] else [])"

text \<open>Everything after the run: the results with \<open>err\<close>, and the console.\<close>

definition main_report :: "build_info \<Rightarrow> u32 \<Rightarrow> core_results \<Rightarrow> core_results \<times> printf_call list" where
  "main_report b total_time res =
     (let seedcrc = seed_crc res;
          (known_id, total_errors, out1) = known_seeds seedcrc;
          (res, total_errors, out2) =
            (if 0 \<le>s known_id then
               let (e, out) = check_results known_id res in (res\<lparr>err := e\<rparr>, total_errors + e, out)
             else (res, total_errors, []));
          (type_errs, out_types) = check_data_types (sizes b);
          total_errors = total_errors + ucast type_errs;
          out3 = report_results b seedcrc total_time res;
          total_errors = (if time_in_secs total_time < 10 then total_errors + 1 else total_errors)
      in (res, out1 @ out2 @ map (\<lambda>m. (m, [])) out_types @ out3 @ verdict total_errors))"

definition main ::
  "build_info \<Rightarrow> (nat \<Rightarrow> u64) \<Rightarrow> volatile_seeds \<Rightarrow> u64 \<Rightarrow> u8 list \<Rightarrow> core_results \<times> port_time \<Rightarrow>
   (u8 \<times> core_results \<times> port_time \<times> printf_call list) option" where
  "main b rdtime v base block = (\<lambda>(res, t).
     let (out1, portable_id) = portable_init (sizes b)
     in if sizeof_list_head_s b > 128
        then Some (portable_id, res, t,
          out1 @ [(''list_head structure too big for comparable data!\<newline>'', [])])
        else do {
          res \<leftarrow> main_memory base block (main_seeds v res);
          (res, t) \<leftarrow> calibrate rdtime (res, t);
          (res, t) \<leftarrow> timed_run rdtime (res, t);
          let (res, out2) = main_report b (get_time t) res;
          Some (portable_fini, res, t, out1 @ out2)
        })"

section \<open>Properties\<close>

subsection \<open>The partition of the block\<close>

lemma three_algorithms: "[0..<3] = [0, 1, 2]"
  by (simp add: upt_rec)

lemma less_3_cases: "i < (3 :: nat) \<longleftrightarrow> i = 0 \<or> i = 1 \<or> i = 2"
  by arith

lemma count_algorithms_eq:
  "count_algorithms ex = of_bool (selected ex 0) + of_bool (selected ex 1) + of_bool (selected ex 2)"
  by (simp add: count_algorithms_def three_algorithms)

lemma unat_count_algorithms:
  "unat (count_algorithms ex) = of_bool (selected ex 0) + of_bool (selected ex 1) + of_bool (selected ex 2)"
  by (cases "selected ex 0"; cases "selected ex 1"; cases "selected ex 2") (simp_all add: count_algorithms_eq)

lemma assign_pointers_eq:
  "assign_pointers ex sz i =
     (if i = 0 \<and> selected ex 0 then Some 0
      else if i = 1 \<and> selected ex 1 then Some (sz * of_bool (selected ex 0))
      else if i = 2 \<and> selected ex 2 then Some (sz * (of_bool (selected ex 0) + of_bool (selected ex 1)))
      else None)"
  by (simp add: assign_pointers_def three_algorithms)

text \<open>
  C29: the parts of the selected algorithms lie inside the block and do not overlap, and no
  other algorithm gets a part, for every mask that selects an algorithm.
\<close>

theorem assign_pointers_partition:
  assumes "length block < 2 ^ 32" "selected ex 0 \<or> selected ex 1 \<or> selected ex 2"
  defines "sz \<equiv> of_nat (length block) div ucast (count_algorithms ex) :: u32"
  shows "(assign_pointers ex sz i \<noteq> None \<longleftrightarrow> i < 3 \<and> selected ex i)
    \<and> (\<forall>off. assign_pointers ex sz i = Some off \<longrightarrow> unat off + unat sz \<le> length block)
    \<and> (\<forall>off j off'. assign_pointers ex sz i = Some off \<longrightarrow> assign_pointers ex sz j = Some off'
         \<longrightarrow> i < j \<longrightarrow> unat off + unat sz \<le> unat off')"
proof -
  let ?n = "unat (count_algorithms ex)"
  have n: "0 < ?n" "?n \<le> 3" using assms(2) by (auto simp: unat_count_algorithms)
  have "unat sz = length block div ?n"
    using assms(1) n by (simp add: sz_def unat_div unat_of_nat_small unat_ucast_up)
  then have sz: "?n * unat sz \<le> length block" by (simp add: div_times_less_eq_dividend mult.commute)
  have "unat (sz * 2) = 2 * unat sz" if "2 \<le> ?n"
  proof -
    have "2 * unat sz \<le> length block" using sz mult_le_mono1 [OF that, of "unat sz"] by (rule le_trans [rotated])
    then show ?thesis using assms(1) by (subst unat_mult_lem [THEN iffD1]) auto
  qed
  with sz n show ?thesis
    by (cases "selected ex 0"; cases "selected ex 1"; cases "selected ex 2")
      (auto simp: assign_pointers_eq unat_count_algorithms less_3_cases intro: gr0I)
qed

theorem assign_pointers_partition_witness:
  "assign_pointers 7 666 2 = Some 1332 \<and> (1332 :: nat) + 666 \<le> 2000"
  using assign_pointers_partition [of "replicate 2000 (0 :: u8)" 7 2]
  by (auto simp: assign_pointers_eq selected_def count_algorithms_eq)

subsection \<open>The run\<close>

lemma reset_ok:
  "list_ok (r\<lparr>crc := a, crclist := b, crcmatrix := c, crcstate := d\<rparr>) xs = list_ok r xs"
  "state_ok (r\<lparr>crc := a, crclist := b, crcmatrix := c, crcstate := d\<rparr>) = state_ok r"
  "list_ok (r\<lparr>crc := a\<rparr>) xs = list_ok r xs" "state_ok (r\<lparr>crc := a\<rparr>) = state_ok r"
  "list_ok (r\<lparr>crclist := b\<rparr>) xs = list_ok r xs" "state_ok (r\<lparr>crclist := b\<rparr>) = state_ok r"
  "list_ok (r\<lparr>iterations := n\<rparr>) xs = list_ok r xs" "state_ok (r\<lparr>iterations := n\<rparr>) = state_ok r"
  by (simp_all add: list_ok_def state_ok_def)

lemma list_ok_err: "list_ok (r\<lparr>err := e\<rparr>) xs = list_ok r xs"
  by (simp add: list_ok_def)

text \<open>A round returns, keeps what the next one needs, and only round 0 sets \<open>crclist\<close>.\<close>

text \<open>What a run hands to the next one: the items, the inputs and the settings.\<close>

definition inputs_kept :: "nat list \<Rightarrow> core_results \<Rightarrow> core_results \<Rightarrow> bool" where
  "inputs_kept xs r r' \<longleftrightarrow> linfo r' = linfo r \<and> lidx r' = lidx r
     \<and> (\<forall>c\<in>set xs. ldata16 r' (linfo r c) = ldata16 r (linfo r c))
     \<and> memblock3 r' = memblock3 r \<and> res_A r' = res_A r \<and> res_B r' = res_B r
     \<and> iterations r' = iterations r \<and> res_size r' = res_size r \<and> execs r' = execs r"

lemma inputs_kept_refl: "inputs_kept xs r r"
  by (simp add: inputs_kept_def)

lemma inputs_kept_trans: "inputs_kept xs r r' \<Longrightarrow> inputs_kept xs r' r'' \<Longrightarrow> inputs_kept xs r r''"
  by (simp add: inputs_kept_def)

lemma inputs_kept_reset [simp]:
  "inputs_kept xs (r\<lparr>crc := a, crclist := b, crcmatrix := c, crcstate := d\<rparr>) r' = inputs_kept xs r r'"
  "inputs_kept xs (r\<lparr>crc := a\<rparr>) r' = inputs_kept xs r r'" "inputs_kept xs r (r'\<lparr>crc := a\<rparr>) = inputs_kept xs r r'"
  "inputs_kept xs r (r'\<lparr>crclist := b\<rparr>) = inputs_kept xs r r'"
  by (simp_all add: inputs_kept_def)

lemma bench_list_step:
  assumes "list_ok r xs" "state_ok r"
  shows "\<exists>v r'. core_bench_list idx r = Some (v, r') \<and> list_ok r' xs \<and> state_ok r' \<and> inputs_kept xs r r'
    \<and> crclist r' = crclist r"
proof -
  from bench_list_restores [OF assms, of idx] obtain v r' where r':
    "core_bench_list idx r = Some (v, r')" "bench_keeps r r'"
    "seg (lnext r') (res_list r') xs None" "\<forall>c\<in>set xs. ldata16 r' (linfo r c) = ldata16 r (linfo r c)"
    by blast
  with bench_list_ok [OF assms(1) r'(2-4)] bench_state_ok [OF assms(2) r'(2)] show ?thesis
    by (auto simp: bench_keeps_def inputs_kept_def)
qed

lemma iterate_round_step:
  assumes "list_ok r xs" "state_ok r"
  shows "\<exists>r'. iterate_round i r = Some r' \<and> list_ok r' xs \<and> state_ok r' \<and> inputs_kept xs r r'
    \<and> (i \<noteq> 0 \<longrightarrow> crclist r' = crclist r)"
proof -
  from bench_list_step [OF assms, of 1] obtain v r1 where 1: "core_bench_list 1 r = Some (v, r1)"
    "list_ok r1 xs" "state_ok r1" "inputs_kept xs r r1" "crclist r1 = crclist r"
    by blast
  let ?r1 = "r1\<lparr>crc := crcu16 v (crc r1)\<rparr>"
  have "list_ok ?r1 xs" "state_ok ?r1" using 1 by (simp_all add: reset_ok)
  from bench_list_step [OF this, of "-1"] obtain v' r2 where 2: "core_bench_list (-1) ?r1 = Some (v', r2)"
    "list_ok r2 xs" "state_ok r2" "inputs_kept xs r1 r2" "crclist r2 = crclist r1"
    by auto
  with 1 inputs_kept_trans [OF 1(4) 2(4)] show ?thesis by (simp add: iterate_round_def reset_ok Let_def)
qed

lemma iterate_loop_step:
  assumes "list_ok r xs" "state_ok r" "0 \<notin> set is"
  shows "\<exists>r'. iterate_loop is r = Some r' \<and> list_ok r' xs \<and> state_ok r' \<and> inputs_kept xs r r'
    \<and> crclist r' = crclist r"
  using assms
proof (induction "is" arbitrary: r)
  case (Cons i "is")
  from iterate_round_step [OF Cons.prems(1,2), of i] obtain r1 where r1: "iterate_round i r = Some r1"
    "list_ok r1 xs" "state_ok r1" "inputs_kept xs r r1" "crclist r1 = crclist r"
    using Cons.prems(3) by auto
  from Cons.IH [OF r1(2,3)] Cons.prems(3) r1 inputs_kept_trans [OF r1(4)] show ?case by auto
qed (simp add: inputs_kept_refl)

lemma iterate_step:
  assumes "list_ok r xs" "state_ok r"
  shows "\<exists>r'. iterate r = Some r' \<and> list_ok r' xs \<and> state_ok r' \<and> inputs_kept xs r r'
    \<and> (iterations r \<noteq> 0 \<longrightarrow>
        (\<exists>r1. iterate_round 0 (r\<lparr>crc := 0, crclist := 0, crcmatrix := 0, crcstate := 0\<rparr>) = Some r1
          \<and> crclist r' = crclist r1))"
proof (cases "iterations r = 0")
  case True
  with assms show ?thesis by (simp add: iterate_def reset_ok) (simp add: inputs_kept_def)
next
  case False
  let ?r = "r\<lparr>crc := 0, crclist := 0, crcmatrix := 0, crcstate := 0\<rparr>"
  have upt: "[0..<unat (iterations r)] = 0 # [1..<unat (iterations r)]"
    using False by (simp add: upt_conv_Cons unat_gt_0)
  have "list_ok ?r xs" "state_ok ?r" using assms by (simp_all add: reset_ok)
  from iterate_round_step [OF this, of 0] obtain r1 where r1: "iterate_round 0 ?r = Some r1" "list_ok r1 xs"
    "state_ok r1" "inputs_kept xs r r1"
    by auto
  from iterate_loop_step [OF r1(2,3), of "[1..<unat (iterations r)]"] r1 upt inputs_kept_trans [OF r1(4)] show ?thesis
    by (auto simp: iterate_def)
qed

text \<open>
  C10: \<open>iterate\<close> returns for every number of iterations and leaves what it started from: the
  same cells in the same order with the same items, indices and data, the input of the
  state machine and the matrices \<open>A\<close> and \<open>B\<close>. The list CRC it reports is the one of the
  first round, whatever the number of rounds.
\<close>

theorem iterate_returns:
  assumes "list_ok r xs" "state_ok r"
  shows "\<exists>r'. iterate r = Some r' \<and> list_ok r' xs \<and> state_ok r' \<and> iterations r' = iterations r
    \<and> linfo r' = linfo r \<and> lidx r' = lidx r
    \<and> (\<forall>c\<in>set xs. ldata16 r' (linfo r c) = ldata16 r (linfo r c))
    \<and> memblock3 r' = memblock3 r \<and> res_A r' = res_A r \<and> res_B r' = res_B r
    \<and> (iterations r \<noteq> 0 \<longrightarrow>
        (\<exists>r1. iterate_round 0 (r\<lparr>crc := 0, crclist := 0, crcmatrix := 0, crcstate := 0\<rparr>) = Some r1
          \<and> crclist r' = crclist r1))"
  using iterate_step [OF assms] by (auto simp: inputs_kept_def)

theorem iterate_returns_witness:
  "\<exists>r'. iterate (bench_results\<lparr>iterations := 1000\<rparr>) = Some r' \<and> list_ok r' [0, 1, 2] \<and> iterations r' = 1000
    \<and> memblock3 r' = memblock3 bench_results \<and> lidx r' = lidx bench_results"
  using iterate_returns [of "bench_results\<lparr>iterations := 1000\<rparr>" "[0, 1, 2]"] bench_results_ok
  by (auto simp: reset_ok)

subsection \<open>The report\<close>

text \<open>The number of failed checks of the sizes, and of the CRCs of the selected algorithms.\<close>

definition type_errors :: "type_sizes \<Rightarrow> nat" where
  "type_errors t = of_bool (sizeof_ee_u8 t \<noteq> 1) + of_bool (sizeof_ee_u16 t \<noteq> 2) + of_bool (sizeof_ee_s16 t \<noteq> 2)
     + of_bool (sizeof_ee_s32 t \<noteq> 4) + of_bool (sizeof_ee_u32 t \<noteq> 4)
     + of_bool (sizeof_ee_ptr_int t \<noteq> sizeof_int_ptr t)"

definition crc_errors :: "nat \<Rightarrow> core_results \<Rightarrow> nat" where
  "crc_errors k res = of_bool (execs res AND 1 \<noteq> 0 \<and> crclist res \<noteq> list_known_crc ! k)
     + of_bool (execs res AND 2 \<noteq> 0 \<and> crcmatrix res \<noteq> matrix_known_crc ! k)
     + of_bool (execs res AND 4 \<noteq> 0 \<and> crcstate res \<noteq> state_known_crc ! k)"

lemma fst_check_type: "fst (check_type bad msg st) = fst st + of_bool bad"
  by (simp add: check_type_def case_prod_unfold)

lemma set_check_type: "set (snd (check_type bad msg st)) = set (snd st) \<union> (if bad then {msg} else {})"
  by (simp add: check_type_def case_prod_unfold)

lemma check_data_types_eq: "fst (check_data_types t) = of_nat (type_errors t)"
  by (simp add: check_data_types_def fst_check_type type_errors_def Let_def case_prod_unfold)

lemma types_no_verdict: "\<forall>m\<in>set (snd (check_data_types t)). take 4 m = ''ERRO''"
  by (simp add: check_data_types_def set_check_type Let_def case_prod_unfold ball_Un)

lemma type_errors_le: "type_errors t \<le> 6"
  by (simp add: type_errors_def of_bool_def)

lemma check_data_types_0: "fst (check_data_types t) = 0 \<longleftrightarrow> type_errors t = 0"
  using type_errors_le [of t] unat_of_nat_small [of "type_errors t", where 'a = 8]
  by (auto simp: check_data_types_eq unat_eq_0)

lemma crc_errors_le: "crc_errors k res \<le> 3"
  by (simp add: crc_errors_def of_bool_def)

lemma ucast_of_nat_u8: "n < 256 \<Longrightarrow> (ucast (of_nat n :: u8) :: s16) = of_nat n"
  by (subst word_unat_eq_iff) (simp add: unsigned_ucast_eq unsigned_of_nat take_bit_nat_eq_self)

lemma sint_of_nat_u16: "n < 32768 \<Longrightarrow> sint (of_nat n :: s16) = int n"
  by (simp add: signed_of_nat signed_take_bit_int_eq_self)

lemma check_results_eq: "fst (check_results k res) = of_nat (crc_errors (nat (sint k)) res)"
  by (simp add: check_results_def check_crc_def crc_errors_def Let_def case_prod_unfold)

text \<open>The verdict as a function of a small number of errors.\<close>

lemma verdict_of_nat:
  assumes "n \<le> 10"
  shows "verdict (of_nat n) = (if n = 0 then [validated_msg] else [errors_msg])"
proof -
  have "n = 0 \<or> n = 1 \<or> n = 2 \<or> n = 3 \<or> n = 4 \<or> n = 5 \<or> n = 6 \<or> n = 7 \<or> n = 8 \<or> n = 9 \<or> n = 10"
    using assms by arith
  then show ?thesis by (elim disjE) (simp_all add: verdict_def word_sless_alt)
qed

lemma verdict_unknown:
  assumes "n \<le> 7"
  shows "verdict (of_nat n - 1) = (if n = 0 then [unknown_msg] else if n = 1 then [validated_msg] else [errors_msg])"
proof -
  have "n = 0 \<or> n = 1 \<or> n = 2 \<or> n = 3 \<or> n = 4 \<or> n = 5 \<or> n = 6 \<or> n = 7"
    using assms by arith
  then show ?thesis by (elim disjE) (simp_all add: verdict_def word_sless_alt)
qed

lemmas verdict_msgs = validated_msg_def errors_msg_def unknown_msg_def

text \<open>The verdicts are recognised by the beginning of their text.\<close>

definition is_verdict :: "printf_call \<Rightarrow> bool" where
  "is_verdict m \<longleftrightarrow> take 4 (fst m) \<in> {''Corr'', ''Erro'', ''Cann''}"

lemma verdict_is_verdict: "is_verdict validated_msg" "is_verdict errors_msg" "is_verdict unknown_msg"
  by (simp_all add: is_verdict_def verdict_msgs)

lemma report_no_verdict: "\<forall>m\<in>set (report_results b c t res). \<not> is_verdict m"
  by (simp add: report_results_def is_verdict_def ball_Un)

lemma check_no_verdict: "\<forall>m\<in>set (snd (check_results k res)). \<not> is_verdict m"
  by (simp add: check_results_def check_crc_def is_verdict_def Let_def case_prod_unfold)

lemma known_no_verdict: "\<forall>m\<in>set (snd (snd (known_seeds c))). \<not> is_verdict m"
  by (simp add: known_seeds_def is_verdict_def)

definition known_crcs :: "u16 list" where
  "known_crcs = [0x8a02, 0x7b05, 0x4eaf, 0xe9f5, 0x18f2]"

lemma known_seeds_known:
  assumes "k < 5"
  shows "\<exists>out. known_seeds (known_crcs ! k) = (of_nat k, 0, out)"
proof -
  have "k = 0 \<or> k = 1 \<or> k = 2 \<or> k = 3 \<or> k = 4" using assms by arith
  then show ?thesis by (elim disjE) (simp_all add: known_crcs_def known_seeds_def)
qed

lemma known_seeds_unknown: "c \<notin> set known_crcs \<Longrightarrow> known_seeds c = (-1, -1, [])"
  by (simp add: known_crcs_def known_seeds_def)

lemma filter_verdict: "filter is_verdict (verdict n) = verdict n"
  using verdict_is_verdict by (simp add: verdict_def)

lemma filter_no_verdict: "\<forall>m\<in>set xs. \<not> is_verdict m \<Longrightarrow> filter is_verdict xs = []"
  by (simp add: filter_empty_conv)

lemma report_total:
  "filter is_verdict (snd (main_report b t res)) = verdict
     ((case known_seeds (seed_crc res) of (k, e, out) \<Rightarrow>
         if 0 \<le>s k then e + of_nat (crc_errors (nat (sint k)) res) else e)
      + of_nat (type_errors (sizes b)) + of_bool (time_in_secs t < 10))"
proof -
  obtain e' out' where t: "check_data_types (sizes b) = (e', out')" by fastforce
  have types: "ucast e' = (of_nat (type_errors (sizes b)) :: s16)"
    using type_errors_le [of "sizes b"] check_data_types_eq [of "sizes b"] by (simp add: t ucast_of_nat_u8)
  have "\<forall>m\<in>set (map (\<lambda>m. (m, [])) out'). \<not> is_verdict m"
    using types_no_verdict [of "sizes b"] by (auto simp: is_verdict_def t)
  note tout = filter_no_verdict [OF this]
  obtain k e out where k: "known_seeds (seed_crc res) = (k, e, out)" by (rule prod_cases3)
  have out: "\<forall>m\<in>set out. \<not> is_verdict m" using known_no_verdict [of "seed_crc res"] k by simp
  obtain c out2 where c: "check_results k res = (c, out2)" by fastforce
  have "c = of_nat (crc_errors (nat (sint k)) res)" "\<forall>m\<in>set out2. \<not> is_verdict m"
    using check_results_eq [of k res] check_no_verdict [of k res] c by simp_all
  then show ?thesis
    using out report_no_verdict
    by (simp add: main_report_def k c types tout Let_def filter_verdict filter_no_verdict t)
qed

text \<open>
  C9: for the known seeds the report ends with exactly one verdict, and it validates the
  run if and only if the CRC of every selected algorithm is the known one, the data types
  have their sizes and the run took at least ten seconds.
\<close>

theorem main_report_known:
  assumes "k < 5" "seed_crc res = known_crcs ! k"
  shows "filter is_verdict (snd (main_report b ticks res)) =
    [if (execs res AND 1 \<noteq> 0 \<longrightarrow> crclist res = list_known_crc ! k)
        \<and> (execs res AND 2 \<noteq> 0 \<longrightarrow> crcmatrix res = matrix_known_crc ! k)
        \<and> (execs res AND 4 \<noteq> 0 \<longrightarrow> crcstate res = state_known_crc ! k)
        \<and> fst (check_data_types (sizes b)) = 0 \<and> 10 \<le> time_in_secs ticks
     then validated_msg else errors_msg]"
proof -
  let ?n = "crc_errors k res + type_errors (sizes b) + of_bool (time_in_secs ticks < 10)"
  obtain out where known: "known_seeds (seed_crc res) = (of_nat k, 0, out)"
    using known_seeds_known [OF assms(1)] assms(2) by auto
  have k: "0 \<le>s (of_nat k :: s16)" "nat (sint (of_nat k :: s16)) = k"
    using assms(1) by (simp_all add: word_sle_eq sint_of_nat_u16)
  have "?n \<le> 10" using crc_errors_le [of k res] type_errors_le [of "sizes b"] by simp
  moreover have "filter is_verdict (snd (main_report b ticks res)) = verdict (of_nat ?n)"
    by (simp add: report_total known k)
  ultimately have "filter is_verdict (snd (main_report b ticks res)) = (if ?n = 0 then [validated_msg] else [errors_msg])"
    using verdict_of_nat by presburger
  moreover have "?n = 0 \<longleftrightarrow> crc_errors k res = 0 \<and> fst (check_data_types (sizes b)) = 0 \<and> 10 \<le> time_in_secs ticks"
    by (auto simp: check_data_types_0 not_less)
  moreover have "crc_errors k res = 0 \<longleftrightarrow> (execs res AND 1 \<noteq> 0 \<longrightarrow> crclist res = list_known_crc ! k)
      \<and> (execs res AND 2 \<noteq> 0 \<longrightarrow> crcmatrix res = matrix_known_crc ! k)
      \<and> (execs res AND 4 \<noteq> 0 \<longrightarrow> crcstate res = state_known_crc ! k)"
    by (auto simp: crc_errors_def)
  ultimately show ?thesis by (simp only: conj_assoc if_distrib [of "\<lambda>x. [x]"])
qed

text \<open>The results structure with the seeds and the size of the performance run.\<close>

definition performance_results :: core_results where
  "performance_results = bench_results\<lparr>seed3 := 0x66, res_size := 666\<rparr>"

lemma performance_seed_crc: "seed_crc performance_results = 0xe9f5"
  by code_simp

lemma small_seed_crc: "seed_crc bench_results \<notin> set known_crcs"
  by code_simp

definition rv64_build :: build_info where
  "rv64_build = \<lparr>sizes = \<lparr>sizeof_ee_u8 = 1, sizeof_ee_u16 = 2, sizeof_ee_s16 = 2, sizeof_ee_s32 = 4, sizeof_ee_u32 = 4,
     sizeof_ee_ptr_int = 8, sizeof_int_ptr = 8\<rparr>, sizeof_list_head_s = 16,
     compiler_version = ''GCC'', compiler_flags = ''-O2''\<rparr>"

theorem main_report_known_witness:
  "filter is_verdict (snd (main_report rv64_build 120000000 performance_results)) = [errors_msg]"
  using main_report_known [of 3 performance_results rv64_build 120000000] performance_seed_crc
  by (simp add: performance_results_def bench_results_def small_results_def list_heap.defs known_crcs_def list_known_crc_def)

text \<open>
  C31: for seeds that are not known the report cannot validate the run, and says so when the
  run takes ten seconds. When it takes less, the error count goes from minus one to
  zero, and the report validates the run.
\<close>

theorem main_report_unknown:
  assumes "seed_crc res \<notin> set known_crcs" "fst (check_data_types (sizes b)) = 0"
  shows "filter is_verdict (snd (main_report b ticks res)) =
    [if time_in_secs ticks < 10 then validated_msg else unknown_msg]"
proof -
  have "type_errors (sizes b) = 0" using assms(2) by (simp add: check_data_types_0)
  moreover have "\<not> 0 \<le>s (-1 :: s16)" by (simp add: word_sle_eq)
  ultimately have "filter is_verdict (snd (main_report b ticks res)) =
      verdict (of_nat (of_bool (time_in_secs ticks < 10)) - 1)"
    by (simp add: report_total known_seeds_unknown [OF assms(1)])
  then show ?thesis by (subst (asm) verdict_unknown) simp_all
qed

theorem main_report_unknown_witness:
  "filter is_verdict (snd (main_report rv64_build 90000000 bench_results)) = [validated_msg]"
  using main_report_unknown [OF small_seed_crc, of rv64_build 90000000]
  by (simp add: rv64_build_def check_data_types_def check_type_def Let_def time_in_secs_def)

subsection \<open>From the seeds to the report\<close>

text \<open>
  What the seeds must satisfy for a block part of \<open>sz\<close> bytes: the two seeds of the state
  machine agree, corrupting its input makes no new comma, and the indices of the list
  cells are different.
\<close>

definition seeds_ok :: "u32 \<Rightarrow> core_results \<Rightarrow> bool" where
  "seeds_ok sz r \<longleftrightarrow> (ucast (seed2 r) :: u8) = ucast (seed1 r)
     \<and> (\<forall>b\<in>set (0 # concat state_patterns). b XOR ucast (seed1 r) \<noteq> 0x2C)
     \<and> distinct (map (cell_idx (sz div 20 - 2) (seed1 r)) [0..<unat sz div 20 - 3])"

lemma list_init_ok:
  fixes r :: core_results
  assumes "120 \<le> unat blksize" "distinct (map (cell_idx (blksize div 20 - 2) seed) [0..<unat blksize div 20 - 3])"
  shows "\<exists>p r' xs. core_list_init blksize seed r = Some (p, r') \<and> list_ok (r'\<lparr>res_list := p\<rparr>) xs
    \<and> list_heap.more r' = list_heap.more r"
proof -
  have "5 \<le> unat blksize div 20" using assms(1) by simp
  from list_init_sorted [OF this, of seed r] obtain p r' ys where r':
    "core_list_init blksize seed r = Some (p, r')" "seg (lnext r') p ys None"
    "mset ys = mset [0..<unat blksize div 20 - 3]" "sorted (map (\<lambda>c. sint (lidx r' c)) ys)"
    "\<forall>c\<in>set ys. linfo r' c = c" "\<forall>c\<in>set ys. regen_data (ldata16 r' c) = ldata16 r' c"
    "\<forall>c\<in>set ys. lidx r' c = cell_idx (blksize div 20 - 2) seed c" "list_heap.more r' = list_heap.more r"
    by blast
  have ys: "distinct ys" "length ys = unat blksize div 20 - 3" "set ys = {0..<unat blksize div 20 - 3}"
    using r'(3) by (metis distinct_upt mset_eq_imp_distinct_iff, metis length_upt mset_eq_length diff_zero,
      metis mset_eq_setD set_upt)
  have "inj_on (cell_idx (blksize div 20 - 2) seed) (set ys)" using assms(2) ys(3) by (simp add: distinct_map)
  then have "inj_on (\<lambda>c. sint (lidx r' c)) (set ys)" using r'(7) by (simp add: inj_on_def flip: word_eq_iff_signed)
  then have "sorted_wrt (<) (map (\<lambda>c. sint (lidx r' c)) ys)"
    using r'(4) ys(1) by (simp add: strict_sorted_iff distinct_map)
  moreover have "map (\<lambda>c. sint (lidx r' (linfo r' c))) ys = map (\<lambda>c. sint (lidx r' c)) ys" using r'(5) by simp
  ultimately have "sorted_wrt (<) (map (\<lambda>c. sint (lidx r' (linfo r' c))) ys)" by argo
  moreover have "unat blksize < 2 ^ LENGTH(32)" by (rule unsigned_less)
  then have "3 \<le> length ys" "length ys \<le> 2 ^ 30" using assms(1) ys(2) by simp_all
  ultimately have "list_ok (r'\<lparr>res_list := p\<rparr>) ys" using r' ys(1) by (simp add: list_ok_def)
  with r'(1,8) show ?thesis by blast
qed

lemma matrix_init_returns:
  assumes "unat blksize \<le> 8 * 23170 * 23170"
  shows "\<exists>p A' B'. core_init_matrix blksize memblk seed A B = Some (p, A', B')"
  using core_init_matrix_size_loop [of 0 blksize] assms
  by (auto simp: core_init_matrix_def Let_def case_prod_unfold)

lemma state_init_ok:
  assumes "1 < unat sz" "unat sz + 16 < 2 ^ 32" "length mem = unat sz" "seeds_ok sz r" "res_size r = sz"
  shows "\<exists>m. core_init_state sz seed mem = Some m \<and> state_ok (r\<lparr>memblock3 := m\<rparr>)"
proof -
  from core_init_state_fields [OF assms(1,2), of mem seed] assms(3) obtain pats k where
    m: "core_init_state sz seed mem = Some (state_fields pats @ replicate k 0)"
      "set pats \<subseteq> set state_patterns" "2 \<le> k" "length (state_fields pats) + k = unat sz"
    by auto
  let ?m = "state_fields pats @ replicate k 0"
  have "?m ! (unat sz - 1) = 0" "?m ! (unat sz - 2) = 0" using m(3,4) by (auto simp: nth_append)
  moreover have "b \<in> insert 0x2C (set (0 # concat state_patterns))" if "b \<in> set ?m" for b
    using that m(2) by (auto simp: state_fields_def split: if_splits)
  then have "\<forall>b\<in>set ?m. b \<noteq> 0x2C \<longrightarrow> b XOR ucast (seed1 r) \<noteq> 0x2C"
    using assms(4) unfolding seeds_ok_def by blast
  ultimately have "state_ok (r\<lparr>memblock3 := ?m\<rparr>)"
    using assms m(3,4) by (simp add: state_ok_def seeds_ok_def)
  with m(1) show ?thesis by blast
qed

lemma execs_all:
  fixes ex :: u32
  assumes "ex AND 7 = 7"
  shows "ex AND 1 = 1" "ex AND 2 = 2" "ex AND 4 = 4"
proof -
  have "ex AND n = n" if "7 AND n = n" for n using that assms by (metis and.assoc)
  then show "ex AND 1 = 1" "ex AND 2 = 2" "ex AND 4 = 4" by simp_all
qed

lemma more_fields:
  assumes "list_heap.more r' = list_heap.more r"
  shows "seed1 r' = seed1 r" "seed2 r' = seed2 r" "seed3 r' = seed3 r" "res_size r' = res_size r"
    "iterations r' = iterations r" "execs r' = execs r"
  using assms by (cases r; cases r'; simp)+

lemma main_memory_ok:
  assumes "execs r AND 7 = 7" "360 \<le> length block" "length block \<le> 3 * (8 * 23170 * 23170)" "length block + 16 < 2 ^ 32"
    and "seeds_ok (of_nat (length block) div 3) r"
  shows "\<exists>r' xs. main_memory base block r = Some r' \<and> list_ok r' xs \<and> state_ok r' \<and> iterations r' = iterations r"
proof -
  define sz where "sz = (of_nat (length block) div 3 :: u32)"
  have sz: "unat sz = length block div 3" using assms(4) by (simp add: sz_def unat_div unat_of_nat_small)
  have sel: "selected (execs r) 0" "selected (execs r) 1" "selected (execs r) 2"
    using execs_all [OF assms(1)] by (simp_all add: selected_def and.commute)
  then have n: "count_algorithms (execs r) = 3" by (simp add: count_algorithms_eq)
  let ?r = "r\<lparr>err := 0, res_size := sz\<rparr>"
  have ok: "seeds_ok sz r" using assms(5) by (simp add: sz_def)
  have "120 \<le> unat sz" using sz assms(2) by simp
  from list_init_ok [OF this, of "seed1 r" ?r] ok obtain p r1 xs where
    1: "core_list_init sz (seed1 r) ?r = Some (p, r1)" "list_ok (r1\<lparr>res_list := p\<rparr>) xs"
      "list_heap.more r1 = list_heap.more ?r"
    by (auto simp: seeds_ok_def)
  let ?r1 = "r1\<lparr>res_list := p\<rparr>"
  note f = more_fields [OF 1(3), simplified]
  have "unat sz \<le> 8 * 23170 * 23170" using sz assms(3) by simp
  from matrix_init_returns [OF this] obtain q A B where
    2: "core_init_matrix sz (base + ucast sz) (scast (seed1 r) OR push_bit 16 (scast (seed2 r))) (res_A r1) (res_B r1)
        = Some (q, A, B)"
    by blast
  let ?r2 = "?r1\<lparr>res_N := mat_N q, res_A := A, res_B := B\<rparr>"
  let ?mem = "take (unat sz) (drop (unat (sz * 2)) block)"
  have "unat (sz * 2) = 2 * unat sz" using sz assms(4) by (subst unat_mult_lem [THEN iffD1]) auto
  then have "length ?mem = unat sz" using sz by simp
  moreover have "seeds_ok sz ?r2" "res_size ?r2 = sz" using ok f by (simp_all add: seeds_ok_def)
  moreover have "1 < unat sz" "unat sz + 16 < 2 ^ 32" using sz assms(2,4) by linarith+
  ultimately obtain m where 3: "core_init_state sz (seed1 r) ?mem = Some m" "state_ok (?r2\<lparr>memblock3 := m\<rparr>)"
    using state_init_ok [of sz ?mem ?r2 "seed1 r"] by blast
  have "main_memory base block r = Some (?r2\<lparr>memblock3 := m\<rparr>)"
    using 1(1) 2 3(1) f execs_all [OF assms(1)] sel
    by (simp add: main_memory_def main_inits_def n assign_pointers_eq sz_def [symmetric] Let_def)
  moreover have "list_ok (?r2\<lparr>memblock3 := m\<rparr>) xs" using 1(2) by (simp add: list_ok_def)
  ultimately show ?thesis using 3(2) f(5) by auto
qed

text \<open>The time the run started at reading \<open>n\<close> of the timer takes, as the port measures it.\<close>

definition elapsed :: "(nat \<Rightarrow> u64) \<Rightarrow> nat \<Rightarrow> u32" where
  "elapsed rdtime n = ucast (rdtime (n + 1)) - ucast (rdtime n)"

lemma timed_run_step:
  assumes "list_ok r xs" "state_ok r"
  shows "\<exists>r' t'. timed_run rdtime (r, t) = Some (r', t') \<and> list_ok r' xs \<and> state_ok r'
    \<and> iterations r' = iterations r \<and> clock_reads t' = clock_reads t + 2
    \<and> get_time t' = elapsed rdtime (clock_reads t)"
  using iterate_step [OF assms]
  by (auto simp: timed_run_def start_time_def stop_time_def barebones_clock_def get_time_def elapsed_def inputs_kept_def Let_def)

lemma calibrate_loop_ends:
  assumes "list_ok r xs" "state_ok r" "1 \<le> time_in_secs (elapsed rdtime (clock_reads t + 2 * k))"
  shows "\<exists>secs r' t'. calibrate_loop rdtime r t = Some (secs, r', t') \<and> list_ok r' xs \<and> state_ok r'"
  using assms
proof (induction k arbitrary: r t)
  case (0 r t)
  let ?r = "r\<lparr>iterations := iterations r * 10\<rparr>"
  have "list_ok ?r xs" "state_ok ?r" using 0 by (simp_all add: reset_ok)
  from timed_run_step [OF this, of rdtime t] obtain r1 t1 where "timed_run rdtime (?r, t) = Some (r1, t1)"
    "list_ok r1 xs" "state_ok r1" "get_time t1 = elapsed rdtime (clock_reads t)"
    by auto
  with 0(3) show ?case by (subst calibrate_loop.simps) (auto simp: Let_def not_less)
next
  case (Suc k r t)
  let ?r = "r\<lparr>iterations := iterations r * 10\<rparr>"
  have "list_ok ?r xs" "state_ok ?r" using Suc.prems by (simp_all add: reset_ok)
  from timed_run_step [OF this, of rdtime t] obtain r1 t1 where t1: "timed_run rdtime (?r, t) = Some (r1, t1)"
    "list_ok r1 xs" "state_ok r1" "clock_reads t1 = clock_reads t + 2"
    by auto
  have "1 \<le> time_in_secs (elapsed rdtime (clock_reads t1 + 2 * k))"
    using Suc.prems(3) t1(4) by (simp add: ac_simps)
  with Suc.IH [OF t1(2,3)] t1 show ?case by (subst calibrate_loop.simps) (simp add: Let_def)
qed

lemma calibrate_ends:
  assumes "list_ok r xs" "state_ok r"
    and "iterations r \<noteq> 0 \<or> (\<exists>k. 1 \<le> time_in_secs (elapsed rdtime (clock_reads t + 2 * k)))"
  shows "\<exists>r' t'. calibrate rdtime (r, t) = Some (r', t') \<and> list_ok r' xs \<and> state_ok r'"
proof (cases "iterations r = 0")
  case True
  then obtain k where "1 \<le> time_in_secs (elapsed rdtime (clock_reads t + 2 * k))" using assms(3) by blast
  with calibrate_loop_ends [of "r\<lparr>iterations := 1\<rparr>" xs rdtime t k] assms(1,2) True show ?thesis
    by (auto simp: calibrate_def reset_ok Let_def)
qed (use assms in \<open>simp add: calibrate_def\<close>)

lemma report_list_ok: "list_ok (fst (main_report b t r)) xs = list_ok r xs"
  by (simp add: main_report_def Let_def case_prod_unfold list_ok_err)

lemma verdict_single: "\<exists>m. verdict n = [m]"
  by (simp add: verdict_def) (metis signed.less_imp_not_less signed.neqE)

lemma main_returns:
  assumes "sizeof_list_head_s b \<le> 128" "execs (main_seeds v res) AND 7 = 7"
    and "360 \<le> length block" "length block + 16 < 2 ^ 32"
    and "seeds_ok (of_nat (length block) div 3) (main_seeds v res)"
    and "seed4_volatile v \<noteq> 0 \<or> (\<exists>k. 1 \<le> time_in_secs (elapsed rdtime (clock_reads t + 2 * k)))"
  shows "\<exists>r' t' out xs. main b rdtime v base block (res, t) = Some (0, r', t', out)
    \<and> list_ok r' xs \<and> length (filter is_verdict out) = 1"
proof -
  let ?r = "main_seeds v res"
  have it: "iterations ?r = seed4_volatile v" by (simp add: main_seeds_def get_seed_32_def Let_def)
  have "length block \<le> 3 * (8 * 23170 * 23170)" using assms(4) by simp
  from main_memory_ok [OF assms(2,3) this assms(4,5), of base] obtain r1 xs where
    1: "main_memory base block ?r = Some r1" "list_ok r1 xs" "state_ok r1" "iterations r1 = iterations ?r"
    by blast
  from calibrate_ends [OF 1(2,3), of rdtime t] 1(4) it assms(6) obtain r2 t2 where
    2: "calibrate rdtime (r1, t) = Some (r2, t2)" "list_ok r2 xs" "state_ok r2"
    by auto
  from timed_run_step [OF 2(2,3), of rdtime t2] obtain r3 t3 where
    3: "timed_run rdtime (r2, t2) = Some (r3, t3)" "list_ok r3 xs"
    by blast
  obtain r4 out where 4: "main_report b (get_time t3) r3 = (r4, out)" by fastforce
  then have "list_ok r4 xs" using 3(2) report_list_ok [of b "get_time t3" r3 xs] by simp
  moreover obtain out1 where out1: "portable_init (sizes b) = (out1, 1)" "filter is_verdict out1 = []"
    by (rule that [of "fst (portable_init (sizes b))"]) (simp_all add: portable_init_def is_verdict_def)
  moreover have "\<exists>m. filter is_verdict (snd (main_report b (get_time t3) r3)) = [m]"
    by (subst report_total) (rule verdict_single)
  then have "length (filter is_verdict out) = 1" using 4 by auto
  ultimately show ?thesis
    using assms(1) 1(1) 2(1) 3(1) 4 by (auto simp: main_def portable_fini_def)
qed

text \<open>
  C2: the benchmark runs to its report. With all three algorithms selected, a block of at
  least 360 bytes and seeds that \<open>seeds_ok\<close> admits, \<open>main\<close> returns if the number of
  iterations is given, or else if some calibration run takes a second by the timer; it
  leaves the list intact and prints exactly one verdict.
\<close>

theorem main_completes:
  assumes "sizeof_list_head_s b \<le> 128" "execs (main_seeds v res) AND 7 = 7"
    and "360 \<le> length block" "length block + 16 < 2 ^ 32"
    and "seeds_ok (of_nat (length block) div 3) (main_seeds v res)"
    and "seed4_volatile v \<noteq> 0 \<or> (\<exists>k. 1 \<le> time_in_secs (elapsed rdtime (clock_reads t + 2 * k)))"
  shows "\<exists>r' t' out xs. main b rdtime v base block (res, t) = Some (0, r', t', out)
    \<and> list_ok r' xs \<and> length (filter is_verdict out) = 1"
  using assms by (rule main_returns)

text \<open>The performance run, with the iterations to be calibrated by a timer of 20 MHz.\<close>

definition performance_seeds :: volatile_seeds where
  "performance_seeds = \<lparr>seed1_volatile = 0, seed2_volatile = 0, seed3_volatile = 0x66, seed4_volatile = 0,
     seed5_volatile = 0\<rparr>"

lemma performance_seeds_ok: "seeds_ok 666 (main_seeds performance_seeds bench_results)"
  by code_simp

abbreviation performance_clock :: "nat \<Rightarrow> u64" where
  "performance_clock \<equiv> \<lambda>n. of_nat n * 20000000"

abbreviation start_of_time :: port_time where
  "start_of_time \<equiv> \<lparr>start_time_val = 0, stop_time_val = 0, clock_reads = 0\<rparr>"

lemma performance_premises:
  "sizeof_list_head_s rv64_build \<le> 128" "execs (main_seeds performance_seeds bench_results) AND 7 = 7"
  "360 \<le> length (replicate 2000 (0 :: u8))" "length (replicate 2000 (0 :: u8)) + 16 < 2 ^ 32"
  "seeds_ok (of_nat (length (replicate 2000 (0 :: u8))) div 3) (main_seeds performance_seeds bench_results)"
  "seed4_volatile performance_seeds \<noteq> 0 \<or> (\<exists>k. 1 \<le> time_in_secs (elapsed performance_clock
      (clock_reads start_of_time + 2 * k)))"
proof -
  show "seed4_volatile performance_seeds \<noteq> 0 \<or> (\<exists>k. 1 \<le> time_in_secs (elapsed performance_clock
      (clock_reads start_of_time + 2 * k)))"
    by (intro disjI2 exI [of _ 0]) (simp add: elapsed_def time_in_secs_def)
  show "seeds_ok (of_nat (length (replicate 2000 (0 :: u8))) div 3) (main_seeds performance_seeds bench_results)"
    using performance_seeds_ok by simp
qed (simp_all add: rv64_build_def main_seeds_def performance_seeds_def get_seed_32_def Let_def)

theorem main_completes_witness:
  "\<exists>r' t' out xs. main rv64_build performance_clock performance_seeds 0x80000000 (replicate 2000 0)
      (bench_results, start_of_time) = Some (0, r', t', out)
    \<and> list_ok r' xs \<and> length (filter is_verdict out) = 1"
  by (rule main_completes [OF performance_premises])

lemma performance_returns:
  "\<exists>r' t' out xs. main rv64_build performance_clock performance_seeds 0x80000000 (replicate 2000 0)
      (bench_results, start_of_time) = Some (0, r', t', out)
    \<and> list_ok r' xs \<and> length (filter is_verdict out) = 1"
  by (rule main_returns [OF performance_premises])

end
