(* ===== verification/Guest_Sbi.thy ===== *)
theory Guest_Sbi
  imports Prelude
begin

text \<open>
  The calls of the guests into the firmware: \<open>guests/hellotvm.c\<close>, \<open>guests/covg.c\<close>,
  the console functions of \<open>guests/attestation.c\<close>, and \<open>guests/coremark/riscv/sbi.c\<close>
  with \<open>sbi.h\<close>.

  An \<open>ecall\<close> hands the registers to the firmware, which answers in \<open>a0\<close> and \<open>a1\<close> and
  may write the memory of the guest. The firmware is a parameter. The state of a guest
  is its memory and the calls it has made.
\<close>

section \<open>Model\<close>

record sbi_regs =
  reg_a0 :: u64
  reg_a1 :: u64
  reg_a2 :: u64
  reg_a3 :: u64
  reg_a4 :: u64
  reg_a5 :: u64
  reg_a6 :: u64
  reg_a7 :: u64

type_synonym guest_mem = "u64 \<Rightarrow> u8"
type_synonym firmware = "sbi_regs \<Rightarrow> guest_mem \<Rightarrow> u64 \<times> u64 \<times> guest_mem"
type_synonym guest = "guest_mem \<times> sbi_regs list"

record sbiret =
  ret_error :: s64
  ret_value :: s64

definition sbi_call ::
  "firmware \<Rightarrow> u64 \<Rightarrow> u64 \<Rightarrow> u64 \<Rightarrow> u64 \<Rightarrow> u64 \<Rightarrow> u64 \<Rightarrow> u64 \<Rightarrow> u64 \<Rightarrow> guest \<Rightarrow> sbiret \<times> guest" where
  "sbi_call fw eid fid arg0 arg1 arg2 arg3 arg4 arg5 = (\<lambda>(m, tr).
     let r = \<lparr>reg_a0 = arg0, reg_a1 = arg1, reg_a2 = arg2, reg_a3 = arg3, reg_a4 = arg4, reg_a5 = arg5,
              reg_a6 = fid, reg_a7 = eid\<rparr>;
         (a0, a1, m) = fw r m
     in (\<lparr>ret_error = a0, ret_value = a1\<rparr>, (m, tr @ [r])))"

subsection \<open>The console\<close>

definition sbi_putc :: "firmware \<Rightarrow> u8 \<Rightarrow> guest \<Rightarrow> guest" where
  "sbi_putc fw c g = snd (sbi_call fw 0x4442434E 2 (ucast c) 0 0 0 0 0 g)"

fun print_str :: "firmware \<Rightarrow> cstring \<Rightarrow> guest \<Rightarrow> guest" where
  "print_str fw [] g = g"
| "print_str fw (c # s) g = print_str fw s (sbi_putc fw c g)"

definition hex_digit :: "u8 \<Rightarrow> u8" where
  "hex_digit n = cstr ''0123456789ABCDEF'' ! unat n"

definition print_hex :: "firmware \<Rightarrow> u64 \<Rightarrow> u64 \<Rightarrow> guest \<Rightarrow> guest" where
  "print_hex fw buf len g =
     print_str fw (cstr ''\<newline>'')
       (fold (\<lambda>i g.
          let g = sbi_putc fw (hex_digit (drop_bit 4 (fst g (buf + of_nat i)) AND 0xF)) g;
              g = sbi_putc fw (hex_digit (fst g (buf + of_nat i) AND 0xF)) g
          in if of_nat i < len - 1 \<and> (of_nat i + 1 :: u64) mod 16 = 0
             then print_str fw (cstr ''\<newline>        '') g
             else if of_nat i < len - 1 then sbi_putc fw 0x20 g
             else g)
        [0..<unat len] g)"

text \<open>The digits of \<open>print_uint\<close>, in the order the loop writes them into the buffer.\<close>

function print_uint_buf :: "u64 \<Rightarrow> u8 list" where
  "print_uint_buf val = (if val = 0 then [] else (ucast (val mod 10) + 0x30) # print_uint_buf (val div 10))"
  by auto

termination
  by (relation "measure unat") (auto simp: unat_div unat_gt_0)

declare print_uint_buf.simps [simp del]

definition print_uint :: "firmware \<Rightarrow> u64 \<Rightarrow> guest \<Rightarrow> guest" where
  "print_uint fw val g =
     (if val = 0 then print_str fw (cstr ''0'') g
      else fold (sbi_putc fw) (rev (print_uint_buf val)) g)"

subsection \<open>The hello guest and the evidence request\<close>

definition hello_ecall ::
  "firmware \<Rightarrow> u64 \<Rightarrow> u64 \<Rightarrow> u64 \<Rightarrow> u64 \<Rightarrow> u64 \<Rightarrow> u64 \<Rightarrow> u64 \<Rightarrow> u64 \<Rightarrow> guest \<Rightarrow> sbiret \<times> guest" where
  "hello_ecall fw arg0 arg1 arg2 arg3 arg4 arg5 fid eid = sbi_call fw eid fid arg0 arg1 arg2 arg3 arg4 arg5"

definition hello_putc :: "firmware \<Rightarrow> u8 \<Rightarrow> guest \<Rightarrow> guest" where
  "hello_putc fw c g = snd (hello_ecall fw (ucast c) 0 0 0 0 0 2 0x4442434E g)"

definition hellotvm_main :: "firmware \<Rightarrow> guest \<Rightarrow> guest" where
  "hellotvm_main fw g = fold (hello_putc fw) (cstr ''Hello from TVM (VS-mode)\<newline>'') g"

definition sbi_covg_get_evidence ::
  "firmware \<Rightarrow> u64 \<Rightarrow> u64 \<Rightarrow> u64 \<Rightarrow> u64 \<Rightarrow> u64 \<Rightarrow> u64 \<Rightarrow> guest \<Rightarrow> sbiret \<times> guest" where
  "sbi_covg_get_evidence fw pub_key_addr pub_key_size challenge_data_addr cert_format cert_addr_out cert_size =
     sbi_call fw 0x434F5647 8 pub_key_addr pub_key_size challenge_data_addr cert_format cert_addr_out cert_size"

text \<open>The addresses of the key, the nonce and the output are the linker's.\<close>

definition covg_main :: "firmware \<Rightarrow> u64 \<Rightarrow> u64 \<Rightarrow> u64 \<Rightarrow> guest \<Rightarrow> guest" where
  "covg_main fw public_key nonce certificate_output g =
     snd (sbi_covg_get_evidence fw public_key 44 nonce 0 certificate_output 256 g)"

subsection \<open>The bindings of the CoreMark port\<close>

definition sbi_ecall ::
  "firmware \<Rightarrow> u64 \<Rightarrow> u64 \<Rightarrow> u64 \<Rightarrow> u64 \<Rightarrow> u64 \<Rightarrow> u64 \<Rightarrow> s32 \<Rightarrow> s32 \<Rightarrow> guest \<Rightarrow> sbiret \<times> guest" where
  "sbi_ecall fw arg0 arg1 arg2 arg3 arg4 arg5 ext fid =
     sbi_call fw (scast ext) (scast fid) arg0 arg1 arg2 arg3 arg4 arg5"

definition sbi_base_ecall :: "firmware \<Rightarrow> s32 \<Rightarrow> guest \<Rightarrow> s64 \<times> guest" where
  "sbi_base_ecall fw fid g =
     (let (ret, g) = sbi_ecall fw 0 0 0 0 0 0 0x10 fid g
      in (if ret_error ret = 0 then ret_value ret else ret_error ret, g))"

definition sbi_get_spec_version :: "firmware \<Rightarrow> guest \<Rightarrow> s64 \<times> guest" where
  "sbi_get_spec_version fw = sbi_base_ecall fw 0"

definition sbi_get_firmware_id :: "firmware \<Rightarrow> guest \<Rightarrow> s64 \<times> guest" where
  "sbi_get_firmware_id fw = sbi_base_ecall fw 1"

definition sbi_get_firmware_version :: "firmware \<Rightarrow> guest \<Rightarrow> s64 \<times> guest" where
  "sbi_get_firmware_version fw = sbi_base_ecall fw 2"

definition sbi_get_mvendorid :: "firmware \<Rightarrow> guest \<Rightarrow> s64 \<times> guest" where
  "sbi_get_mvendorid fw = sbi_base_ecall fw 4"

definition sbi_get_marchid :: "firmware \<Rightarrow> guest \<Rightarrow> s64 \<times> guest" where
  "sbi_get_marchid fw = sbi_base_ecall fw 5"

definition sbi_get_mimpid :: "firmware \<Rightarrow> guest \<Rightarrow> s64 \<times> guest" where
  "sbi_get_mimpid fw = sbi_base_ecall fw 6"

definition sbi_console_write_byte :: "firmware \<Rightarrow> u8 \<Rightarrow> guest \<Rightarrow> s32 \<times> guest" where
  "sbi_console_write_byte fw ch g =
     (let (ret, g) = sbi_ecall fw (ucast ch) 0 0 0 0 0 0x4442434E 2 g in (ucast (ret_error ret), g))"

definition sbi_console_write :: "firmware \<Rightarrow> u64 \<Rightarrow> u64 \<Rightarrow> guest \<Rightarrow> s32 \<times> guest" where
  "sbi_console_write fw str num_bytes g =
     (let (ret, g) = sbi_ecall fw num_bytes str 0 0 0 0 0x4442434E 0 g in (ucast (ret_error ret), g))"

section \<open>Properties\<close>

text \<open>
  Function 2 of the debug console extension writes a byte to the console and leaves the
  memory of the caller alone.
\<close>

definition console_ok :: "firmware \<Rightarrow> bool" where
  "console_ok fw \<longleftrightarrow> (\<forall>r m. reg_a7 r = 0x4442434E \<and> reg_a6 r = 2 \<longrightarrow> snd (snd (fw r m)) = m)"

text \<open>The call that writes a byte, and the operations that write given bytes and nothing else.\<close>

definition putc_regs :: "u8 \<Rightarrow> sbi_regs" where
  "putc_regs c = \<lparr>reg_a0 = ucast c, reg_a1 = 0, reg_a2 = 0, reg_a3 = 0, reg_a4 = 0, reg_a5 = 0,
     reg_a6 = 2, reg_a7 = 0x4442434E\<rparr>"

definition puts :: "u8 list \<Rightarrow> guest \<Rightarrow> guest" where
  "puts bs = (\<lambda>(m, tr). (m, tr @ map putc_regs bs))"

named_theorems console \<open>what the printing functions write\<close>

lemma puts_Nil [simp]: "puts [] g = g"
  by (simp add: puts_def case_prod_unfold)

lemma puts_puts [console]: "puts bs (puts as g) = puts (as @ bs) g"
  by (simp add: puts_def case_prod_unfold)

lemma fst_puts [simp]: "fst (puts bs g) = fst g"
  by (simp add: puts_def case_prod_unfold)

lemma sbi_putc_puts [console]: "console_ok fw \<Longrightarrow> sbi_putc fw c g = puts [c] g"
  by (auto simp: sbi_putc_def sbi_call_def puts_def putc_regs_def console_ok_def Let_def split: prod.splits)
    (metis (mono_tags) sbi_regs.select_convs(7,8) snd_conv)+

lemma print_str_puts [console]: "console_ok fw \<Longrightarrow> print_str fw s g = puts s g"
  by (induction s arbitrary: g) (simp_all add: console)

lemma fold_putc_puts [console]: "console_ok fw \<Longrightarrow> fold (sbi_putc fw) s g = puts s g"
  by (induction s arbitrary: g) (simp_all add: console)

subsection \<open>Numbers\<close>

lemma print_uint_buf_digits: "val \<noteq> 0 \<Longrightarrow> print_uint_buf val = rev (dec_string (unat val))"
proof (induction val rule: print_uint_buf.induct)
  case (1 val)
  have "ucast (val mod 10) = (of_nat (unat (val mod 10)) :: u8)" by simp
  then have digit: "ucast (val mod 10) + 0x30 = dec_char (unat val mod 10)"
    by (simp add: dec_char_def unat_mod)
  have small: "val div 10 = 0 \<longleftrightarrow> unat val < 10"
    by (simp add: word_unat_eq_iff unat_div div_eq_0_iff)
  show ?case
  proof (cases "unat val < 10")
    case True
    with digit small "1.prems" show ?thesis
      by (simp add: print_uint_buf.simps [of val] print_uint_buf.simps [of 0] dec_string_def
          digits_of.simps [of 10 "unat val"])
  next
    case False
    with "1.IH" "1.prems" small have "print_uint_buf (val div 10) = rev (dec_string (unat val div 10))"
      by (simp add: unat_div)
    with digit False "1.prems" show ?thesis
      by (simp add: print_uint_buf.simps [of val] dec_string_def digits_of.simps [of 10 "unat val"])
  qed
qed

lemma print_uint_puts [console]: "console_ok fw \<Longrightarrow> print_uint fw val g = puts (dec_string (unat val)) g"
  by (simp add: print_uint_def console print_uint_buf_digits)
    (simp add: cstr_def dec_string_def dec_char_def digits_of.simps)

text \<open>The digits fit the buffer of 21 characters.\<close>

lemma print_uint_buf_fits: "length (print_uint_buf val) \<le> 20"
proof (cases "val = 0")
  case False
  have "unat val < 2 ^ LENGTH(64)" by (rule unsigned_less)
  then have "unat val < 10 ^ 20" by simp
  with length_digits_of [of 10 "unat val" 20] False show ?thesis
    by (simp add: print_uint_buf_digits dec_string_def)
qed (simp add: print_uint_buf.simps [of 0])

subsection \<open>Bytes\<close>

text \<open>The bytes \<open>bs\<close> lie in memory from address \<open>a\<close> on, below the end of the address space.\<close>

definition holds :: "guest_mem \<Rightarrow> u64 \<Rightarrow> u8 list \<Rightarrow> bool" where
  "holds m a bs \<longleftrightarrow> unat a + length bs < 2 ^ 64 \<and> (\<forall>k<length bs. m (a + of_nat k) = bs ! k)"

definition hex_sep :: "nat \<Rightarrow> nat \<Rightarrow> u8 list" where
  "hex_sep n i = (if i + 1 < n then if (i + 1) mod 16 = 0 then cstr ''\<newline>        '' else [0x20] else [])"

definition hex_text :: "u8 list \<Rightarrow> u8 list" where
  "hex_text bs = concat (map (\<lambda>i. [hex_digit (drop_bit 4 (bs ! i) AND 0xF), hex_digit (bs ! i AND 0xF)]
     @ hex_sep (length bs) i) [0..<length bs]) @ cstr ''\<newline>''"

lemma fold_puts: "(\<And>i g. i \<in> set is \<Longrightarrow> fst g = m \<Longrightarrow> f i g = puts (t i) g) \<Longrightarrow> fst g = m \<Longrightarrow>
    fold f is g = puts (concat (map t is)) g"
  by (induction "is" arbitrary: g) (simp_all add: console)

lemma print_hex_puts:
  assumes "console_ok fw" "holds (fst g) buf bs" "unat len = length bs"
  shows "print_hex fw buf len g = puts (hex_text bs) g"
proof -
  let ?f = "\<lambda>i g. let g = sbi_putc fw (hex_digit (drop_bit 4 (fst g (buf + of_nat i)) AND 0xF)) g;
              g = sbi_putc fw (hex_digit (fst g (buf + of_nat i) AND 0xF)) g
          in if of_nat i < len - 1 \<and> (of_nat i + 1 :: u64) mod 16 = 0
             then print_str fw (cstr ''\<newline>        '') g
             else if of_nat i < len - 1 then sbi_putc fw 0x20 g
             else g"
  have step: "?f i h = puts ([hex_digit (drop_bit 4 (bs ! i) AND 0xF), hex_digit (bs ! i AND 0xF)] @ hex_sep (length bs) i) h"
    if "i \<in> set [0..<unat len]" "fst h = fst g" for i h
  proof -
    have i: "i < length bs" using that assms(3) by simp
    then have byte: "fst h (buf + of_nat i) = bs ! i" using assms(2) that(2) by (simp add: holds_def)
    have "length bs < 2 ^ 64" using assms(2) by (simp add: holds_def)
    then have u: "unat (of_nat i :: u64) = i" "unat (of_nat (i + 1) :: u64) = i + 1"
      using i by (auto intro!: unat_of_nat_small simp del: of_nat_add of_nat_Suc)
    have "unat (len - 1) = length bs - 1" using i assms(3) by (subst unat_minus_one) auto
    with u i have w: "of_nat i < len - 1 \<longleftrightarrow> i + 1 < length bs" "(of_nat i + 1 :: u64) mod 16 = 0 \<longleftrightarrow> (i + 1) mod 16 = 0"
      by (auto simp: word_less_nat_alt word_unat_eq_iff [of "_ mod _"] unat_mod add.commute [of "of_nat i" 1]
          mod_eq_0_iff_dvd)
    show ?thesis using assms(1) byte w by (simp add: console hex_sep_def Let_def)
  qed
  then show ?thesis
    using fold_puts [of "[0..<unat len]" "fst g" ?f] assms(1,3)
    by (simp add: print_hex_def console hex_text_def)
qed

end
