(* ===== verification/Guest_Evidence.thy ===== *)
theory Guest_Evidence
  imports Guest_Sbi
begin

text \<open>
  \<open>guests/attestation.c\<close>: the guest that asks the TSM for attestation evidence, and its
  CBOR parser.

  Pointers are addresses of 64 bits, and pointer arithmetic wraps as on the machine. The
  cursor, the major type and the value are the variables \<open>curr\<close>, \<open>mt\<close> and \<open>val\<close> the parser
  hands to \<open>cbor_read_head\<close>, which leaves the last two alone where it returns early. A
  computation is \<open>None\<close> when it does not return, or when the counter of the loop over the
  unprotected headers overflows.
\<close>

section \<open>Model\<close>

type_synonym cbor_state = "u64 \<times> u8 \<times> u64"

text \<open>The loop that reads an argument of several bytes, big endian.\<close>

definition cbor_be :: "guest_mem \<Rightarrow> u64 \<Rightarrow> nat \<Rightarrow> u64" where
  "cbor_be m cur n = fold (\<lambda>i v. push_bit 8 v OR ucast (m (cur + of_nat i))) [0..<n] 0"

definition cbor_read_head :: "guest_mem \<Rightarrow> u64 \<Rightarrow> cbor_state \<Rightarrow> int \<times> cbor_state" where
  "cbor_read_head m fin = (\<lambda>(cur, mt, val).
     if fin \<le> cur then (-1, cur, mt, val)
     else
       let byte = m cur;
           cur = cur + 1;
           mt = drop_bit 5 byte AND 0x07;
           info = byte AND 0x1F
       in if info < 24 then (0, cur, mt, ucast info)
          else if info = 24 then
            if fin < cur + 1 then (-1, cur, mt, val) else (0, cur + 1, mt, ucast (m cur))
          else if info = 25 then
            if fin < cur + 2 then (-1, cur, mt, val)
            else (0, cur + 2, mt, push_bit 8 (ucast (m cur)) OR ucast (m (cur + 1)))
          else if info = 26 then
            if fin < cur + 4 then (-1, cur, mt, val) else (0, cur + 4, mt, cbor_be m cur 4)
          else if info = 27 then
            if fin < cur + 8 then (-1, cur, mt, val) else (0, cur + 8, mt, cbor_be m cur 8)
          else (-1, cur, mt, val))"

text \<open>
  \<open>cbor_skip\<close> called \<open>n\<close> times in a row, up to the first failure; the array and the map
  case of the function are such loops.
\<close>

partial_function (option) cbor_skips :: "guest_mem \<Rightarrow> u64 \<Rightarrow> u64 \<Rightarrow> u64 \<Rightarrow> (int \<times> u64) option" where
  "cbor_skips m fin n cur =
     (if n = 0 then Some (0, cur)
      else let (r, cur, mt, val) = cbor_read_head m fin (cur, 0, 0)
      in if r \<noteq> 0 then Some (-1, cur)
         else if mt = 0 \<or> mt = 1 then cbor_skips m fin (n - 1) cur
         else if mt = 2 \<or> mt = 3 then
           if fin < cur + val then Some (-1, cur) else cbor_skips m fin (n - 1) (cur + val)
         else if mt = 4 \<or> mt = 5 \<or> mt = 6 then
           do {
             (r, cur) \<leftarrow> cbor_skips m fin (if mt = 4 then val else if mt = 5 then val * 2 else 1) cur;
             if r \<noteq> 0 then Some (-1, cur) else cbor_skips m fin (n - 1) cur
           }
         else Some (-1, cur))"

declare cbor_skips.simps [code]

definition cbor_skip :: "guest_mem \<Rightarrow> u64 \<Rightarrow> u64 \<Rightarrow> (int \<times> u64) option" where
  "cbor_skip m fin cur = cbor_skips m fin 1 cur"

definition debug_cursor :: "firmware \<Rightarrow> cstring \<Rightarrow> u64 \<Rightarrow> u64 \<Rightarrow> guest \<Rightarrow> guest" where
  "debug_cursor fw label cur lookahead g =
     print_hex fw cur lookahead
       (print_str fw (cstr '']: '') (print_str fw label (print_str fw (cstr ''    DEBUG ['') g)))"

subsection \<open>The evidence\<close>

text \<open>A line with a message and a major type, or with a message, a number and a rest.\<close>

definition print_mt :: "firmware \<Rightarrow> string \<Rightarrow> u8 \<Rightarrow> guest \<Rightarrow> guest" where
  "print_mt fw msg mt g = print_str fw (cstr ''\<newline>'') (print_uint fw (ucast mt) (print_str fw (cstr msg) g))"

definition print_val :: "firmware \<Rightarrow> string \<Rightarrow> u64 \<Rightarrow> string \<Rightarrow> guest \<Rightarrow> guest" where
  "print_val fw msg v rest g = print_str fw (cstr rest) (print_uint fw v (print_str fw (cstr msg) g))"

text \<open>
  The tags before an item. The result of this and of the following steps says whether
  the parser goes on.
\<close>

partial_function (option) evidence_tags ::
  "firmware \<Rightarrow> u64 \<Rightarrow> cbor_state \<Rightarrow> guest \<Rightarrow> (bool \<times> cbor_state \<times> guest) option" where
  "evidence_tags fw fin st g =
     (if fst (snd st) = 6 then
        let val = snd (snd st);
            g = print_val fw ''    [Info] Tag: '' val '''' g;
            g = (if val = 18 then print_str fw (cstr '' (COSE_Sign1)'') g else g);
            g = print_str fw (cstr ''\<newline>'') g;
            (r, st) = cbor_read_head (fst g) fin st
        in if r \<noteq> 0 then Some (False, st, g) else evidence_tags fw fin st g
      else Some (True, st, g))"

declare evidence_tags.simps [code]

definition evidence_protected :: "firmware \<Rightarrow> u64 \<Rightarrow> cbor_state \<Rightarrow> guest \<Rightarrow> bool \<times> cbor_state \<times> guest" where
  "evidence_protected fw fin st g =
     (let (_, cur, mt, val) = cbor_read_head (fst g) fin st
      in if mt = 2 then (True, (cur + val, mt, val), g)
         else (False, (cur, mt, val), print_mt fw ''    Err: Protected Header must be BSTR. Got MT='' mt g))"

text \<open>The loop over the unprotected headers ignores the result of \<open>cbor_skip\<close>.\<close>

fun skip_headers :: "guest_mem \<Rightarrow> u64 \<Rightarrow> nat \<Rightarrow> u64 \<Rightarrow> u64 option" where
  "skip_headers m fin 0 cur = Some cur"
| "skip_headers m fin (Suc k) cur = Option.bind (cbor_skip m fin cur) (\<lambda>(_, cur). skip_headers m fin k cur)"

definition evidence_unprotected ::
  "firmware \<Rightarrow> u64 \<Rightarrow> cbor_state \<Rightarrow> guest \<Rightarrow> (bool \<times> cbor_state \<times> guest) option" where
  "evidence_unprotected fw fin st g =
     (let (_, cur, mt, val) = cbor_read_head (fst g) fin st
      in if mt = 5 then
           if unat (val * 2) < 2 ^ 31
           then map_option (\<lambda>cur. (True, (cur, mt, val), g)) (skip_headers (fst g) fin (unat (val * 2)) cur)
           else None
         else Some (False, (cur, mt, val), print_mt fw ''    Err: Unprotected Header must be MAP. Got MT='' mt g))"

definition evidence_payload ::
  "firmware \<Rightarrow> u64 \<Rightarrow> nat \<Rightarrow> cbor_state \<Rightarrow> guest \<Rightarrow> bool \<times> cbor_state \<times> guest" where
  "evidence_payload fw fin i st g =
     (let (_, cur, mt, val) = cbor_read_head (fst g) fin st
      in if mt = 7 \<and> val = 22 then
           (True, (cur, mt, val), print_str fw (cstr ''    Payload: [NULL] (Detached content)\<newline>'') g)
         else if mt = 2 then
           let g = print_val fw ''    Payload: '' val '' bytes\<newline>'' g
           in if fin < cur + val
              then (False, (cur, mt, val), print_str fw (cstr ''    Err: Buffer Overflow\<newline>'') g)
              else
                let g = (if i = 2 \<and> 0 < val
                         then print_hex fw cur (if 16 < val then 16 else val)
                                (print_str fw (cstr ''    Preview: '') g)
                         else g)
                in (True, (cur + val, mt, val), g)
         else (False, (cur, mt, val), print_mt fw ''    Err: Payload must be BSTR or NULL. Got MT='' mt g))"

definition evidence_signature :: "firmware \<Rightarrow> u64 \<Rightarrow> cbor_state \<Rightarrow> guest \<Rightarrow> bool \<times> cbor_state \<times> guest" where
  "evidence_signature fw fin st g =
     (let (_, cur, mt, val) = cbor_read_head (fst g) fin st
      in if mt = 2 then
           (True, (cur + val, mt, val), print_val fw ''    Signature: '' val '' bytes\<newline>'' g)
         else (False, (cur, mt, val), print_mt fw ''    Err: Signature must be BSTR. Got MT='' mt g))"

text \<open>The four fields of an item.\<close>

definition evidence_fields ::
  "firmware \<Rightarrow> u64 \<Rightarrow> nat \<Rightarrow> cbor_state \<Rightarrow> guest \<Rightarrow> (bool \<times> cbor_state \<times> guest) option" where
  "evidence_fields fw fin i st g =
     do {
       let (ok, st, g) = evidence_protected fw fin st g;
       if \<not> ok then Some (False, st, g) else do {
         (ok, st, g) \<leftarrow> evidence_unprotected fw fin st g;
         if \<not> ok then Some (False, st, g) else do {
           let (ok, st, g) = evidence_payload fw fin i st g;
           if \<not> ok then Some (False, st, g)
           else Some (evidence_signature fw fin st g)
         }
       }
     }"

definition layer_names :: "string list" where
  "layer_names = [''Platform'', ''TSM     '', ''TVM     '']"

definition evidence_layer ::
  "firmware \<Rightarrow> u64 \<Rightarrow> nat \<Rightarrow> cbor_state \<Rightarrow> guest \<Rightarrow> (bool \<times> cbor_state \<times> guest) option" where
  "evidence_layer fw fin i st g =
     (let g = print_str fw (cstr ''  --------------------------------------------------\<newline>'') g;
          g = print_str fw (cstr ''  Layer: '') g;
          g = print_str fw (cstr (layer_names ! i)) g;
          g = print_str fw (cstr ''\<newline>'') g;
          item_start = fst st;
          (r, st) = cbor_read_head (fst g) fin st
      in if r \<noteq> 0 then Some (False, st, print_str fw (cstr ''    Err: Unexpected End\<newline>'') g)
         else do {
           (ok, st, g) \<leftarrow> evidence_tags fw fin st g;
           if \<not> ok then Some (False, st, g)
           else if fst (snd st) \<noteq> 4 \<or> snd (snd st) \<noteq> 4 then
             let g = print_val fw ''    ERROR: Expected COSE Array(4). Got MT='' (ucast (fst (snd st))) '''' g;
                 g = print_val fw '' Val='' (snd (snd st)) ''\<newline>'' g
             in Some (False, st, debug_cursor fw (cstr ''BAD BYTES'') item_start 16 g)
           else evidence_fields fw fin i st g
         })"

fun evidence_layers ::
  "firmware \<Rightarrow> u64 \<Rightarrow> nat list \<Rightarrow> cbor_state \<Rightarrow> guest \<Rightarrow> guest option" where
  "evidence_layers fw fin [] st g =
     Some (print_str fw (cstr ''  --------------------------------------------------\<newline>'') g)"
| "evidence_layers fw fin (i # is) st g =
     do {
       (ok, st, g) \<leftarrow> evidence_layer fw fin i st g;
       if ok then evidence_layers fw fin is st g else Some g
     }"

definition parse_and_print_evidence :: "firmware \<Rightarrow> u64 \<Rightarrow> u64 \<Rightarrow> guest \<Rightarrow> guest option" where
  "parse_and_print_evidence fw data len g =
     (let fin = data + len;
          g = print_str fw (cstr ''[GUEST] Parsing Evidence CBOR...\<newline>'') g;
          (r, st) = cbor_read_head (fst g) fin (data, 0, 0)
      in if r \<noteq> 0 then Some (print_str fw (cstr ''Err: Stream Empty\<newline>'') g)
         else if fst (snd st) \<noteq> 4 \<or> snd (snd st) \<noteq> 3 then
           let g = print_val fw ''Error: Expected Evidence Array(3), got MT='' (ucast (fst (snd st))) '''' g
           in Some (print_val fw '' Len='' (snd (snd st)) ''\<newline>'' g)
         else evidence_layers fw fin [0, 1, 2] st g)"

text \<open>The guest up to the loop that halts it; the two buffers are at the linker's addresses.\<close>

definition attestation_main :: "firmware \<Rightarrow> u64 \<Rightarrow> u64 \<Rightarrow> guest \<Rightarrow> guest option" where
  "attestation_main fw challenge cert_buffer g =
     (let g = print_str fw (cstr ''\<newline>==========================================\<newline>'') g;
          g = print_str fw (cstr ''[GUEST] TVM Started. Initializing Test...\<newline>'') g;
          g = (fold (\<lambda>i m. m(challenge + of_nat i := 0xAA)) [0..<64] (fst g), snd g);
          g = print_str fw (cstr ''[GUEST] Challenge Data prepared (0xAA...)\<newline>'') g;
          g = (fold (\<lambda>i m. m(cert_buffer + of_nat i := 0)) [0..<4096] (fst g), snd g);
          g = print_str fw (cstr ''[GUEST] Invoking SBI_COVG_GET_EVIDENCE...\<newline>'') g;
          (ret, g) = sbi_call fw 0x434F5647 8 0 0 challenge 0 cert_buffer 4096 g
      in do {
        g \<leftarrow> (if ret_error ret \<noteq> 0 then
               Some (print_val fw ''[GUEST] SBI Call Failed! Error: '' (ret_error ret) ''\<newline>'' g)
             else
               let evidence_len = ret_value ret;
                   g = print_str fw (cstr ''[GUEST] Success! Evidence received.\<newline>'') g;
                   g = print_val fw ''[GUEST] Total Size: '' evidence_len '' bytes.\<newline>'' g
               in do {
                 g \<leftarrow> parse_and_print_evidence fw cert_buffer evidence_len g;
                 let g = print_str fw (cstr ''[GUEST] Raw Dump:\<newline>'') g;
                 Some (print_hex fw cert_buffer evidence_len g)
               });
        Some (print_str fw (cstr ''[GUEST] Test Complete. Halting.\<newline>'') g)
      })"

section \<open>Properties\<close>

subsection \<open>The encoding of heads\<close>

fun big_endian :: "nat \<Rightarrow> u64 \<Rightarrow> u8 list" where
  "big_endian 0 v = []"
| "big_endian (Suc n) v = big_endian n (drop_bit 8 v) @ [ucast v]"

text \<open>The head of a CBOR item (RFC 8949): the major type and the shortest form of the argument.\<close>

definition cbor_head :: "u8 \<Rightarrow> u64 \<Rightarrow> u8 list" where
  "cbor_head mt v =
     (if v < 24 then [push_bit 5 mt OR ucast v]
      else if v < 2 ^ 8 then (push_bit 5 mt OR 24) # big_endian 1 v
      else if v < 2 ^ 16 then (push_bit 5 mt OR 25) # big_endian 2 v
      else if v < 2 ^ 32 then (push_bit 5 mt OR 26) # big_endian 4 v
      else (push_bit 5 mt OR 27) # big_endian 8 v)"

text \<open>The forms of a head a reader has to take: the argument in as many bytes or more.\<close>

definition is_head :: "u8 \<Rightarrow> u64 \<Rightarrow> u8 list \<Rightarrow> bool" where
  "is_head mt v h \<longleftrightarrow>
     v < 24 \<and> h = [push_bit 5 mt OR ucast v] \<or>
     take_bit 8 v = v \<and> h = (push_bit 5 mt OR 24) # big_endian 1 v \<or>
     take_bit 16 v = v \<and> h = (push_bit 5 mt OR 25) # big_endian 2 v \<or>
     take_bit 32 v = v \<and> h = (push_bit 5 mt OR 26) # big_endian 4 v \<or>
     h = (push_bit 5 mt OR 27) # big_endian 8 v"

lemma length_big_endian [simp]: "length (big_endian n v) = n"
  by (induction n arbitrary: v) simp_all

lemma big_endian_value: "fold (\<lambda>b v. push_bit 8 v OR ucast b) (big_endian n v) 0 = take_bit (8 * n) v"
proof (induction n arbitrary: v)
  case (Suc n)
  have "push_bit 8 (take_bit (8 * n) (drop_bit 8 v)) OR ucast (ucast v :: u8) = take_bit (8 * Suc n) v"
    by (rule bit_word_eqI) (auto simp: bit_simps)
  with Suc show ?case by simp
qed simp

text \<open>The bytes lie in memory from \<open>a\<close> on, and end at or before \<open>fin\<close>.\<close>

definition within :: "guest_mem \<Rightarrow> u64 \<Rightarrow> u64 \<Rightarrow> u8 list \<Rightarrow> bool" where
  "within m fin a bs \<longleftrightarrow> unat a + length bs \<le> unat fin \<and> (\<forall>k<length bs. m (a + of_nat k) = bs ! k)"

lemma within_unat:
  fixes a fin :: u64
  assumes "unat a + k \<le> unat fin"
  shows "unat (a + of_nat k) = unat a + k"
proof -
  have "unat fin < 2 ^ LENGTH(64)" by (rule unsigned_less)
  then have "unat (of_nat k :: u64) = k" "unat a + unat (of_nat k :: u64) < 2 ^ LENGTH(64)"
    using assms by (simp_all add: unat_of_nat_small)
  then show ?thesis by (simp only: unat_add_lem [THEN iffD1])
qed

lemma all_less_add: "(\<forall>k<n + l. P k) \<longleftrightarrow> (\<forall>k<n. P k) \<and> (\<forall>k<l. P (n + k))" for n l :: nat
  by (metis add_less_cancel_left le_add_diff_inverse less_add_eq_less nat_add_left_cancel_less not_less trans_less_add1)

lemma within_append:
  "within m fin a (xs @ ys) \<longleftrightarrow> within m fin a xs \<and> within m fin (a + of_nat (length xs)) ys"
proof (cases "unat a + length xs \<le> unat fin")
  case True
  then show ?thesis
    by (simp add: within_def all_less_add within_unat nth_append add.assoc) blast
qed (simp add: within_def)

lemma head_byte:
  fixes mt info :: u8
  assumes "mt < 8" "info < 32"
  shows "drop_bit 5 (push_bit 5 mt OR info) AND 7 = mt" "(push_bit 5 mt OR info) AND 0x1F = info"
proof -
  have b: "\<not> bit mt 3" "\<not> bit mt 4" "\<not> bit mt 5" "\<not> bit mt 6" "\<not> bit mt 7" using less_power_bits [of mt 3] assms(1)  by simp_all
  have c: "\<not> bit info 5" "\<not> bit info 6" "\<not> bit info 7" using less_power_bits [of info 5] assms(2) by simp_all
  show "drop_bit 5 (push_bit 5 mt OR info) AND 7 = mt" using b c by (simp add: word_bits)
  show "(push_bit 5 mt OR info) AND 0x1F = info"
    using b c by (simp add: word_bits)
qed

lemma cbor_be_value:
  assumes "within m fin cur (big_endian n v)"
  shows "cbor_be m cur n = take_bit (8 * n) v"
proof -
  let ?bs = "big_endian n v"
  have "cbor_be m cur n = fold (\<lambda>i v. push_bit 8 v OR ucast (?bs ! i)) [0..<n] 0"
    unfolding cbor_be_def by (rule fold_cong) (use assms in \<open>auto simp: within_def\<close>)
  also have "\<dots> = fold (\<lambda>b v. push_bit 8 v OR ucast b) (map (nth ?bs) [0..<n]) 0"
    by (simp add: fold_map comp_def)
  also have "map (nth ?bs) [0..<n] = ?bs" by (metis length_big_endian map_nth)
  finally show ?thesis by (simp only: big_endian_value)
qed

lemma less_power_take: "v < 2 ^ n \<Longrightarrow> take_bit n v = v" for v :: "'a::len word"
  by (rule bit_word_eqI) (auto simp: bit_simps not_less [symmetric] dest: less_power_bits)

lemma small_argument:
  fixes v :: u64
  assumes "v < 24"
  shows "(ucast v :: u8) < 24" "ucast (ucast v :: u8) = v"
proof -
  have v: "unat v < 24" using assms by (simp add: word_less_nat_alt)
  then have u: "unat (ucast v :: u8) = unat v" by (simp add: unsigned_ucast_eq take_bit_nat_eq_self unat_take_bit_nat)
  then show "(ucast v :: u8) < 24" using v by (simp add: word_less_nat_alt)
  show "ucast (ucast v :: u8) = v"
    using v u by (subst word_unat_eq_iff) (simp add: unsigned_ucast_eq take_bit_nat_eq_self unat_take_bit_nat)
qed

lemma cbor_be_1_2:
  "cbor_be m cur (Suc 0) = ucast (m cur)" "cbor_be m cur 2 = push_bit 8 (ucast (m cur)) OR ucast (m (cur + 1))"
  by (simp_all add: cbor_be_def upt_rec)

text \<open>Reading a head of the long form with \<open>n\<close> bytes.\<close>

lemma read_long:
  assumes "mt < 8" "within m fin cur ((push_bit 5 mt OR info) # big_endian n v)" "info < 32"
  shows "m cur = push_bit 5 mt OR info" "cur < fin" "\<not> fin < cur + 1 + of_nat n"
    "cbor_be m (cur + 1) n = take_bit (8 * n) v"
proof -
  have w: "within m fin cur [push_bit 5 mt OR info]" "within m fin (cur + 1) (big_endian n v)"
    using assms(2) within_append [of m fin cur "[push_bit 5 mt OR info]" "big_endian n v"] by simp_all
  then show "m cur = push_bit 5 mt OR info" "cur < fin" by (auto simp: within_def word_less_nat_alt)
  have "unat (cur + of_nat (1 + n)) \<le> unat fin"
    using assms(2) by (subst within_unat [where fin = fin]) (auto simp: within_def)
  then show "\<not> fin < cur + 1 + of_nat n" by (simp add: not_less word_le_nat_alt ac_simps)
  show "cbor_be m (cur + 1) n = take_bit (8 * n) v" by (rule cbor_be_value [OF w(2)])
qed

lemma is_head_cbor_head: "is_head mt v (cbor_head mt v)"
  by (auto simp: is_head_def cbor_head_def intro!: less_power_take)

lemma read_head:
  assumes "mt < 8" "is_head mt v h" "within m fin cur h"
  shows "cbor_read_head m fin (cur, mt0, v0) = (0, cur + of_nat (length h), mt, v)"
proof -
  note b = head_byte [OF assms(1)]
  from assms(2) consider "v < 24" "h = [push_bit 5 mt OR ucast v]"
    | "take_bit 8 v = v" "h = (push_bit 5 mt OR 24) # big_endian 1 v"
    | "take_bit 16 v = v" "h = (push_bit 5 mt OR 25) # big_endian 2 v"
    | "take_bit 32 v = v" "h = (push_bit 5 mt OR 26) # big_endian 4 v"
    | "h = (push_bit 5 mt OR 27) # big_endian 8 v"
    unfolding is_head_def by blast
  then show ?thesis
  proof cases
    case 1
    have "(ucast v :: u8) < 32" using small_argument(1) [OF 1(1)] by (simp add: word_less_nat_alt)
    from b [OF this] small_argument [OF 1(1)] assms(3) 1 show ?thesis
      by (simp add: cbor_read_head_def within_def word_le_nat_alt Let_def)
  next
    case 2
    from read_long [OF assms(1) assms(3) [unfolded 2(2)]] 2 b [of 24] show ?thesis
      by (simp add: cbor_read_head_def cbor_be_1_2 Let_def not_le)
  next
    case 3
    from read_long [OF assms(1) assms(3) [unfolded 3(2)]] 3 b [of 25] show ?thesis
      by (simp add: cbor_read_head_def cbor_be_1_2 Let_def not_le)
  next
    case 4
    from read_long [OF assms(1) assms(3) [unfolded 4(2)]] 4 b [of 26] show ?thesis
      by (simp add: cbor_read_head_def Let_def not_le)
  next
    case 5
    from read_long [OF assms(1) assms(3) [unfolded 5]] 5 b [of 27] show ?thesis
      by (simp add: cbor_read_head_def Let_def not_le take_bit_word_eq_self)
  qed
qed

lemmas read_head_ok = read_head [OF _ is_head_cbor_head]

subsection \<open>Skipping items\<close>

text \<open>
  The bytes of \<open>n\<close> items in a row, of the major types 0 to 6 with a definite length: every
  head in any of its forms, the items inside an array, a map and a tag again such items.
\<close>

inductive cbor_items :: "nat \<Rightarrow> u8 list \<Rightarrow> bool" where
  none: "cbor_items 0 []"
| scalar: "mt = 0 \<or> mt = 1 \<Longrightarrow> is_head mt v h \<Longrightarrow> cbor_items n bs \<Longrightarrow> cbor_items (Suc n) (h @ bs)"
| string: "mt = 2 \<or> mt = 3 \<Longrightarrow> is_head mt v h \<Longrightarrow> unat v = length t \<Longrightarrow> cbor_items n bs \<Longrightarrow> cbor_items (Suc n) (h @ t @ bs)"
| array: "is_head 4 v h \<Longrightarrow> cbor_items (unat v) xs \<Longrightarrow> cbor_items n bs \<Longrightarrow> cbor_items (Suc n) (h @ xs @ bs)"
| dict: "is_head 5 v h \<Longrightarrow> cbor_items (2 * unat v) xs \<Longrightarrow> cbor_items n bs \<Longrightarrow> cbor_items (Suc n) (h @ xs @ bs)"
| tag: "is_head 6 v h \<Longrightarrow> cbor_items 1 xs \<Longrightarrow> cbor_items n bs \<Longrightarrow> cbor_items (Suc n) (h @ xs @ bs)"

lemma is_head_nonempty: "is_head mt v h \<Longrightarrow> 1 \<le> length h"
  by (auto simp: is_head_def)

lemma cbor_items_length: "cbor_items n bs \<Longrightarrow> n \<le> length bs"
  by (induction rule: cbor_items.induct) (auto dest!: is_head_nonempty)

lemma within_length: "within m fin a bs \<Longrightarrow> length bs < 2 ^ 64"
proof -
  assume "within m fin a bs"
  moreover have "unat fin < 2 ^ LENGTH(64)" by (rule unsigned_less)
  ultimately show ?thesis by (simp add: within_def)
qed

text \<open>\<open>fin\<close> does not lie before the end of a byte string that is there.\<close>

lemma within_end: "within m fin a bs \<Longrightarrow> \<not> fin < a + of_nat (length bs)"
  by (auto simp: within_def not_less word_le_nat_alt within_unat [where fin = fin])

lemma u8_below_4: "mt < 4 \<Longrightarrow> mt \<in> {0, 1, 2, 3 :: u8}"
proof -
  assume "mt < 4"
  then have "unat mt \<in> {0, 1, 2, 3}" by (auto simp: word_less_nat_alt)
  then show ?thesis by (auto simp: word_unat_eq_iff)
qed

lemma skips_0 [simp]: "cbor_skips m fin 0 cur = Some (0, cur)"
  by (subst cbor_skips.simps) simp

text \<open>
  One round of the loop: an item without items inside, and one with \<open>l\<close> items inside that
  are already known to be skipped.
\<close>

lemma skips_flat:
  assumes "is_head mt v h" "within m fin cur (h @ t)" "mt < 4" "t = [] \<and> mt < 2 \<or> 2 \<le> mt \<and> unat v = length t" "n \<noteq> 0"
  shows "cbor_skips m fin n cur = cbor_skips m fin (n - 1) (cur + of_nat (length (h @ t)))"
proof -
  have w: "within m fin cur h" "within m fin (cur + of_nat (length h)) t" using assms(2) by (simp_all add: within_append)
  have "mt < 8" using assms(3) by (simp add: word_less_nat_alt)
  note head = read_head [OF this assms(1) w(1), of 0 0]
  have "v = of_nat (length t)" if "2 \<le> mt" 
  proof -
    have "unat v = length t" using assms(4) that by (auto simp: word_less_nat_alt word_le_nat_alt)
    then show ?thesis by (metis of_nat_unat ucast_id)
  qed
  moreover have "mt \<in> {0, 1} \<or> mt \<in> {2, 3}" using assms(3) u8_below_4 by auto
  ultimately show ?thesis using head within_end [OF w(2)] assms(4,5)
    by (subst cbor_skips.simps) (auto simp: add.assoc word_le_nat_alt)
qed

lemma skips_nested:
  assumes "is_head mt v h" "within m fin cur (h @ xs)" "n \<noteq> 0" "mt = 4 \<or> mt = 5 \<or> mt = 6"
    and "of_nat l = (if mt = 4 then v else if mt = 5 then v * 2 else 1)"
    and "cbor_skips m fin (of_nat l) (cur + of_nat (length h)) = Some (0, cur + of_nat (length h) + of_nat (length xs))"
  shows "cbor_skips m fin n cur = cbor_skips m fin (n - 1) (cur + of_nat (length (h @ xs)))"
proof -
  have w: "within m fin cur h" using assms(2) by (simp add: within_append)
  have "mt < 8" using assms(4) by (auto simp: word_less_nat_alt)
  from read_head [OF this assms(1) w, of 0 0] show ?thesis
    using assms(3-6) by (subst cbor_skips.simps) (auto simp: add.assoc)
qed

lemma suc_count:
  fixes k :: u64
  assumes "Suc n + unat k < 2 ^ 64"
  shows "of_nat (Suc n) + k \<noteq> 0" "of_nat (Suc n) + k - 1 = of_nat n + k" "n + unat k < 2 ^ 64"
proof -
  have "of_nat (Suc n) + k = of_nat (Suc n + unat k)" by simp
  moreover have "unat (of_nat (Suc n + unat k) :: u64) = Suc n + unat k" using assms by (intro unat_of_nat_small) simp
  ultimately have "unat (of_nat (Suc n) + k) \<noteq> 0" by (metis add_Suc nat.distinct(1))
  then show "of_nat (Suc n) + k \<noteq> 0" by (metis unat_0)
  show "of_nat (Suc n) + k - 1 = of_nat n + k" "n + unat k < 2 ^ 64" using assms by simp_all
qed

lemma skips_items:
  assumes "cbor_items n bs" "within m fin cur bs" "n + unat k < 2 ^ 64"
  shows "cbor_skips m fin (of_nat n + k) cur = cbor_skips m fin k (cur + of_nat (length bs))"
  using assms
proof (induction arbitrary: cur k rule: cbor_items.induct)
  case (scalar mt v h n bs)
  note c = suc_count [OF scalar.prems(2)]
  from scalar.prems(1) scalar.hyps have "within m fin cur (h @ [])" "mt < 4" "mt < 2" by (auto simp: within_append)
  from skips_flat [OF scalar.hyps(2) this(1,2) _ c(1)] this(3) scalar.IH [of "cur + of_nat (length h)" k] scalar.prems(1) c
  show ?case by (simp add: within_append add.assoc)
next
  case (string mt v h t n bs)
  note c = suc_count [OF string.prems(2)]
  from string.prems(1) string.hyps have "within m fin cur (h @ t)" "mt < 4" "2 \<le> mt" by (auto simp: within_append)
  from skips_flat [OF string.hyps(2) this(1,2) _ c(1)] this(3) string.hyps(3) string.IH [of "cur + of_nat (length (h @ t))" k]
    string.prems(1) c
  show ?case by (simp add: within_append add.assoc)
next
  case (array v h xs n bs)
  note c = suc_count [OF array.prems(2)]
  from array.prems(1) have w: "within m fin cur (h @ xs)" "within m fin (cur + of_nat (length h)) xs"
    by (simp_all add: within_append add.assoc)
  have "unat v + unat (0 :: u64) < 2 ^ 64" using cbor_items_length [OF array.hyps(2)] within_length [OF w(2)] by simp
  from array.IH(1) [OF w(2) this] skips_nested [OF array.hyps(1) w(1) c(1), of "unat v"]
    array.IH(2) [of "cur + of_nat (length (h @ xs))" k] array.prems(1) c
  show ?case by (simp add: within_append add.assoc)
next
  case (dict v h xs n bs)
  note c = suc_count [OF dict.prems(2)]
  from dict.prems(1) have w: "within m fin cur (h @ xs)" "within m fin (cur + of_nat (length h)) xs"
    by (simp_all add: within_append add.assoc)
  have "2 * unat v + unat (0 :: u64) < 2 ^ 64" using cbor_items_length [OF dict.hyps(2)] within_length [OF w(2)] by simp
  from dict.IH(1) [OF w(2) this] skips_nested [OF dict.hyps(1) w(1) c(1), of "2 * unat v"]
    dict.IH(2) [of "cur + of_nat (length (h @ xs))" k] dict.prems(1) c
  show ?case by (simp add: within_append add.assoc mult.commute)
next
  case (tag v h xs n bs)
  note c = suc_count [OF tag.prems(2)]
  from tag.prems(1) have w: "within m fin cur (h @ xs)" "within m fin (cur + of_nat (length h)) xs"
    by (simp_all add: within_append add.assoc)
  from tag.IH(1) [OF w(2), of 0] skips_nested [OF tag.hyps(1) w(1) c(1), of 1]
    tag.IH(2) [of "cur + of_nat (length (h @ xs))" k] tag.prems(1) c
  show ?case by (simp add: within_append add.assoc)
qed simp

lemma skip_item:
  "cbor_items 1 bs \<Longrightarrow> within m fin cur bs \<Longrightarrow> cbor_skip m fin cur = Some (0, cur + of_nat (length bs))"
  using skips_items [of 1 bs m fin cur 0] by (simp add: cbor_skip_def)

lemma skip_simple:
  assumes "is_head 7 v h" "within m fin cur h"
  shows "cbor_skip m fin cur = Some (-1, cur + of_nat (length h))"
  using read_head [OF _ assms, of 0 0] by (simp add: cbor_skip_def cbor_skips.simps [of m fin 1 cur])

text \<open>
  C14: \<open>cbor_skip\<close> returns on every item of the major types 0 to 6 with a definite length
  that lies before the end, however deeply nested and with every head in any of its
  forms, and moves the cursor exactly behind it. It refuses an item of major type 7, a
  simple value such as null, with the cursor behind its head, although its comment says
  that it skips an item.
\<close>

theorem cbor_skip_encoded:
  "(cbor_items 1 bs \<and> within m fin cur bs \<longrightarrow> cbor_skip m fin cur = Some (0, cur + of_nat (length bs))) \<and>
   (is_head 7 v h \<and> within m fin cur h \<longrightarrow> cbor_skip m fin cur = Some (-1, cur + of_nat (length h)))"
  using skip_item skip_simple by blast

text \<open>A memory with the given bytes at an address.\<close>

definition byte_mem :: "u64 \<Rightarrow> u8 list \<Rightarrow> guest_mem" where
  "byte_mem base bs a = (if unat (a - base) < length bs then bs ! unat (a - base) else 0)"

lemma within_byte_mem:
  assumes "unat base + length bs \<le> unat fin"
  shows "within (byte_mem base bs) fin base bs"
proof -
  have "unat fin < 2 ^ LENGTH(64)" by (rule unsigned_less)
  then have "unat (of_nat k :: u64) = k" if "k < length bs" for k
    using that assms by (intro unat_of_nat_small) simp
  with assms show ?thesis by (simp add: within_def byte_mem_def)
qed

text \<open>An array of a number in the shortest form and a byte string whose length takes two bytes.\<close>

definition small_array :: "u8 list" where
  "small_array = [0x82, 0x01, 0x59, 0x00, 0x02, 0xAA, 0xBB]"

lemma small_array_item: "cbor_items 1 small_array"
proof -
  have "big_endian 2 2 = [0x00, 0x02]" by code_simp
  then have "is_head 2 2 [0x59, 0x00, 0x02]" by (simp add: is_head_def)
  then have "cbor_items (Suc 0) ([0x59, 0x00, 0x02] @ [0xAA, 0xBB] @ [])"
    by (intro cbor_items.string [of 2 2] cbor_items.none) simp_all
  then have "cbor_items (Suc 1) ([0x01] @ [0x59, 0x00, 0x02, 0xAA, 0xBB])"
    by (intro cbor_items.scalar [of 0 1]) (simp_all add: is_head_def)
  then have "cbor_items 2 ([0x01] @ [0x59, 0x00, 0x02, 0xAA, 0xBB])" by (simp only: Suc_1)
  then have "cbor_items (Suc 0) ([0x82] @ ([0x01] @ [0x59, 0x00, 0x02, 0xAA, 0xBB]) @ [])"
    by (intro cbor_items.array [of 2] cbor_items.none) (simp_all add: is_head_def)
  then show ?thesis by (simp add: small_array_def)
qed

theorem cbor_skip_encoded_witness:
  "cbor_skip (byte_mem 0x1000 small_array) 0x1007 0x1000 = Some (0, 0x1007) \<and>
   cbor_skip (byte_mem 0x1000 [0xF6]) 0x1001 0x1000 = Some (-1, 0x1001)"
proof -
  have "within (byte_mem 0x1000 small_array) 0x1007 0x1000 small_array" "within (byte_mem 0x1000 [0xF6]) 0x1001 0x1000 [0xF6]"
    by (rule within_byte_mem, simp add: small_array_def)+
  moreover have "length small_array = 7" "is_head 7 22 [0xF6]" by (simp_all add: small_array_def is_head_def)
  ultimately show ?thesis
    using cbor_skip_encoded [of small_array "byte_mem 0x1000 small_array" "0x1007" "0x1000"] small_array_item
      cbor_skip_encoded [of _ "byte_mem 0x1000 [0xF6]" "0x1001" "0x1000" 22 "[0xF6]"] by simp
qed

text \<open>
  C33: the end test of \<open>cbor_skip\<close> adds the length to the cursor first, and the sum wraps.
  A byte string that claims \<open>2 ^ 64 - 9\<close> bytes passes it, and the cursor goes back to
  the head of that byte string.
\<close>

theorem cbor_skip_wraps:
  assumes "within m fin cur (cbor_head 2 (-9))"
  shows "cbor_skip m fin cur = Some (0, cur)"
proof -
  have head: "length (cbor_head 2 (-9)) = 9" by (simp add: cbor_head_def)
  have "cur < fin" using assms head by (simp add: within_def word_less_nat_alt)
  then show ?thesis using read_head_ok [OF _ assms, of 0 0] head
    by (simp add: cbor_skip_def cbor_skips.simps [of m fin 1 cur] not_less)
qed

theorem cbor_skip_wraps_witness:
  "cbor_skip (byte_mem 0x1000 [0x5B, 0xFF, 0xFF, 0xFF, 0xFF, 0xFF, 0xFF, 0xFF, 0xF7]) 0x1009 0x1000 = Some (0, 0x1000)"
proof (rule cbor_skip_wraps)
  have "cbor_head 2 (-9) = [0x5B, 0xFF, 0xFF, 0xFF, 0xFF, 0xFF, 0xFF, 0xFF, 0xF7]"
    by code_simp
  then show "within (byte_mem 0x1000 [0x5B, 0xFF, 0xFF, 0xFF, 0xFF, 0xFF, 0xFF, 0xFF, 0xF7]) 0x1009 0x1000
      (cbor_head 2 (-9))"
    using within_byte_mem [of "0x1000" _ "0x1009"] by simp
qed

subsection \<open>The evidence\<close>

text \<open>The parts of one layer of evidence: a signed COSE item, perhaps tagged.\<close>

definition enc_bytes :: "u8 list \<Rightarrow> u8 list" where
  "enc_bytes bs = cbor_head 2 (of_nat (length bs)) @ bs"

text \<open>A map whose keys and values are given as encoded items.\<close>

definition enc_map :: "(u8 list \<times> u8 list) list \<Rightarrow> u8 list" where
  "enc_map ps = cbor_head 5 (of_nat (length ps)) @ concat (map (\<lambda>(k, v). k @ v) ps)"

record layer =
  lay_tags :: "u64 list"
  lay_protected :: "u8 list"
  lay_headers :: "(u8 list \<times> u8 list) list"
  lay_payload :: "u8 list option"
  lay_signature :: "u8 list"

definition enc_payload :: "u8 list option \<Rightarrow> u8 list" where
  "enc_payload p = (case p of None \<Rightarrow> cbor_head 7 22 | Some bs \<Rightarrow> enc_bytes bs)"

definition enc_fields :: "layer \<Rightarrow> u8 list" where
  "enc_fields l = enc_bytes (lay_protected l) @ enc_map (lay_headers l)
     @ enc_payload (lay_payload l) @ enc_bytes (lay_signature l)"

definition enc_layer :: "layer \<Rightarrow> u8 list" where
  "enc_layer l = concat (map (cbor_head 6) (lay_tags l)) @ cbor_head 4 4 @ enc_fields l"

text \<open>
  The keys and values of the headers are items \<open>cbor_skip\<close> can skip, and few enough for the
  \<open>int\<close> that counts them.
\<close>

definition layer_wf :: "layer \<Rightarrow> bool" where
  "layer_wf l \<longleftrightarrow> 2 * length (lay_headers l) < 2 ^ 31 \<and> (\<forall>(k, v)\<in>set (lay_headers l). cbor_items 1 k \<and> cbor_items 1 v)"

definition tag_text :: "u64 \<Rightarrow> u8 list" where
  "tag_text t = cstr ''    [Info] Tag: '' @ dec_string (unat t)
     @ (if t = 18 then cstr '' (COSE_Sign1)'' else []) @ cstr ''\<newline>''"

definition payload_text :: "nat \<Rightarrow> u8 list option \<Rightarrow> u8 list" where
  "payload_text i p = (case p of
     None \<Rightarrow> cstr ''    Payload: [NULL] (Detached content)\<newline>''
   | Some bs \<Rightarrow> cstr ''    Payload: '' @ dec_string (length bs) @ cstr '' bytes\<newline>''
       @ (if i = 2 \<and> bs \<noteq> [] then cstr ''    Preview: '' @ hex_text (take 16 bs) else []))"

definition layer_text :: "nat \<Rightarrow> layer \<Rightarrow> u8 list" where
  "layer_text i l = cstr ''  --------------------------------------------------\<newline>'' @ cstr ''  Layer: ''
     @ cstr (layer_names ! i) @ cstr ''\<newline>'' @ concat (map tag_text (lay_tags l)) @ payload_text i (lay_payload l)
     @ cstr ''    Signature: '' @ dec_string (length (lay_signature l)) @ cstr '' bytes\<newline>''"

lemma layer_wfD:
  "layer_wf l \<Longrightarrow> 2 * length (lay_headers l) < 2 ^ 31"
  "layer_wf l \<Longrightarrow> \<forall>(k, v)\<in>set (lay_headers l). cbor_items 1 k \<and> cbor_items 1 v"
  by (simp_all add: layer_wf_def)

lemma print_mt_val_puts [console]:
  "console_ok fw \<Longrightarrow> print_mt fw msg mt g = puts (cstr msg @ dec_string (unat mt) @ cstr ''\<newline>'') g"
  "console_ok fw \<Longrightarrow> print_val fw msg v rest g = puts (cstr msg @ dec_string (unat v) @ cstr rest) g"
  by (simp_all add: print_mt_def print_val_def console unat_ucast_up)

lemma evidence_tags_step:
  assumes "console_ok fw" "cbor_read_head (fst g) fin (cur, 6, t) = (0, st)"
  shows "evidence_tags fw fin (cur, 6, t) g = evidence_tags fw fin st (puts (tag_text t) g)"
  using assms by (subst evidence_tags.simps, cases "t = 18") (simp_all add: console tag_text_def Let_def)

lemma tags_ok:
  assumes "console_ok fw" "within (fst g) fin cur (concat (map (cbor_head 6) ts) @ cbor_head 4 4)"
  shows "evidence_tags fw fin (cur, 6, t) g =
    Some (True, (cur + of_nat (length (concat (map (cbor_head 6) ts) @ cbor_head 4 4)), 4, 4),
      puts (concat (map tag_text (t # ts))) g)"
  using assms(2)
proof (induction ts arbitrary: t cur g)
  case Nil
  then have "cbor_read_head (fst g) fin (cur, 6, t) = (0, cur + of_nat (length (cbor_head 4 4)), 4, 4)"
    by (simp add: read_head_ok)
  from evidence_tags_step [OF assms(1) this] show ?case
    by (simp add: evidence_tags.simps [of _ _ "(_, 4, 4)"])
next
  case (Cons u ts)
  then have r: "cbor_read_head (fst g) fin (cur, 6, t) = (0, cur + of_nat (length (cbor_head 6 u)), 6, u)"
    by (simp add: read_head_ok within_append)
  have w: "within (fst (puts (tag_text t) g)) fin (cur + of_nat (length (cbor_head 6 u)))
      (concat (map (cbor_head 6) ts) @ cbor_head 4 4)"
    using Cons.prems by (simp add: within_append add.assoc)
  show ?case using evidence_tags_step [OF assms(1) r] Cons.IH [OF w, of u]
    by (simp add: console add.assoc)
qed

text \<open>The head of a byte string and its bytes.\<close>

lemma read_bytes:
  assumes "within m fin cur (enc_bytes bs)"
  defines "cur' \<equiv> cur + of_nat (length (cbor_head 2 (of_nat (length bs))))"
  shows "cbor_read_head m fin (cur, mt, v) = (0, cur', 2, of_nat (length bs))" "within m fin cur' bs"
    "cur' + of_nat (length bs) = cur + of_nat (length (enc_bytes bs))" "unat (of_nat (length bs) :: u64) = length bs"
  using assms within_length [of m fin cur' bs]
  by (simp_all add: enc_bytes_def within_append read_head_ok unat_of_nat_small)

lemma protected_ok:
  "within (fst g) fin cur (enc_bytes bs) \<Longrightarrow>
    evidence_protected fw fin (cur, mt, v) g =
      (True, (cur + of_nat (length (enc_bytes bs)), 2, of_nat (length bs)), g)"
  using read_bytes [where m = "fst g" and fin = fin and cur = cur and bs = bs] by (simp add: evidence_protected_def)

lemma signature_ok:
  "console_ok fw \<Longrightarrow> within (fst g) fin cur (enc_bytes bs) \<Longrightarrow>
    evidence_signature fw fin (cur, mt, v) g =
      (True, (cur + of_nat (length (enc_bytes bs)), 2, of_nat (length bs)),
       puts (cstr ''    Signature: '' @ dec_string (length bs) @ cstr '' bytes\<newline>'') g)"
  using read_bytes [where m = "fst g" and fin = fin and cur = cur and bs = bs] by (simp add: evidence_signature_def console)

lemma skip_headers_ok:
  "within m fin cur (concat xs) \<Longrightarrow> \<forall>x\<in>set xs. cbor_items 1 x \<Longrightarrow>
    skip_headers m fin (length xs) cur = Some (cur + of_nat (length (concat xs)))"
proof (induction xs arbitrary: cur)
  case (Cons x xs)
  then have "within m fin cur x" "within m fin (cur + of_nat (length x)) (concat xs)"
    by (simp_all add: within_append)
  from skip_item [OF _ this(1)] Cons.IH [OF this(2)] Cons.prems(2) show ?case by (simp add: add.assoc)
qed simp

text \<open>The keys and values of a map in the order of their encodings.\<close>

definition entries :: "(u8 list \<times> u8 list) list \<Rightarrow> u8 list list" where
  "entries ps = concat (map (\<lambda>(k, v). [k, v]) ps)"

lemma entries_simps:
  "length (entries ps) = 2 * length ps" "concat (entries ps) = concat (map (\<lambda>(k, v). k @ v) ps)"
  "(\<forall>x\<in>set (entries ps). P x) \<longleftrightarrow> (\<forall>(k, v)\<in>set ps. P k \<and> P v)"
proof -
  show "length (entries ps) = 2 * length ps" "concat (entries ps) = concat (map (\<lambda>(k, v). k @ v) ps)"
    by (induction ps) (simp_all add: entries_def case_prod_unfold)
  show "(\<forall>x\<in>set (entries ps). P x) \<longleftrightarrow> (\<forall>(k, v)\<in>set ps. P k \<and> P v)"
    by (induction ps) (simp_all add: entries_def ball_Un case_prod_unfold)
qed

lemma unprotected_ok:
  assumes "within (fst g) fin cur (enc_map ps)" "2 * length ps < 2 ^ 31" "\<forall>(k, v)\<in>set ps. cbor_items 1 k \<and> cbor_items 1 v"
  shows "evidence_unprotected fw fin (cur, mt, v) g =
    Some (True, (cur + of_nat (length (enc_map ps)), 5, of_nat (length ps)), g)"
proof -
  have "unat (of_nat (2 * length ps) :: u64) = 2 * length ps" using assms(2) by (intro unat_of_nat_small) simp
  then have u: "unat (of_nat (length ps) * 2 :: u64) = 2 * length ps" by (simp add: mult.commute)
  let ?c = "cur + of_nat (length (cbor_head 5 (of_nat (length ps))))"
  have w: "within (fst g) fin cur (cbor_head 5 (of_nat (length ps)))" "within (fst g) fin ?c (concat (entries ps))"
    using assms(1) by (simp_all add: enc_map_def within_append entries_simps(2))
  have "skip_headers (fst g) fin (2 * length ps) ?c = Some (cur + of_nat (length (enc_map ps)))"
    using skip_headers_ok [OF w(2)] assms(3) entries_simps(1) [of ps] by (simp add: entries_simps(2,3) enc_map_def add.assoc)
  with u assms(2) read_head_ok [OF _ w(1), of mt v] show ?thesis by (simp add: evidence_unprotected_def)
qed

lemma within_holds_take: "within m fin a bs \<Longrightarrow> holds m a (take n bs)"
proof -
  assume w: "within m fin a bs"
  have "unat fin < 2 ^ LENGTH(64)" by (rule unsigned_less)
  moreover have "length (take n bs) \<le> length bs" by simp
  ultimately show ?thesis using w by (auto simp: holds_def within_def)
qed

lemma preview_ok:
  assumes "console_ok fw" "within (fst g) fin cur bs" "unat val = length bs"
  shows "print_hex fw cur (if 16 < val then 16 else val) g = puts (hex_text (take 16 bs)) g"
proof (rule print_hex_puts [OF assms(1)])
  show "holds (fst g) cur (take 16 bs)" by (rule within_holds_take [OF assms(2)])
  show "unat (if 16 < val then 16 else val) = length (take 16 bs)"
    using assms(3) by (auto simp: word_less_nat_alt)
qed

lemma payload_ok:
  assumes "console_ok fw" "within (fst g) fin cur (enc_payload p)"
  shows "\<exists>mt' v'. evidence_payload fw fin i (cur, mt, v) g =
    (True, (cur + of_nat (length (enc_payload p)), mt', v'), puts (payload_text i p) g)"
proof (cases p)
  case None
  with assms read_head_ok [of 7 "fst g" fin cur 22 mt v] show ?thesis
    by (simp add: enc_payload_def evidence_payload_def payload_text_def console)
next
  case (Some bs)
  with assms(2) have w: "within (fst g) fin cur (enc_bytes bs)" by (simp add: enc_payload_def)
  note r = read_bytes [OF w]
  let ?c = "cur + of_nat (length (cbor_head 2 (of_nat (length bs))))"
  let ?g = "puts (cstr ''    Payload: '' @ dec_string (length bs) @ cstr '' bytes\<newline>'') g"
  have hex: "print_hex fw ?c (if 16 < (of_nat (length bs) :: u64) then 16 else of_nat (length bs))
      (puts (cstr ''    Preview: '') ?g) = puts (hex_text (take 16 bs)) (puts (cstr ''    Preview: '') ?g)"
    by (rule preview_ok [where fin = fin]) (use assms(1) r(2,4) in simp_all)
  have "0 < (of_nat (length bs) :: u64) \<longleftrightarrow> bs \<noteq> []" using r(4) by (simp add: word_less_nat_alt)
  with r(1,3,4) within_end [OF r(2)] hex assms(1) Some show ?thesis
    by (simp add: evidence_payload_def enc_payload_def payload_text_def console Let_def)
qed

lemma fields_ok:
  assumes "console_ok fw" "layer_wf l"
    and "within (fst g) fin cur (enc_fields l)"
  shows "\<exists>mt' v'. evidence_fields fw fin i (cur, mt, v) g =
    Some (True, (cur + of_nat (length (enc_fields l)), mt', v'),
      puts (payload_text i (lay_payload l) @ cstr ''    Signature: '' @ dec_string (length (lay_signature l))
        @ cstr '' bytes\<newline>'') g)"
proof -
  let ?c1 = "cur + of_nat (length (enc_bytes (lay_protected l)))"
  let ?c2 = "?c1 + of_nat (length (enc_map (lay_headers l)))"
  let ?c3 = "?c2 + of_nat (length (enc_payload (lay_payload l)))"
  have w: "within (fst g) fin cur (enc_bytes (lay_protected l))" "within (fst g) fin ?c1 (enc_map (lay_headers l))"
    "within (fst g) fin ?c2 (enc_payload (lay_payload l))" "within (fst g) fin ?c3 (enc_bytes (lay_signature l))"
    using assms(3) by (simp_all only: within_append enc_fields_def)
  obtain mt' v' where p: "evidence_payload fw fin i (?c2, 5, of_nat (length (lay_headers l))) g =
      (True, (?c3, mt', v'), puts (payload_text i (lay_payload l)) g)"
    using payload_ok [OF assms(1) w(3)] by blast
  from signature_ok [OF assms(1), of "puts (payload_text i (lay_payload l)) g" fin ?c3 "lay_signature l"] w(4) p
  show ?thesis
    by (simp add: evidence_fields_def protected_ok [OF w(1)] unprotected_ok [OF w(2) assms(2) [THEN layer_wfD(1)] assms(2) [THEN layer_wfD(2)]] console add.assoc enc_fields_def
       )
qed

text \<open>The tags and the head of the array, read from the start of a layer.\<close>

lemma layer_head_ok:
  assumes "console_ok fw" "within (fst g) fin cur (concat (map (cbor_head 6) ts) @ cbor_head 4 4)"
  shows "\<exists>st. cbor_read_head (fst g) fin (cur, mt, v) = (0, st) \<and> evidence_tags fw fin st g =
    Some (True, (cur + of_nat (length (concat (map (cbor_head 6) ts) @ cbor_head 4 4)), 4, 4),
      puts (concat (map tag_text ts)) g)"
proof (cases ts)
  case Nil
  with assms(2) read_head_ok [of 4 "fst g" fin cur 4 mt v] show ?thesis
    by (simp add: evidence_tags.simps [of _ _ "(_, 4, 4)"])
next
  case (Cons t us)
  with assms(2) have w: "within (fst g) fin cur (cbor_head 6 t)"
    "within (fst g) fin (cur + of_nat (length (cbor_head 6 t))) (concat (map (cbor_head 6) us) @ cbor_head 4 4)"
    by (simp_all add: within_append add.assoc)
  from read_head_ok [OF _ w(1), of mt v] tags_ok [OF assms(1) w(2), of t] show ?thesis
    by (simp add: Cons add.assoc)
qed

lemma layer_ok:
  assumes "console_ok fw" "layer_wf l" "within (fst g) fin cur (enc_layer l)"
  shows "\<exists>mt' v'. evidence_layer fw fin i (cur, mt, v) g =
    Some (True, (cur + of_nat (length (enc_layer l)), mt', v'), puts (layer_text i l) g)"
proof -
  let ?tags = "concat (map (cbor_head 6) (lay_tags l)) @ cbor_head 4 4"
  let ?t = "cstr ''  --------------------------------------------------\<newline>'' @ cstr ''  Layer: ''
    @ cstr (layer_names ! i) @ cstr ''\<newline>''"
  let ?g = "puts (?t @ concat (map tag_text (lay_tags l))) g"
  have w: "within (fst (puts ?t g)) fin cur ?tags" "within (fst ?g) fin (cur + of_nat (length ?tags)) (enc_fields l)"
    using assms(3) by (simp_all add: enc_layer_def within_append add.assoc)
  obtain st where st: "cbor_read_head (fst g) fin (cur, mt, v) = (0, st)"
    "evidence_tags fw fin st (puts ?t g) = Some (True, (cur + of_nat (length ?tags), 4, 4), ?g)"
    using layer_head_ok [OF assms(1) w(1), of mt v] by (auto simp: console)
  obtain mt' v' where f: "evidence_fields fw fin i (cur + of_nat (length ?tags), 4, 4) ?g =
    Some (True, (cur + of_nat (length ?tags) + of_nat (length (enc_fields l)), mt', v'),
      puts (payload_text i (lay_payload l) @ cstr ''    Signature: '' @ dec_string (length (lay_signature l))
        @ cstr '' bytes\<newline>'') ?g)"
    using fields_ok [OF assms(1,2) w(2)] by blast
  have out: "print_str fw (cstr ''\<newline>'') (print_str fw (cstr (layer_names ! i)) (print_str fw (cstr ''  Layer: '')
      (print_str fw (cstr ''  --------------------------------------------------\<newline>'') g))) = puts ?t g"
    using assms(1) by (simp add: console)
  have "evidence_layer fw fin i (cur, mt, v) g = evidence_fields fw fin i (cur + of_nat (length ?tags), 4, 4) ?g"
    unfolding evidence_layer_def Let_def out using st by simp
  with f show ?thesis by (simp add: enc_layer_def layer_text_def console add.assoc)
qed

lemma layers_ok:
  assumes "console_ok fw" "\<forall>l\<in>set ls. layer_wf l"
    and "within (fst g) fin cur (concat (map enc_layer ls))" "length is = length ls"
  shows "evidence_layers fw fin is (cur, mt, v) g = Some (puts (concat (map2 layer_text is ls)
    @ cstr ''  --------------------------------------------------\<newline>'') g)"
  using assms(2-4)
proof (induction ls arbitrary: "is" cur mt v g)
  case Nil
  then show ?case using assms(1) by (simp add: console)
next
  case (Cons l ls)
  obtain i js where "is": "is = i # js" "length js = length ls" using Cons.prems(3) by (cases "is") auto
  have w: "within (fst g) fin cur (enc_layer l)"
    "within (fst (puts (layer_text i l) g)) fin (cur + of_nat (length (enc_layer l))) (concat (map enc_layer ls))"
    using Cons.prems(2) by (simp_all add: within_append)
  obtain mt' v' where "evidence_layer fw fin i (cur, mt, v) g =
    Some (True, (cur + of_nat (length (enc_layer l)), mt', v'), puts (layer_text i l) g)"
    using layer_ok [OF assms(1) _ w(1)] Cons.prems(1) by fastforce
  with Cons.IH [OF _ w(2) "is"(2)] Cons.prems(1) show ?case by (simp add: "is" console)
qed

text \<open>
  C13: on well-formed evidence, an array of three COSE items with any tags, payloads and
  signatures, heads in the shortest form and headers made of items of the major types 0
  to 6 (fewer than \<open>2 ^ 30\<close> pairs, an \<open>int\<close> counts them), and a firmware that leaves the
  memory alone when it writes a byte to the console, the parser returns, leaves the memory
  alone and prints exactly the report of the three layers.
\<close>

theorem parse_and_print_evidence_ok:
  assumes "console_ok fw" "length ls = 3" "\<forall>l\<in>set ls. layer_wf l"
    and "within (fst g) (data + len) data (cbor_head 4 3 @ concat (map enc_layer ls))"
  shows "parse_and_print_evidence fw data len g =
    Some (puts (cstr ''[GUEST] Parsing Evidence CBOR...\<newline>'' @ concat (map2 layer_text [0, 1, 2] ls)
      @ cstr ''  --------------------------------------------------\<newline>'') g)"
proof -
  let ?g = "puts (cstr ''[GUEST] Parsing Evidence CBOR...\<newline>'') g"
  have w: "within (fst g) (data + len) data (cbor_head 4 3)"
    "within (fst ?g) (data + len) (data + of_nat (length (cbor_head 4 3))) (concat (map enc_layer ls))"
    using assms(4) by (simp_all add: within_append)
  from read_head_ok [OF _ w(1), of 0 0] layers_ok [OF assms(1,3) w(2), of "[0, 1, 2]" 4 3] assms(1,2) show ?thesis
    by (simp add: parse_and_print_evidence_def console)
qed

definition small_layer :: layer where
  "small_layer = \<lparr>lay_tags = [18], lay_protected = [], lay_headers = [([0x04], [0x41, 0x31])],
     lay_payload = None, lay_signature = []\<rparr>"

lemma small_items: "cbor_items (Suc 0) [0x04]" "cbor_items (Suc 0) [0x41, 0x31]"
  using cbor_items.scalar [of 0 4 "[0x04]" 0 "[]"] cbor_items.string [of 2 1 "[0x41]" "[0x31]" 0 "[]"] cbor_items.none
  by (simp_all add: is_head_def)

theorem parse_and_print_evidence_ok_witness:
  "\<exists>out. parse_and_print_evidence (\<lambda>r m. (0, 0, m)) 0x2000 28
     (byte_mem 0x2000 (cbor_head 4 3 @ concat (map enc_layer [small_layer, small_layer, small_layer])), []) = Some out
   \<and> length (snd out) = length (cstr ''[GUEST] Parsing Evidence CBOR...\<newline>''
        @ layer_text 0 small_layer @ layer_text 1 small_layer @ layer_text 2 small_layer
        @ cstr ''  --------------------------------------------------\<newline>'')"
proof -
  let ?bs = "cbor_head 4 3 @ concat (map enc_layer [small_layer, small_layer, small_layer])"
  have "length ?bs = 28" by (simp add: enc_layer_def enc_fields_def enc_payload_def enc_bytes_def enc_map_def small_layer_def cbor_head_def)
  then have "within (byte_mem 0x2000 ?bs) (0x2000 + 28) 0x2000 ?bs" by (intro within_byte_mem) simp
  moreover have "console_ok (\<lambda>r m. (0, 0, m))" by (simp add: console_ok_def)
  moreover have "layer_wf small_layer" using small_items by (simp add: layer_wf_def small_layer_def)
  ultimately show ?thesis
    using parse_and_print_evidence_ok [of "\<lambda>r m. (0, 0, m)" "[small_layer, small_layer, small_layer]"
        "(byte_mem 0x2000 ?bs, [])" "0x2000" 28]
    by (simp add: puts_def)
qed

end
