(* ===== verification/Ee_Printf.thy ===== *)
theory Ee_Printf
  imports Guest_Sbi
begin

text \<open>
  \<open>guests/coremark/riscv/ee_printf.c\<close>: the formatted output of the CoreMark port, without
  the floating-point conversions, which the port does not build.

  What a function writes through \<open>str\<close> is the list of the characters; the flags are the
  bits of \<open>type\<close>; widths and precisions are C integers of 32 bits, whose differences wrap.
  The arguments are the values the caller passes with their widths, and reading one that
  is not there or of another type is \<open>None\<close>.
\<close>

section \<open>Model\<close>

text \<open>An argument: an \<open>int\<close> or \<open>unsigned int\<close>, an \<open>unsigned long\<close>, a \<open>void *\<close>, a string, an address.\<close>

datatype va_arg = VInt u32 | VLong u64 | VPtr u64 | VStr "cstring option" | VBytes "u8 list"

definition digits :: cstring where
  "digits = cstr ''0123456789abcdefghijklmnopqrstuvwxyz''"

definition upper_digits :: cstring where
  "upper_digits = cstr ''0123456789ABCDEFGHIJKLMNOPQRSTUVWXYZ''"

definition is_digit :: "u8 \<Rightarrow> bool" where
  "is_digit c \<longleftrightarrow> 0x30 \<le> c \<and> c \<le> 0x39"

fun strnlen :: "cstring \<Rightarrow> nat \<Rightarrow> nat" where
  "strnlen [] count = 0"
| "strnlen (c # s) count = (if count = 0 then 0 else strnlen s (count - 1) + 1)"

fun skip_atoi :: "cstring \<Rightarrow> int \<Rightarrow> int \<times> cstring" where
  "skip_atoi [] i = (i, [])"
| "skip_atoi (c # s) i =
     (if is_digit c then skip_atoi s (wrap_s32 (i * 10 + uint c - 0x30)) else (i, c # s))"

text \<open>The flags.\<close>

definition has_flag :: "u32 \<Rightarrow> u32 \<Rightarrow> bool" where
  "has_flag type f \<longleftrightarrow> type AND f \<noteq> 0"

abbreviation "ZEROPAD \<equiv> 1 :: u32"
abbreviation "SIGN \<equiv> 2 :: u32"
abbreviation "PLUS \<equiv> 4 :: u32"
abbreviation "SPACE \<equiv> 8 :: u32"
abbreviation "LEFT \<equiv> 16 :: u32"
abbreviation "HEX_PREP \<equiv> 32 :: u32"
abbreviation "UPPERCASE \<equiv> 64 :: u32"

subsection \<open>Numbers and addresses\<close>

text \<open>The loop \<open>while (size-- > 0) *str++ = c\<close>: what it writes and what it leaves in \<open>size\<close>.\<close>

definition pad :: "u8 \<Rightarrow> int \<Rightarrow> cstring \<times> int" where
  "pad c sz = (replicate (nat sz) c, if 0 < sz then -1 else wrap_s32 (sz - 1))"

lemma number_tmp_less: "2 \<le> base \<Longrightarrow> num \<noteq> 0 \<Longrightarrow> unat (of_nat (unat num div base) :: u64) < unat num" for num :: u64
proof -
  assume b: "2 \<le> base" and n: "num \<noteq> 0"
  have "unat num div base < unat num" using b n by (simp add: unat_gt_0)
  moreover have "unat (of_nat (unat num div base) :: u64) \<le> unat num div base"
    by (simp add: unat_of_nat take_bit_nat_less_eq_self)
  ultimately show ?thesis by simp
qed

text \<open>The digits in \<open>tmp\<close>, the least significant one first.\<close>

function number_tmp :: "cstring \<Rightarrow> nat \<Rightarrow> u64 \<Rightarrow> cstring" where
  "number_tmp dig base num =
     (if base < 2 \<or> num = 0 then []
      else (dig ! (unat num mod base)) # number_tmp dig base (of_nat (unat num div base)))"
  by auto

termination
  by (relation "measure (\<lambda>(_, _, num). unat num)") (auto simp: number_tmp_less)

declare number_tmp.simps [simp del]

definition number_sign :: "u32 \<Rightarrow> s64 \<Rightarrow> int \<Rightarrow> cstring \<times> s64 \<times> int" where
  "number_sign type num sz =
     (if has_flag type SIGN then
        if num <s 0 then ([0x2D], - num, wrap_s32 (sz - 1))
        else if has_flag type PLUS then ([0x2B], num, wrap_s32 (sz - 1))
        else if has_flag type SPACE then ([0x20], num, wrap_s32 (sz - 1))
        else ([], num, sz)
      else ([], num, sz))"

definition number :: "s64 \<Rightarrow> int \<Rightarrow> int \<Rightarrow> int \<Rightarrow> u32 \<Rightarrow> cstring option" where
  "number num base sz precision type =
     (let dig = (if has_flag type UPPERCASE then upper_digits else digits);
          type = (if has_flag type LEFT then type AND NOT ZEROPAD else type)
      in if base < 2 \<or> base > 36 then None
         else
           let c = (if has_flag type ZEROPAD then 0x30 else 0x20);
               (sign, num, sz) = number_sign type num sz;
               sz = (if has_flag type HEX_PREP
                     then if base = 16 then wrap_s32 (sz - 2) else if base = 8 then wrap_s32 (sz - 1) else sz
                     else sz);
               tmp = (if num = 0 then [0x30] else number_tmp dig (nat base) num);
               i = int (length tmp);
               precision = (if i > precision then i else precision);
               sz = wrap_s32 (sz - precision);
               (pad1, sz) = (if \<not> has_flag type (ZEROPAD OR LEFT) then pad 0x20 sz else ([], sz));
               prep = (if has_flag type HEX_PREP
                       then if base = 8 then [0x30] else if base = 16 then [0x30, digits ! 33] else []
                       else []);
               (pad2, sz) = (if \<not> has_flag type LEFT then pad c sz else ([], sz));
               zeros = replicate (nat (precision - i)) 0x30;
               (pad3, _) = pad 0x20 sz
           in Some (pad1 @ sign @ prep @ pad2 @ zeros @ rev tmp @ pad3))"

text \<open>The loop \<open>while (len < size--) *str++ = ' '\<close>.\<close>

definition pad_to :: "int \<Rightarrow> int \<Rightarrow> cstring \<times> int" where
  "pad_to len sz = (replicate (nat (sz - len)) 0x20, if len < sz then len - 1 else wrap_s32 (sz - 1))"

definition justify :: "cstring \<Rightarrow> int \<Rightarrow> u32 \<Rightarrow> cstring" where
  "justify tmp sz type =
     (let len = int (length tmp);
          (pad1, sz) = (if \<not> has_flag type LEFT then pad_to len sz else ([], sz));
          (pad2, _) = pad_to len sz
      in pad1 @ tmp @ pad2)"

definition eaddr :: "u8 list \<Rightarrow> int \<Rightarrow> u32 \<Rightarrow> cstring" where
  "eaddr addr sz type =
     (let dig = (if has_flag type UPPERCASE then upper_digits else digits);
          tmp = concat (map (\<lambda>i. (if i \<noteq> 0 then [0x3A] else [])
            @ [dig ! unat (drop_bit 4 (addr ! i)), dig ! unat (addr ! i AND 0x0F)]) [0..<6])
      in justify tmp sz type)"

text \<open>One byte of an internet address, in decimal.\<close>

definition iaddr_byte :: "nat \<Rightarrow> cstring" where
  "iaddr_byte n =
     (if n = 0 then [digits ! 0]
      else if 100 \<le> n then [digits ! (n div 100), digits ! (n mod 100 div 10), digits ! (n mod 100 mod 10)]
      else if 10 \<le> n then [digits ! (n div 10), digits ! (n mod 10)]
      else [digits ! n])"

definition iaddr :: "u8 list \<Rightarrow> int \<Rightarrow> u32 \<Rightarrow> cstring" where
  "iaddr addr sz type =
     (let tmp = concat (map (\<lambda>i. (if i \<noteq> 0 then [0x2E] else []) @ iaddr_byte (unat (addr ! i))) [0..<4])
      in justify tmp sz type)"

subsection \<open>Conversion specifications\<close>

fun vs_flags :: "cstring \<Rightarrow> u32 \<Rightarrow> u32 \<times> cstring" where
  "vs_flags [] flags = (flags, [])"
| "vs_flags (c # s) flags =
     (if c = 0x2D then vs_flags s (flags OR LEFT)
      else if c = 0x2B then vs_flags s (flags OR PLUS)
      else if c = 0x20 then vs_flags s (flags OR SPACE)
      else if c = 0x23 then vs_flags s (flags OR HEX_PREP)
      else if c = 0x30 then vs_flags s (flags OR ZEROPAD)
      else (flags, c # s))"

text \<open>\<open>va_arg(args, int)\<close>.\<close>

fun va_int :: "va_arg list \<Rightarrow> (int \<times> va_arg list) option" where
  "va_int (VInt w # args) = Some (sint w, args)"
| "va_int _ = None"

definition vs_width :: "cstring \<Rightarrow> va_arg list \<Rightarrow> u32 \<Rightarrow> (int \<times> u32 \<times> cstring \<times> va_arg list) option" where
  "vs_width s args flags =
     (if is_digit (cdref s) then
        let (field_width, s) = skip_atoi s 0 in Some (field_width, flags, s, args)
      else if cdref s = 0x2A then
        (case va_int args of
           None \<Rightarrow> None
         | Some (field_width, args) \<Rightarrow>
             if field_width < 0 then Some (wrap_s32 (- field_width), flags OR LEFT, tl s, args)
             else Some (field_width, flags, tl s, args))
      else Some (-1, flags, s, args))"

definition vs_precision :: "cstring \<Rightarrow> va_arg list \<Rightarrow> (int \<times> cstring \<times> va_arg list) option" where
  "vs_precision s args =
     (if cdref s = 0x2E then
        let s = tl s
        in if is_digit (cdref s) then
             let (precision, s) = skip_atoi s 0
             in Some (if precision < 0 then 0 else precision, s, args)
           else if cdref s = 0x2A then
             (case va_int args of
                None \<Rightarrow> None
              | Some (precision, args) \<Rightarrow> Some (if precision < 0 then 0 else precision, tl s, args))
           else Some (0, s, args)
      else Some (-1, s, args))"

definition vs_qualifier :: "cstring \<Rightarrow> u8 option \<times> cstring" where
  "vs_qualifier s = (if cdref s = 0x6C \<or> cdref s = 0x4C then (Some (cdref s), tl s) else (None, s))"

subsection \<open>Conversions\<close>

text \<open>The loop \<open>while (--field_width > 0) *str++ = ' '\<close>.\<close>

definition pad_pre :: "int \<Rightarrow> cstring \<times> int" where
  "pad_pre field_width =
     (let n = wrap_s32 (field_width - 1) in (replicate (nat n) 0x20, if 0 < n then 0 else n))"

definition vs_char :: "u32 \<Rightarrow> int \<Rightarrow> va_arg list \<Rightarrow> (cstring \<times> va_arg list) option" where
  "vs_char flags field_width args =
     (let (pad1, field_width) = (if \<not> has_flag flags LEFT then pad_pre field_width else ([], field_width))
      in case args of
           VInt w # args \<Rightarrow> Some (pad1 @ [ucast w] @ fst (pad_pre field_width), args)
         | _ \<Rightarrow> None)"

definition vs_string :: "u32 \<Rightarrow> int \<Rightarrow> int \<Rightarrow> va_arg list \<Rightarrow> (cstring \<times> va_arg list) option" where
  "vs_string flags field_width precision args =
     (case args of
        VStr s # args \<Rightarrow>
          let s = (case s of None \<Rightarrow> cstr ''<NULL>'' | Some s \<Rightarrow> s);
              len = strnlen s (unat (of_int precision :: u64))
          in Some (justify (take len s) field_width flags, args)
      | _ \<Rightarrow> None)"

definition vs_pointer :: "u32 \<Rightarrow> int \<Rightarrow> int \<Rightarrow> va_arg list \<Rightarrow> (cstring \<times> va_arg list) option" where
  "vs_pointer flags field_width precision args =
     (let (field_width, flags) = (if field_width = -1 then (16, flags OR ZEROPAD) else (field_width, flags))
      in case args of
           VPtr w # args \<Rightarrow> map_option (\<lambda>s. (s, args)) (number w 16 field_width precision flags)
         | _ \<Rightarrow> None)"

definition vs_addr :: "u32 \<Rightarrow> int \<Rightarrow> u8 option \<Rightarrow> va_arg list \<Rightarrow> (cstring \<times> va_arg list) option" where
  "vs_addr flags field_width qualifier args =
     (case args of
        VBytes addr # args \<Rightarrow>
          if qualifier = Some 0x6C then
            if 6 \<le> length addr then Some (eaddr addr field_width flags, args) else None
          else if 4 \<le> length addr then Some (iaddr addr field_width flags, args) else None
      | _ \<Rightarrow> None)"

definition vs_integer ::
  "int \<Rightarrow> u32 \<Rightarrow> int \<Rightarrow> int \<Rightarrow> u8 option \<Rightarrow> va_arg list \<Rightarrow> (cstring \<times> va_arg list) option" where
  "vs_integer base flags field_width precision qualifier args =
     (if qualifier = Some 0x6C then
        case args of
          VLong w # args \<Rightarrow> map_option (\<lambda>s. (s, args)) (number w base field_width precision flags)
        | _ \<Rightarrow> None
      else case args of
          VInt w # args \<Rightarrow> map_option (\<lambda>s. (s, args))
            (number (if has_flag flags SIGN then scast w else ucast w) base field_width precision flags)
        | _ \<Rightarrow> None)"

text \<open>The switch on the conversion character; the last case consumes no argument.\<close>

definition vs_convert ::
  "u8 \<Rightarrow> u32 \<Rightarrow> int \<Rightarrow> int \<Rightarrow> u8 option \<Rightarrow> va_arg list \<Rightarrow> (cstring \<times> va_arg list) option" where
  "vs_convert c flags field_width precision qualifier args =
     (if c = 0x63 then vs_char flags field_width args
      else if c = 0x73 then vs_string flags field_width precision args
      else if c = 0x70 then vs_pointer flags field_width precision args
      else if c = 0x41 then vs_addr (flags OR UPPERCASE) field_width qualifier args
      else if c = 0x61 then vs_addr flags field_width qualifier args
      else if c = 0x6F then vs_integer 8 flags field_width precision qualifier args
      else if c = 0x58 then vs_integer 16 (flags OR UPPERCASE) field_width precision qualifier args
      else if c = 0x78 then vs_integer 16 flags field_width precision qualifier args
      else if c = 0x64 \<or> c = 0x69 then vs_integer 10 (flags OR SIGN) field_width precision qualifier args
      else if c = 0x75 then vs_integer 10 flags field_width precision qualifier args
      else Some ((if c \<noteq> 0x25 then [0x25] else []) @ (if c \<noteq> 0 then [c] else []), args))"

text \<open>One conversion specification, from behind its percent sign to behind its last character.\<close>

definition vs_spec :: "cstring \<Rightarrow> va_arg list \<Rightarrow> (cstring \<times> cstring \<times> va_arg list) option" where
  "vs_spec s args =
     (let (flags, s) = vs_flags s 0
      in case vs_width s args flags of
           None \<Rightarrow> None
         | Some (field_width, flags, s, args) \<Rightarrow>
             (case vs_precision s args of
                None \<Rightarrow> None
              | Some (precision, s, args) \<Rightarrow>
                  let (qualifier, s) = vs_qualifier s
                  in map_option (\<lambda>(out, args). (out, tl s, args))
                       (vs_convert (cdref s) flags field_width precision qualifier args)))"

lemma skip_atoi_length: "skip_atoi s i = (j, t) \<Longrightarrow> length t \<le> length s"
  by (induction s i arbitrary: j t rule: skip_atoi.induct) (auto split: if_splits intro: le_SucI)

lemma vs_flags_length: "vs_flags s f = (g, t) \<Longrightarrow> length t \<le> length s"
  by (induction s f arbitrary: g t rule: vs_flags.induct) (auto split: if_splits intro: le_SucI)

lemma vs_width_length: "vs_width s args flags = Some (w, f, t, a) \<Longrightarrow> length t \<le> length s"
  by (auto simp: vs_width_def split: if_splits option.splits prod.splits dest: skip_atoi_length)

lemma vs_precision_length: "vs_precision s args = Some (p, t, a) \<Longrightarrow> length t \<le> length s"
  by (auto simp: vs_precision_def Let_def split: if_splits option.splits prod.splits dest!: skip_atoi_length)

lemma vs_spec_length: "vs_spec s args = Some (out, t, a) \<Longrightarrow> length t \<le> length s"
  by (auto simp: vs_spec_def vs_qualifier_def Let_def split: option.splits prod.splits if_splits
      dest!: vs_flags_length vs_width_length vs_precision_length)

function ee_vsprintf :: "cstring \<Rightarrow> va_arg list \<Rightarrow> cstring option" where
  "ee_vsprintf [] args = Some []"
| "ee_vsprintf (c # fmt) args =
     (if c \<noteq> 0x25 then map_option (\<lambda>out. c # out) (ee_vsprintf fmt args)
      else case vs_spec fmt args of
             None \<Rightarrow> None
           | Some (out, fmt', args') \<Rightarrow> map_option (\<lambda>out'. out @ out') (ee_vsprintf fmt' args'))"
  by pat_completeness auto

termination
  by (relation "measure (\<lambda>(fmt, _). length fmt)") (auto dest: vs_spec_length)

subsection \<open>Output\<close>

text \<open>In supervisor mode a character goes to the firmware.\<close>

definition uart_send_char :: "firmware \<Rightarrow> u8 \<Rightarrow> guest \<Rightarrow> guest" where
  "uart_send_char fw c g = snd (sbi_console_write_byte fw c g)"

text \<open>
  \<open>ee_printf\<close> formats into a buffer of 1024 bytes and sends it up to the NUL; \<open>None\<close> is
  a write behind the end of the buffer.
\<close>

definition ee_printf :: "firmware \<Rightarrow> cstring \<Rightarrow> va_arg list \<Rightarrow> guest \<Rightarrow> (nat \<times> guest) option" where
  "ee_printf fw fmt args g =
     (case ee_vsprintf fmt args of
        None \<Rightarrow> None
      | Some buf \<Rightarrow>
          if length buf + 1 > 1024 then None
          else let p = takeWhile (\<lambda>c. c \<noteq> 0) buf
               in Some (length p, fold (uart_send_char fw) p g))"

section \<open>Properties\<close>

subsection \<open>Numbers\<close>

text \<open>
  The reference: the sign, the prefix and the digits in positional notation, with at
  least \<open>precision\<close> digits, filled up to the width on the side the flags say.
\<close>

definition num_sign :: "u32 \<Rightarrow> s64 \<Rightarrow> cstring" where
  "num_sign type num =
     (if \<not> has_flag type SIGN then []
      else if num <s 0 then [0x2D] else if has_flag type PLUS then [0x2B]
      else if has_flag type SPACE then [0x20] else [])"

definition num_prefix :: "u32 \<Rightarrow> int \<Rightarrow> cstring" where
  "num_prefix type base =
     (if \<not> has_flag type HEX_PREP then [] else if base = 8 then cstr ''0'' else if base = 16 then cstr ''0x'' else [])"

definition num_digits :: "u32 \<Rightarrow> s64 \<Rightarrow> nat \<Rightarrow> cstring" where
  "num_digits type num base =
     map (nth (if has_flag type UPPERCASE then upper_digits else digits))
       (digits_of base (unat (if has_flag type SIGN \<and> num <s 0 then - num else num)))"

definition number_text :: "s64 \<Rightarrow> int \<Rightarrow> int \<Rightarrow> int \<Rightarrow> u32 \<Rightarrow> cstring" where
  "number_text num base width precision type =
     (let hd = num_sign type num @ num_prefix type base;
          ds = num_digits type num (nat base);
          body = replicate (nat precision - length ds) 0x30 @ ds;
          fill = nat width - (length hd + length body)
      in if has_flag type LEFT then hd @ body @ replicate fill 0x20
         else if has_flag type ZEROPAD then hd @ replicate fill 0x30 @ body
         else replicate fill 0x20 @ hd @ body)"

lemma number_tmp_digits:
  "2 \<le> base \<Longrightarrow> num \<noteq> 0 \<Longrightarrow> number_tmp dig base num = rev (map (nth dig) (digits_of base (unat num)))"
proof (induction dig base num rule: number_tmp.induct)
  case (1 dig base num)
  have div: "unat (of_nat (unat num div base) :: u64) = unat num div base"
    by (rule unat_of_nat_small) (metis div_le_dividend le_less_trans unsigned_less)
  show ?case
  proof (cases "unat num < base")
    case True
    with "1.prems" show ?thesis
      by (simp add: number_tmp.simps [of dig base num] number_tmp.simps [of dig base 0] digits_of.simps [of base "unat num"])
  next
    case False
    then have "(of_nat (unat num div base) :: u64) \<noteq> 0"
      using div "1.prems" by (metis div_eq_0_iff not_numeral_le_zero unat_0)
    with "1.IH" "1.prems" div have "number_tmp dig base (of_nat (unat num div base))
        = rev (map (nth dig) (digits_of base (unat num div base)))" by simp
    with False "1.prems" show ?thesis
      by (simp add: number_tmp.simps [of dig base num] digits_of.simps [of base "unat num"])
  qed
qed

lemma has_flag_bit:
  "has_flag t ZEROPAD = bit t 0" "has_flag t SIGN = bit t 1" "has_flag t PLUS = bit t 2" "has_flag t SPACE = bit t 3"
  "has_flag t LEFT = bit t 4" "has_flag t HEX_PREP = bit t 5" "has_flag t UPPERCASE = bit t 6"
  using and_exp_eq_0_iff_not_bit [of t 0] and_exp_eq_0_iff_not_bit [of t 1] and_exp_eq_0_iff_not_bit [of t 2]
    and_exp_eq_0_iff_not_bit [of t 3] and_exp_eq_0_iff_not_bit [of t 4] and_exp_eq_0_iff_not_bit [of t 5]
    and_exp_eq_0_iff_not_bit [of t 6]
  by (simp_all add: has_flag_def)

lemma has_flag_or: "has_flag t (f OR g) \<longleftrightarrow> has_flag t f \<or> has_flag t g"
  by (simp add: has_flag_def bit.conj_disj_distrib or_eq_0_iff)

lemma clear_zeropad:
  "has_flag (t AND NOT ZEROPAD) ZEROPAD = False" "has_flag (t AND NOT ZEROPAD) SIGN = has_flag t SIGN"
  "has_flag (t AND NOT ZEROPAD) PLUS = has_flag t PLUS" "has_flag (t AND NOT ZEROPAD) SPACE = has_flag t SPACE"
  "has_flag (t AND NOT ZEROPAD) LEFT = has_flag t LEFT" "has_flag (t AND NOT ZEROPAD) HEX_PREP = has_flag t HEX_PREP"
  by (simp_all add: has_flag_bit bit_simps)

lemma wrap_s32_id: "- (2 ^ 31) \<le> x \<Longrightarrow> x < 2 ^ 31 \<Longrightarrow> wrap_s32 x = x"
  unfolding wrap_s32_def by (rule signed_take_bit_int_eq_self) simp_all

lemma number_sign_eq:
  "- (2 ^ 31) < sz \<Longrightarrow> sz < 2 ^ 31 \<Longrightarrow> number_sign type num sz = (num_sign type num, if has_flag type SIGN \<and> num <s 0 then - num else num,
     sz - int (length (num_sign type num)))"
  by (simp add: number_sign_def num_sign_def wrap_s32_id)

lemma digits_0_x: "digits ! 0 = 0x30" "upper_digits ! 0 = 0x30" "digits ! 33 = 0x78"
  by (simp_all add: digits_def upper_digits_def cstr_def)

lemma number_prefix_eq:
  "(if has_flag type HEX_PREP then if base = 8 then [0x30] else if base = 16 then [0x30, digits ! 33] else [] else [])
     = num_prefix type base"
  "- (2 ^ 31) + 1 < sz \<Longrightarrow> sz < 2 ^ 31 \<Longrightarrow>
    (if has_flag type HEX_PREP then if base = 16 then wrap_s32 (sz - 2) else if base = 8 then wrap_s32 (sz - 1) else sz else sz)
     = sz - int (length (num_prefix type base))"
  by (simp_all add: num_prefix_def digits_0_x cstr_def wrap_s32_id)

lemma number_digits_eq:
  assumes "2 \<le> base"
  shows "(if n = 0 then [0x30] else number_tmp (if has_flag type UPPERCASE then upper_digits else digits) (nat base) n)
     = rev (map (nth (if has_flag type UPPERCASE then upper_digits else digits)) (digits_of (nat base) (unat n)))"
  using assms by (simp add: number_tmp_digits digits_of.simps [of "nat base" 0] digits_0_x)

text \<open>The room left for the filling.\<close>

lemma fill_eq:
  "nat (s - int a - int b - (if int d > p then int d else p)) =
     nat s - (a + b + (nat ((if int d > p then int d else p) - int d) + d))"
proof -
  define e where "e = (if int d > p then d else nat p)"
  have "(if int d > p then int d else p) = int e" "d \<le> e" by (auto simp: e_def)
  moreover have "nat (s - int a - int b - int e) = nat s - (a + b + e)" by arith
  ultimately show ?thesis by simp
qed

text \<open>The three padding loops together, for the three ways of filling.\<close>

lemma pads_eq:
  assumes "fill = nat sz" "- (2 ^ 31) + 2 < sz" "sz < 2 ^ 31"
  shows "(case (if \<not> left \<and> \<not> zero then pad 0x20 sz else ([], sz)) of (p1, sz) \<Rightarrow>
      case (if \<not> left then pad c sz else ([], sz)) of (p2, sz) \<Rightarrow>
      case pad 0x20 sz of (p3, _) \<Rightarrow> p1 @ pre @ p2 @ body @ p3) =
    (if left then pre @ body @ replicate fill 0x20 else if zero then pre @ replicate fill c @ body
     else replicate fill 0x20 @ pre @ body)"
  using assms by (simp add: pad_def wrap_s32_id)

lemma num_digits_bound:
  assumes "2 \<le> base"
  shows "1 \<le> length (num_digits type num base)" "length (num_digits type num base) \<le> 64"
proof -
  let ?n = "unat (if has_flag type SIGN \<and> num <s 0 then - num else num)"
  have "?n < 2 ^ LENGTH(64)" by (rule unsigned_less)
  also have "(2 :: nat) ^ LENGTH(64) \<le> base ^ 64" using power_mono [OF assms, of 64] by simp
  finally show "length (num_digits type num base) \<le> 64"
    using length_digits_of [of base ?n 64] assms by (simp add: num_digits_def)
  show "1 \<le> length (num_digits type num base)" by (subst num_digits_def, subst digits_of.simps) simp
qed

lemma head_lengths: "length (num_sign type num) \<le> 1" "length (num_prefix type base) \<le> 2"
  by (simp_all add: num_sign_def num_prefix_def cstr_def)

lemma number_eq:
  assumes "2 \<le> base" "base \<le> 36" "-1 \<le> sz" "sz < 2 ^ 31" "precision < 2 ^ 31 - 8"
  shows "number num base sz precision type = Some (number_text num base sz precision type)"
proof -
  define t where "t = (if has_flag type LEFT then type AND NOT ZEROPAD else type)"
  let ?ds = "num_digits type num (nat base)"
  let ?p = "if int (length ?ds) > precision then int (length ?ds) else precision"
  let ?sz = "sz - int (length (num_sign type num)) - int (length (num_prefix type base)) - ?p"
  let ?body = "replicate (nat (?p - int (length ?ds))) 0x30 @ ?ds"
  have "has_flag t SIGN = has_flag type SIGN" "has_flag t LEFT = has_flag type LEFT"
    "has_flag t HEX_PREP = has_flag type HEX_PREP" "has_flag t PLUS = has_flag type PLUS"
    "has_flag t SPACE = has_flag type SPACE" "has_flag t ZEROPAD \<longleftrightarrow> has_flag type ZEROPAD \<and> \<not> has_flag type LEFT"
    unfolding t_def by (simp_all only: clear_zeropad simp_thms split: if_split) blast
  then have fl: "has_flag t SIGN = has_flag type SIGN" "has_flag t LEFT = has_flag type LEFT"
    "has_flag t HEX_PREP = has_flag type HEX_PREP" "has_flag t ZEROPAD \<longleftrightarrow> has_flag type ZEROPAD \<and> \<not> has_flag type LEFT"
    "num_sign t num = num_sign type num" "num_prefix t base = num_prefix type base"
    by (simp_all add: num_sign_def num_prefix_def)
  have "2 \<le> nat base" using assms(1) by simp
  note len = head_lengths(1) [of type num] head_lengths(2) [of type base] num_digits_bound [OF this, of type num]
  have ranges: "- (2 ^ 31) < sz" "- (2 ^ 31) + 1 < sz - int (length (num_sign type num))"
    "sz - int (length (num_sign type num)) < 2 ^ 31" "- (2 ^ 31) + 2 < ?sz" "?sz < 2 ^ 31"
    using assms len by auto
  then have sz: "wrap_s32 ?sz = ?sz" by (intro wrap_s32_id) simp_all
  have body: "?body = replicate (nat precision - length ?ds) 0x30 @ ?ds" by (auto simp: nat_diff_distrib')
  have "number num base sz precision type = Some
      (case (if \<not> has_flag type LEFT \<and> \<not> has_flag type ZEROPAD then pad 0x20 ?sz else ([], ?sz)) of (p1, sz) \<Rightarrow>
      case (if \<not> has_flag type LEFT then pad (if has_flag type ZEROPAD then 0x30 else 0x20) sz else ([], sz)) of (p2, sz) \<Rightarrow>
      case pad 0x20 sz of (p3, _) \<Rightarrow> p1 @ (num_sign type num @ num_prefix type base) @ p2 @ ?body @ p3)"
    unfolding number_def Let_def t_def [symmetric] number_sign_eq [OF ranges(1) assms(4)] prod.case number_prefix_eq(1)
      number_digits_eq [OF assms(1)] has_flag_or fl number_prefix_eq(2) [OF ranges(2,3)]
      num_digits_def [symmetric] length_rev rev_rev_ident sz
    using assms(1,2) by (simp add: case_prod_unfold)
  also have "nat ?sz = nat sz - (length (num_sign type num @ num_prefix type base) + length ?body)"
    unfolding length_append length_replicate by (rule fill_eq)
  note pads_eq [OF this [symmetric] ranges(4,5)]
  finally show ?thesis
    unfolding body number_text_def Let_def
    by (cases "has_flag type LEFT"; cases "has_flag type ZEROPAD") (simp_all only: if_True if_False append_assoc)
qed

text \<open>
  C15: \<open>number\<close> renders every 64-bit value in every base from 2 to 36 as the positional
  numeral with sign, prefix, precision, width and padding as the flags ask, for every
  width of 32 bits from -1 on (no width given) and every precision, negative ones
  included, below \<open>2 ^ 31 - 8\<close>, where no difference of them wraps.
\<close>

theorem number_formats:
  assumes "2 \<le> base" "base \<le> 36" "-1 \<le> sz" "sz < 2 ^ 31" "precision < 2 ^ 31 - 8"
  shows "number num base sz precision type = Some (number_text num base sz precision type)"
  using assms by (rule number_eq)

theorem number_formats_witness: "number (-42) 10 5 3 SIGN = Some (cstr '' -042'')"
  using number_formats [of 10 5 3 "-42" SIGN]
  by (simp add: number_text_def num_sign_def num_prefix_def num_digits_def has_flag_def digits_of.simps
      digits_def cstr_def word_sless_alt Let_def)

subsection \<open>The lines of the report\<close>

lemma ee_vsprintf_plain:
  "0x25 \<notin> set s \<Longrightarrow> ee_vsprintf (s @ fmt) args = map_option (\<lambda>out. s @ out) (ee_vsprintf fmt args)"
proof (induction s)
  case (Cons c s)
  then have "c \<noteq> 0x25" "ee_vsprintf (s @ fmt) args = map_option (\<lambda>out. s @ out) (ee_vsprintf fmt args)" by simp_all
  then show ?case by (cases "ee_vsprintf fmt args") simp_all
qed (cases "ee_vsprintf fmt args", simp_all)

lemmas spec_simps = vs_spec_def vs_width_def vs_precision_def vs_qualifier_def vs_convert_def vs_integer_def
  is_digit_def wrap_s32_def number_eq Let_def

lemma percent_d: "vs_spec (0x64 # s) (VInt w # args) =
    Some (number_text (scast w) 10 (-1) (-1) SIGN, s, args)"
  by (simp add: spec_simps has_flag_def)

lemma percent_u: "vs_spec (0x75 # s) (VInt w # args) =
    Some (number_text (ucast w) 10 (-1) (-1) 0, s, args)"
  by (simp add: spec_simps has_flag_def)

lemma percent_lu: "vs_spec (0x6C # 0x75 # s) (VLong w # args) = Some (number_text w 10 (-1) (-1) 0, s, args)"
  by (simp add: spec_simps)

lemma percent_04x: "vs_spec (0x30 # 0x34 # 0x78 # s) (VInt w # args) =
    Some (number_text (ucast w) 16 4 (-1) ZEROPAD, s, args)"
  by (simp add: spec_simps has_flag_def)

lemma percent_s: "vs_spec (0x73 # s) (VStr (Some t) # args) =
    Some (justify (take (strnlen t (unat (-1 :: u64))) t) (-1) 0, s, args)"
  by (simp add: spec_simps vs_string_def)

text \<open>The four hexadecimal digits of a 16-bit value.\<close>

definition hex4 :: "u16 \<Rightarrow> cstring" where
  "hex4 v = map (\<lambda>k. digits ! (unat v div 16 ^ k mod 16)) [3, 2, 1, 0]"

lemma number_hex4: "number_text (ucast (ucast v :: u32)) 16 4 (-1) ZEROPAD = hex4 v" for v :: u16
proof -
  have "unat v < 2 ^ LENGTH(16)" by (rule unsigned_less)
  then have n: "unat v < 16 ^ Suc 3" by simp
  have ds: "replicate (4 - length (digits_of 16 (unat v))) (digits ! 0) @ map (nth digits) (digits_of 16 (unat v)) =
      map (nth digits) (replicate (4 - length (digits_of 16 (unat v))) 0 @ digits_of 16 (unat v))"
    by simp
  have "rev [0..<Suc 3] = [3, 2, 1, 0 :: nat]" by (simp add: upt_rec)
  with digits_of_fixed [OF _ n] ds have hex: "replicate (4 - length (digits_of 16 (unat v))) (digits ! 0)
      @ map (nth digits) (digits_of 16 (unat v)) = hex4 v"
    by (simp add: hex4_def)
  have "unat (ucast (ucast v :: u32) :: u64) = unat (ucast v :: u32)" by (rule unat_ucast_up) simp
  also have "\<dots> = unat v" by (rule unat_ucast_up) simp
  finally show ?thesis
    using hex
    by (simp add: number_text_def num_sign_def num_prefix_def num_digits_def has_flag_def digits_0_x)
qed

text \<open>
  A line of the report with a CRC shows the name of the CRC and its value in four
  hexadecimal digits, for every name without a percent sign and every value.
\<close>

lemma crc_line_prints:
  assumes "0x25 \<notin> set name"
  shows "ee_vsprintf (cstr ''[%d]'' @ name @ cstr '': 0x%04x\<newline>'') [VInt 0, VInt (ucast v)] =
    Some (cstr ''[0]'' @ name @ cstr '': 0x'' @ hex4 v @ cstr ''\<newline>'')"
proof -
  have zero: "number_text 0 10 (-1) (-1) SIGN = cstr ''0''"
    by (simp add: number_text_def num_sign_def num_prefix_def num_digits_def has_flag_def digits_of.simps
        digits_0_x cstr_def)
  have "ee_vsprintf (cstr '': 0x%04x\<newline>'') [VInt (ucast v)] = Some (cstr '': 0x'' @ hex4 v @ cstr ''\<newline>'')"
    by (simp add: cstr_def percent_04x number_hex4)
  then have "ee_vsprintf (name @ cstr '': 0x%04x\<newline>'') [VInt (ucast v)] =
      Some (name @ cstr '': 0x'' @ hex4 v @ cstr ''\<newline>'')"
    using assms by (simp add: ee_vsprintf_plain)
  then show ?thesis
    by (simp add: cstr_def [of "''[%d]''"] cstr_def [of "''[0]''"] percent_d zero) (simp add: cstr_def)
qed

lemma crc_line_example:
  "ee_vsprintf (cstr ''[%d]crclist       : 0x%04x\<newline>'') [VInt 0, VInt 0xe714] =
     Some (cstr ''[0]crclist       : 0xe714\<newline>'')"
  using crc_line_prints [of "cstr ''crclist       ''" "0xe714"]
  by (simp add: cstr_def hex4_def digits_def)

end
