(* ===== verification/Rt_String.thy ===== *)
theory Rt_String
  imports Prelude
begin

text \<open>
  \<open>guests/riscv-tests/env/v/string.c\<close>: the memory and string functions of the test
  environment.

  Memory is a map from addresses to bytes, pointers are addresses of 64 bits, and a
  load or store of a word is little endian. A loop is \<open>None\<close> when it does not end.
\<close>

section \<open>Model\<close>

type_synonym memory = "u64 \<Rightarrow> u8"

definition load64 :: "memory \<Rightarrow> u64 \<Rightarrow> u64" where
  "load64 m a = fold (\<lambda>k v. push_bit 8 v OR ucast (m (a + of_nat k))) (rev [0..<8]) 0"

definition store64 :: "memory \<Rightarrow> u64 \<Rightarrow> u64 \<Rightarrow> memory" where
  "store64 m a w = (\<lambda>x. if unat (x - a) < 8 then ucast (drop_bit (8 * unat (x - a)) w) else m x)"

subsection \<open>memcpy and memset\<close>

partial_function (option) memcpy_words :: "memory \<Rightarrow> u64 \<Rightarrow> u64 \<Rightarrow> u64 \<Rightarrow> memory option" where
  "memcpy_words m d s fin =
     (if d < fin then memcpy_words (store64 m d (load64 m s)) (d + 8) (s + 8) fin else Some m)"

partial_function (option) memcpy_bytes :: "memory \<Rightarrow> u64 \<Rightarrow> u64 \<Rightarrow> u64 \<Rightarrow> memory option" where
  "memcpy_bytes m d s fin =
     (if d < fin then memcpy_bytes (m(d := m s)) (d + 1) (s + 1) fin else Some m)"

definition memcpy :: "memory \<Rightarrow> u64 \<Rightarrow> u64 \<Rightarrow> u64 \<Rightarrow> (u64 \<times> memory) option" where
  "memcpy m dest src len =
     map_option (\<lambda>m. (dest, m))
       (if (dest OR src OR len) AND 7 = 0 then memcpy_words m dest src (dest + len)
        else memcpy_bytes m dest src (dest + len))"

partial_function (option) memset_words :: "memory \<Rightarrow> u64 \<Rightarrow> u64 \<Rightarrow> u64 \<Rightarrow> memory option" where
  "memset_words m d w fin =
     (if d < fin then memset_words (store64 m d w) (d + 8) w fin else Some m)"

partial_function (option) memset_bytes :: "memory \<Rightarrow> u64 \<Rightarrow> u8 \<Rightarrow> u64 \<Rightarrow> memory option" where
  "memset_bytes m d b fin =
     (if d < fin then memset_bytes (m(d := b)) (d + 1) b fin else Some m)"

definition spread :: "s32 \<Rightarrow> u64" where
  "spread byte =
     (let word = scast (byte AND 0xFF) :: u64;
          word = word OR push_bit 8 word;
          word = word OR push_bit 16 word
      in word OR push_bit 16 (push_bit 16 word))"

definition memset :: "memory \<Rightarrow> u64 \<Rightarrow> s32 \<Rightarrow> u64 \<Rightarrow> (u64 \<times> memory) option" where
  "memset m dest byte len =
     map_option (\<lambda>m. (dest, m))
       (if (dest OR len) AND 7 = 0 then memset_words m dest (spread byte) (dest + len)
        else memset_bytes m dest (ucast byte) (dest + len))"

subsection \<open>Comparison\<close>

partial_function (option) memcmp_words :: "memory \<Rightarrow> u64 \<Rightarrow> u64 \<Rightarrow> u64 \<Rightarrow> (u64 \<times> u64) option" where
  "memcmp_words m u1 u2 fin =
     (if u1 < fin then
        if load64 m u1 \<noteq> load64 m u2 then Some (u1, u2) else memcmp_words m (u1 + 8) (u2 + 8) fin
      else Some (u1, u2))"

fun memcmp_bytes :: "memory \<Rightarrow> u64 \<Rightarrow> u64 \<Rightarrow> nat \<Rightarrow> int" where
  "memcmp_bytes m s1 s2 0 = 0"
| "memcmp_bytes m s1 s2 (Suc n) =
     (if m s1 \<noteq> m s2 then uint (m s1) - uint (m s2) else memcmp_bytes m (s1 + 1) (s2 + 1) n)"

definition memcmp :: "memory \<Rightarrow> u64 \<Rightarrow> u64 \<Rightarrow> u64 \<Rightarrow> int option" where
  "memcmp m s1 s2 n =
     (if (s1 OR s2) AND 7 = 0 then
        map_option (\<lambda>(u1, u2). memcmp_bytes m u1 u2 (unat (n - (u1 - s1))))
          (memcmp_words m s1 s2 (s1 + n div 8 * 8))
      else Some (memcmp_bytes m s1 s2 (unat n)))"

subsection \<open>Strings\<close>

partial_function (option) strlen_loop :: "memory \<Rightarrow> u64 \<Rightarrow> u64 option" where
  "strlen_loop m p = (if m p \<noteq> 0 then strlen_loop m (p + 1) else Some p)"

definition strlen :: "memory \<Rightarrow> u64 \<Rightarrow> u64 option" where
  "strlen m s = map_option (\<lambda>p. p - s) (strlen_loop m s)"

partial_function (option) strcmp :: "memory \<Rightarrow> u64 \<Rightarrow> u64 \<Rightarrow> int option" where
  "strcmp m s1 s2 =
     (let c1 = m s1; c2 = m s2
      in if c1 \<noteq> 0 \<and> c1 = c2 then strcmp m (s1 + 1) (s2 + 1) else Some (uint c1 - uint c2))"

partial_function (option) strcpy_loop :: "memory \<Rightarrow> u64 \<Rightarrow> u64 \<Rightarrow> memory option" where
  "strcpy_loop m d src =
     (let c = m src; m = m(d := c) in if c \<noteq> 0 then strcpy_loop m (d + 1) (src + 1) else Some m)"

definition strcpy :: "memory \<Rightarrow> u64 \<Rightarrow> u64 \<Rightarrow> (u64 \<times> memory) option" where
  "strcpy m dest src = map_option (\<lambda>m. (dest, m)) (strcpy_loop m dest src)"

partial_function (option) atol_spaces :: "memory \<Rightarrow> u64 \<Rightarrow> u64 option" where
  "atol_spaces m str = (if m str = 0x20 then atol_spaces m (str + 1) else Some str)"

partial_function (option) atol_digits :: "memory \<Rightarrow> u64 \<Rightarrow> s64 \<Rightarrow> s64 option" where
  "atol_digits m str res =
     (if m str \<noteq> 0 then atol_digits m (str + 1) (res * 10 + (ucast (m str) - 0x30)) else Some res)"

definition atol :: "memory \<Rightarrow> u64 \<Rightarrow> s64 option" where
  "atol m str =
     do {
       str \<leftarrow> atol_spaces m str;
       let (sign, str) = (if m str = 0x2D \<or> m str = 0x2B then (m str = 0x2D, str + 1) else (False, str));
       res \<leftarrow> atol_digits m str 0;
       Some (if sign then - res else res)
     }"

declare memcpy_words.simps [code] memcpy_bytes.simps [code] memset_words.simps [code] memset_bytes.simps [code]
  memcmp_words.simps [code] strlen_loop.simps [code] strcmp.simps [code] strcpy_loop.simps [code]
  atol_spaces.simps [code] atol_digits.simps [code]

section \<open>Properties\<close>

subsection \<open>Words in memory\<close>

lemma load64_bit:
  "bit (load64 m a) n \<longleftrightarrow> n < 64 \<and> bit (m (a + of_nat (n div 8))) (n mod 8)"
proof -
  have gen: "bit (fold (\<lambda>k v. push_bit 8 v OR ucast (m (a + of_nat k))) (rev [j..<j + l]) (0 :: u64)) n \<longleftrightarrow>
      n < 64 \<and> n < 8 * l \<and> bit (m (a + of_nat (j + n div 8))) (n mod 8)" for j l n
  proof (induction l arbitrary: j n)
    case (Suc l)
    have "[j..<j + Suc l] = j # [Suc j..<Suc j + l]" by (simp add: upt_conv_Cons)
    then have "bit (fold (\<lambda>k v. push_bit 8 v OR ucast (m (a + of_nat k))) (rev [j..<j + Suc l]) (0 :: u64)) n \<longleftrightarrow>
        n < 64 \<and> (if n < 8 then bit (m (a + of_nat j)) n
          else bit (fold (\<lambda>k v. push_bit 8 v OR ucast (m (a + of_nat k))) (rev [Suc j..<Suc j + l]) (0 :: u64)) (n - 8))"
      by (auto simp: bit_simps dest: bit_imp_le_length)
    also have "\<dots> \<longleftrightarrow> n < 64 \<and> n < 8 * Suc l \<and> bit (m (a + of_nat (j + n div 8))) (n mod 8)"
    proof (cases "n < 8")
      case False
      then have "n div 8 = Suc ((n - 8) div 8)" "(n - 8) mod 8 = n mod 8" by (simp_all add: le_div_geq le_mod_geq)
      with False show ?thesis unfolding Suc.IH by auto
    qed simp
    finally show ?case .
  qed simp
  from gen [of 0 8 n] show ?thesis by (simp add: load64_def)
qed

lemma load64_byte: "k < 8 \<Longrightarrow> ucast (drop_bit (8 * k) (load64 m a)) = m (a + of_nat k)"
  by (rule bit_word_eqI) (auto simp: bit_simps load64_bit)

subsection \<open>memcpy\<close>

text \<open>The memory after \<open>n\<close> bytes are copied from \<open>s\<close> to \<open>d\<close>, and after \<open>n\<close> bytes are set at \<open>d\<close>.\<close>

definition copy_mem :: "memory \<Rightarrow> u64 \<Rightarrow> u64 \<Rightarrow> nat \<Rightarrow> memory" where
  "copy_mem m d s n = (\<lambda>x. if unat (x - d) < n then m (s + (x - d)) else m x)"

definition fill_mem :: "memory \<Rightarrow> u64 \<Rightarrow> u8 \<Rightarrow> nat \<Rightarrow> memory" where
  "fill_mem m d b n = (\<lambda>x. if unat (x - d) < n then b else m x)"

text \<open>No source byte lies in the destination.\<close>

definition apart :: "u64 \<Rightarrow> u64 \<Rightarrow> nat \<Rightarrow> bool" where
  "apart d s n \<longleftrightarrow> (\<forall>i<n. n \<le> unat (s + of_nat i - d))"

lemma copy_word: "store64 m d (load64 m s) = copy_mem m d s 8"
  by (rule ext) (simp add: store64_def copy_mem_def load64_byte)

lemma copy_byte: "m(d := m s) = copy_mem m d s 1"
  by (rule ext) (simp add: copy_mem_def unat_eq_0)

text \<open>Positions behind the first \<open>w\<close> bytes.\<close>

lemma unat_behind:
  fixes x d :: u64
  assumes "w < 2 ^ 64"
  shows "unat (x - (d + of_nat w)) = (if w \<le> unat (x - d) then unat (x - d) - w else unat (x - d) + 2 ^ 64 - w)"
proof -
  have w: "unat (of_nat w :: u64) = w" using assms by (simp add: unat_of_nat_small)
  have e: "x - (d + of_nat w) = x - d - of_nat w" by simp
  have "unat (x - d - of_nat w) = (if w \<le> unat (x - d) then unat (x - d) - w else unat (x - d) + 2 ^ LENGTH(64) - w)"
    using unat_sub_if' [of "x - d" "of_nat w"] unfolding w .
  then show ?thesis unfolding e by simp
qed

lemma copy_split:
  assumes "w + r < 2 ^ 64" "apart d s (w + r)"
  shows "copy_mem (copy_mem m d s w) (d + of_nat w) (s + of_nat w) r = copy_mem m d s (w + r)"
proof (rule ext)
  fix x
  let ?k = "unat (x - d)"
  have b: "unat (x - (d + of_nat w)) < r \<longleftrightarrow> w \<le> ?k \<and> ?k < w + r"
    using unat_behind [of w x d] assms(1) by (auto split: if_splits)
  have src: "s + of_nat w + (x - (d + of_nat w)) = s + (x - d)" by simp
  have "copy_mem m d s w (s + (x - d)) = m (s + (x - d))" if "?k < w + r"
  proof -
    have "s + of_nat ?k = s + (x - d)" by simp
    then have "w + r \<le> unat (s + (x - d) - d)" using assms(2) that unfolding apart_def by metis
    then show ?thesis by (simp add: copy_mem_def)
  qed
  then show "copy_mem (copy_mem m d s w) (d + of_nat w) (s + of_nat w) r x = copy_mem m d s (w + r) x"
    unfolding copy_mem_def [of "copy_mem m d s w"] b src by (auto simp: copy_mem_def)
qed

lemma apart_behind: "apart d s (w + r) \<Longrightarrow> apart (d + of_nat w) (s + of_nat w) r"
proof -
  assume a: "apart d s (w + r)"
  show ?thesis unfolding apart_def
  proof (intro allI impI)
    fix i assume "i < r"
    with a have "w + r \<le> unat (s + of_nat i - d)" by (simp add: apart_def)
    moreover have "s + of_nat w + of_nat i - (d + of_nat w) = s + of_nat i - d" by simp
    ultimately show "r \<le> unat (s + of_nat w + of_nat i - (d + of_nat w))" by (simp only:)
  qed
qed

lemma less_end: "unat d + n < 2 ^ 64 \<Longrightarrow> 0 < n \<Longrightarrow> d < d + of_nat n" for d :: u64
  by (simp add: word_less_nat_alt unat_add_nat)

lemma memcpy_words_copies:
  assumes "unat d + 8 * n < 2 ^ 64" "apart d s (8 * n)"
  shows "memcpy_words m d s (d + of_nat (8 * n)) = Some (copy_mem m d s (8 * n))"
  using assms
proof (induction n arbitrary: m d s)
  case 0
  then show ?case by (simp add: memcpy_words.simps copy_mem_def)
next
  case (Suc n)
  have d8: "unat (d + of_nat 8) = unat d + 8" using Suc.prems(1) by (intro unat_add_nat) simp
  have fin: "d + of_nat (8 * Suc n) = (d + of_nat 8) + of_nat (8 * n)" by simp
  have less: "d < d + of_nat (8 * Suc n)" using Suc.prems(1) by (intro less_end) simp_all
  have "memcpy_words m d s (d + of_nat (8 * Suc n)) =
      memcpy_words (copy_mem m d s 8) (d + of_nat 8) (s + of_nat 8) (d + of_nat 8 + of_nat (8 * n))"
    using less by (subst memcpy_words.simps) (simp only: if_True copy_word fin of_nat_numeral of_nat_1)
  also have "\<dots> = Some (copy_mem (copy_mem m d s 8) (d + of_nat 8) (s + of_nat 8) (8 * n))"
    using Suc.prems d8 by (intro Suc.IH apart_behind) simp_all
  also have "\<dots> = Some (copy_mem m d s (8 + 8 * n))"
    using Suc.prems by (subst copy_split) simp_all
  finally show ?case by simp
qed

lemma memcpy_bytes_copies:
  assumes "unat d + n < 2 ^ 64" "apart d s n"
  shows "memcpy_bytes m d s (d + of_nat n) = Some (copy_mem m d s n)"
  using assms
proof (induction n arbitrary: m d s)
  case 0
  then show ?case by (simp add: memcpy_bytes.simps copy_mem_def)
next
  case (Suc n)
  have d1: "unat (d + of_nat 1) = unat d + 1" using Suc.prems(1) by (intro unat_add_nat) simp
  have fin: "d + of_nat (Suc n) = (d + of_nat 1) + of_nat n" by simp
  have less: "d < d + of_nat (Suc n)" using Suc.prems(1) by (intro less_end) simp_all
  have "memcpy_bytes m d s (d + of_nat (Suc n)) =
      memcpy_bytes (copy_mem m d s 1) (d + of_nat 1) (s + of_nat 1) (d + of_nat 1 + of_nat n)"
    using less by (subst memcpy_bytes.simps) (simp only: if_True copy_byte fin of_nat_numeral of_nat_1)
  also have "\<dots> = Some (copy_mem (copy_mem m d s 1) (d + of_nat 1) (s + of_nat 1) n)"
    using Suc.prems d1 by (intro Suc.IH apart_behind) simp_all
  also have "\<dots> = Some (copy_mem m d s (1 + n))"
    using Suc.prems by (subst copy_split) simp_all
  finally show ?case by simp
qed

lemma aligned_or: "(a OR b) AND 7 = 0 \<longleftrightarrow> a AND 7 = 0 \<and> b AND 7 = 0" for a b :: u64
  by (simp add: bit.conj_disj_distrib2 or_eq_0_iff)

lemma aligned_len: "len AND 7 = 0 \<Longrightarrow> 8 * (unat len div 8) = unat len" for len :: u64
proof -
  assume "len AND 7 = 0"
  then have "unat len mod 8 = 0" using unat_and_mask [of len 3] by (simp add: mask_numeral)
  then show ?thesis by auto
qed

lemma apart_ranges:
  assumes "unat d + n < 2 ^ 64" "unat s + n < 2 ^ 64" "unat s + n \<le> unat d \<or> unat d + n \<le> unat s"
  shows "apart d s n"
  unfolding apart_def
proof (intro allI impI)
  fix i assume i: "i < n"
  have "unat (s + of_nat i) = unat s + i" using assms(2) i by (intro unat_add_nat) simp
  then have "unat (s + of_nat i - d) = (if unat d \<le> unat s + i then unat s + i - unat d else unat s + i + 2 ^ LENGTH(64) - unat d)"
    using unat_sub_if' [of "s + of_nat i" d] by (simp only:)
  with assms i show "n \<le> unat (s + of_nat i - d)" by auto
qed

lemma memcpy_eq:
  assumes "unat dest + unat len < 2 ^ 64" "apart dest src (unat len)"
  shows "memcpy m dest src len = Some (dest, copy_mem m dest src (unat len))"
proof (cases "(dest OR src OR len) AND 7 = 0")
  case True
  then have "8 * (unat len div 8) = unat len" by (simp add: aligned_or aligned_len)
  with memcpy_words_copies [of dest "unat len div 8" src m] assms True show ?thesis by (simp add: memcpy_def)
next
  case False
  with memcpy_bytes_copies [OF assms, of m] show ?thesis by (simp add: memcpy_def)
qed

subsection \<open>memset\<close>

lemma spread_step:
  fixes w :: u64
  assumes "\<And>n. bit w n \<longleftrightarrow> n < 8 * j \<and> n < 64 \<and> bit b (n mod 8)"
  shows "bit (w OR push_bit (8 * j) w) n \<longleftrightarrow> n < 8 * (2 * j) \<and> n < 64 \<and> bit b (n mod 8)"
proof -
  have "(n - 8 * j) mod 8 = n mod 8" if "8 * j \<le> n" using that by (metis dvd_triv_left mod_mult_self2 le_add_diff_inverse2)
  then show ?thesis by (auto simp: bit_simps assms)
qed

lemma byte_bits: "bit (b AND 0xFF) n \<longleftrightarrow> n < 8 \<and> bit b n" for b :: s32
proof -
  have "b AND 0xFF = take_bit 8 b" by (simp add: take_bit_eq_mask mask_numeral)
  then show ?thesis by (simp only: bit_take_bit_iff)
qed

lemma spread_bits: "bit (spread b) n \<longleftrightarrow> n < 64 \<and> bit b (n mod 8)"
proof -
  let ?w = "scast (b AND 0xFF) :: u64"
  have 0: "bit ?w n \<longleftrightarrow> n < 8 * 1 \<and> n < 64 \<and> bit b (n mod 8)" for n
    unfolding bit_signed_iff byte_bits by auto
  have 1: "bit (?w OR push_bit 8 ?w) n \<longleftrightarrow> n < 8 * 2 \<and> n < 64 \<and> bit b (n mod 8)" for n
    using spread_step [OF 0, of n] by (simp only: mult_1_right)
  have 2: "bit ((?w OR push_bit 8 ?w) OR push_bit 16 (?w OR push_bit 8 ?w)) n \<longleftrightarrow>
      n < 8 * 4 \<and> n < 64 \<and> bit b (n mod 8)" for n
    using spread_step [OF 1, of n] by (simp only: mult_numeral_left_semiring_numeral semiring_norm mult_num_simps arith_simps)
  show ?thesis
    using spread_step [OF 2, of n] unfolding spread_def Let_def push_bit_push_bit by auto
qed

lemma spread_byte: "k < 8 \<Longrightarrow> ucast (drop_bit (8 * k) (spread b)) = (ucast b :: u8)"
  by (rule bit_word_eqI) (auto simp: bit_unsigned_iff bit_drop_bit_eq spread_bits)

lemma fill_word: "store64 m d (spread b) = fill_mem m d (ucast b) 8"
  by (rule ext) (simp add: store64_def fill_mem_def spread_byte)

lemma fill_byte: "m(d := b) = fill_mem m d b 1"
  by (rule ext) (simp add: fill_mem_def unat_eq_0)

lemma fill_split:
  assumes "w + r < 2 ^ 64"
  shows "fill_mem (fill_mem m d b w) (d + of_nat w) b r = fill_mem m d b (w + r)"
proof (rule ext)
  fix x
  have "unat (x - (d + of_nat w)) < r \<longleftrightarrow> w \<le> unat (x - d) \<and> unat (x - d) < w + r"
    using unat_behind [of w x d] assms by (auto split: if_splits)
  then show "fill_mem (fill_mem m d b w) (d + of_nat w) b r x = fill_mem m d b (w + r) x"
    unfolding fill_mem_def by auto
qed

lemma memset_words_fills:
  assumes "unat d + 8 * n < 2 ^ 64"
  shows "memset_words m d (spread b) (d + of_nat (8 * n)) = Some (fill_mem m d (ucast b) (8 * n))"
  using assms
proof (induction n arbitrary: m d)
  case 0
  then show ?case by (simp add: memset_words.simps fill_mem_def)
next
  case (Suc n)
  have d8: "unat (d + of_nat 8) = unat d + 8" using Suc.prems by (intro unat_add_nat) simp
  have fin: "d + of_nat (8 * Suc n) = (d + of_nat 8) + of_nat (8 * n)" by simp
  have less: "d < d + of_nat (8 * Suc n)" using Suc.prems by (intro less_end) simp_all
  have "memset_words m d (spread b) (d + of_nat (8 * Suc n)) =
      memset_words (fill_mem m d (ucast b) 8) (d + of_nat 8) (spread b) (d + of_nat 8 + of_nat (8 * n))"
    using less by (subst memset_words.simps) (simp only: if_True fill_word fin of_nat_numeral)
  also have "\<dots> = Some (fill_mem (fill_mem m d (ucast b) 8) (d + of_nat 8) (ucast b) (8 * n))"
    using Suc.prems d8 by (intro Suc.IH) simp
  also have "\<dots> = Some (fill_mem m d (ucast b) (8 + 8 * n))"
    using Suc.prems by (subst fill_split) simp_all
  finally show ?case by simp
qed

lemma memset_bytes_fills:
  assumes "unat d + n < 2 ^ 64"
  shows "memset_bytes m d b (d + of_nat n) = Some (fill_mem m d b n)"
  using assms
proof (induction n arbitrary: m d)
  case 0
  then show ?case by (simp add: memset_bytes.simps fill_mem_def)
next
  case (Suc n)
  have d1: "unat (d + of_nat 1) = unat d + 1" using Suc.prems by (intro unat_add_nat) simp
  have fin: "d + of_nat (Suc n) = (d + of_nat 1) + of_nat n" by simp
  have less: "d < d + of_nat (Suc n)" using Suc.prems by (intro less_end) simp_all
  have "memset_bytes m d b (d + of_nat (Suc n)) =
      memset_bytes (fill_mem m d b 1) (d + of_nat 1) b (d + of_nat 1 + of_nat n)"
    using less by (subst memset_bytes.simps) (simp only: if_True fill_byte fin of_nat_1)
  also have "\<dots> = Some (fill_mem (fill_mem m d b 1) (d + of_nat 1) b n)"
    using Suc.prems d1 by (intro Suc.IH) simp
  also have "\<dots> = Some (fill_mem m d b (1 + n))"
    using Suc.prems by (subst fill_split) simp_all
  finally show ?case by simp
qed

lemma memset_eq:
  assumes "unat dest + unat len < 2 ^ 64"
  shows "memset m dest b len = Some (dest, fill_mem m dest (ucast b) (unat len))"
proof (cases "(dest OR len) AND 7 = 0")
  case True
  then have "8 * (unat len div 8) = unat len" by (simp add: aligned_or aligned_len)
  with memset_words_fills [of dest "unat len div 8" m b] assms True show ?thesis by (simp add: memset_def)
next
  case False
  with memset_bytes_fills [OF assms, of m "ucast b"] show ?thesis by (simp add: memset_def)
qed

subsection \<open>memcmp\<close>

text \<open>The \<open>n\<close> bytes at an address.\<close>

definition bytes_at :: "memory \<Rightarrow> u64 \<Rightarrow> nat \<Rightarrow> u8 list" where
  "bytes_at m a n = map (\<lambda>i. m (a + of_nat i)) [0..<n]"

lemma bytes_at_0 [simp]: "bytes_at m a 0 = []"
  by (simp add: bytes_at_def)

lemma bytes_at_Suc [simp]: "bytes_at m a (Suc n) = m a # bytes_at m (a + 1) n"
  by (simp add: bytes_at_def upt_rec [of 0 "Suc n"] map_Suc_upt [symmetric] comp_def add.assoc del: upt_Suc)

text \<open>The sign of a comparison, on lists.\<close>

fun lex_less :: "u8 list \<Rightarrow> u8 list \<Rightarrow> bool" where
  "lex_less (x # xs) (y # ys) \<longleftrightarrow> x < y \<or> x = y \<and> lex_less xs ys"
| "lex_less _ _ \<longleftrightarrow> False"

lemma memcmp_bytes_sign:
  "(memcmp_bytes m s1 s2 n = 0 \<longleftrightarrow> bytes_at m s1 n = bytes_at m s2 n) \<and>
   (memcmp_bytes m s1 s2 n < 0 \<longleftrightarrow> lex_less (bytes_at m s1 n) (bytes_at m s2 n))"
  by (induction n arbitrary: s1 s2) (auto simp: word_less_def word_uint_eq_iff)

lemma memcmp_bytes_skip:
  "(\<And>i. i < k \<Longrightarrow> m (s1 + of_nat i) = m (s2 + of_nat i)) \<Longrightarrow>
   memcmp_bytes m s1 s2 (k + n) = memcmp_bytes m (s1 + of_nat k) (s2 + of_nat k) n"
proof (induction k arbitrary: s1 s2)
  case (Suc k)
  have eq: "m (s1 + 1 + of_nat i) = m (s2 + 1 + of_nat i)" if "i < k" for i
    using Suc.prems [of "Suc i"] that by (simp add: ac_simps)
  have "m s1 = m s2" using Suc.prems [of 0] by simp
  with Suc.IH [OF eq] show ?case by (simp add: add.assoc)
qed simp

lemma load64_eqD: "load64 m a = load64 m b \<Longrightarrow> k < 8 \<Longrightarrow> m (a + of_nat k) = m (b + of_nat k)"
  using load64_byte [of k m a] load64_byte [of k m b] by simp

text \<open>The word loop stops at a multiple of eight bytes before which the areas agree.\<close>

lemma memcmp_words_stops:
  assumes "unat s1 + 8 * n < 2 ^ 64"
  shows "\<exists>k\<le>n. memcmp_words m s1 s2 (s1 + of_nat (8 * n)) = Some (s1 + of_nat (8 * k), s2 + of_nat (8 * k)) \<and>
    (\<forall>i<8 * k. m (s1 + of_nat i) = m (s2 + of_nat i))"
  using assms
proof (induction n arbitrary: s1 s2)
  case 0
  then show ?case by (simp add: memcmp_words.simps)
next
  case (Suc n)
  have u: "unat (s1 + of_nat 8) = unat s1 + 8" using Suc.prems by (intro unat_add_nat) simp
  have fin: "s1 + of_nat (8 * Suc n) = (s1 + of_nat 8) + of_nat (8 * n)" by simp
  have less: "s1 < s1 + of_nat (8 * Suc n)" using Suc.prems by (intro less_end) simp_all
  show ?case
  proof (cases "load64 m s1 = load64 m s2")
    case True
    have "unat (s1 + of_nat 8) + 8 * n < 2 ^ 64" using Suc.prems u by simp
    from Suc.IH [OF this, of "s2 + of_nat 8"] obtain k where k: "k \<le> n"
      "memcmp_words m (s1 + of_nat 8) (s2 + of_nat 8) (s1 + of_nat 8 + of_nat (8 * n)) =
        Some (s1 + of_nat 8 + of_nat (8 * k), s2 + of_nat 8 + of_nat (8 * k))"
      and eq: "\<forall>i<8 * k. m (s1 + of_nat 8 + of_nat i) = m (s2 + of_nat 8 + of_nat i)" by blast
    have "memcmp_words m s1 s2 (s1 + of_nat (8 * Suc n)) =
        memcmp_words m (s1 + of_nat 8) (s2 + of_nat 8) (s1 + of_nat 8 + of_nat (8 * n))"
      using less True by (subst memcmp_words.simps) (simp only: if_True not_True_eq_False if_False fin of_nat_numeral simp_thms)
    also have "\<dots> = Some (s1 + of_nat (8 * Suc k), s2 + of_nat (8 * Suc k))" unfolding k(2) by simp
    finally have "memcmp_words m s1 s2 (s1 + of_nat (8 * Suc n)) = Some (s1 + of_nat (8 * Suc k), s2 + of_nat (8 * Suc k))" .
    moreover have "m (s1 + of_nat i) = m (s2 + of_nat i)" if "i < 8 * Suc k" for i
    proof (cases "i < 8")
      case False
      then have "s1 + of_nat 8 + of_nat (i - 8) = s1 + of_nat i" "s2 + of_nat 8 + of_nat (i - 8) = s2 + of_nat i"
        by (simp_all add: of_nat_diff)
      with eq [rule_format, of "i - 8"] False that show ?thesis by simp
    qed (rule load64_eqD [OF True])
    ultimately show ?thesis using Suc_le_mono [THEN iffD2, OF k(1)] by blast
  next
    case False
    then show ?thesis using less by (intro exI [of _ 0]) (subst memcmp_words.simps, simp)
  qed
qed

lemma memcmp_eq:
  assumes "unat s1 + unat n < 2 ^ 64"
  shows "memcmp m s1 s2 n = Some (memcmp_bytes m s1 s2 (unat n))"
proof (cases "(s1 OR s2) AND 7 = 0")
  case True
  let ?w = "unat n div 8"
  have "n div 8 * 8 = of_nat (8 * ?w)" by (simp add: unat_div [of n 8, simplified, symmetric])
  moreover obtain k where k: "k \<le> ?w"
    "memcmp_words m s1 s2 (s1 + of_nat (8 * ?w)) = Some (s1 + of_nat (8 * k), s2 + of_nat (8 * k))"
    "\<forall>i<8 * k. m (s1 + of_nat i) = m (s2 + of_nat i)"
    using memcmp_words_stops [of s1 ?w m s2] assms times_div_less_eq_dividend [of 8 "unat n"] by (meson add_left_mono le_less_trans)
  moreover have "unat (n - of_nat (8 * k)) = unat n - 8 * k"
  proof -
    have "8 * k \<le> unat n" using k(1) by simp
    moreover have "unat n < 2 ^ 64" using unsigned_less [of n] by simp
    ultimately show ?thesis using unat_sub [of "of_nat (8 * k)" n] by (simp add: unat_of_nat_small word_le_nat_alt del: of_nat_mult)
  qed
  moreover have "memcmp_bytes m s1 s2 (8 * k + (unat n - 8 * k)) =
      memcmp_bytes m (s1 + of_nat (8 * k)) (s2 + of_nat (8 * k)) (unat n - 8 * k)"
    using k(3) by (intro memcmp_bytes_skip) simp
  moreover have "8 * k + (unat n - 8 * k) = unat n" using k(1) by simp
  ultimately show ?thesis using True by (simp add: memcmp_def del: of_nat_mult)
next
  case False
  then show ?thesis by (simp add: memcmp_def)
qed

subsection \<open>Strings\<close>

text \<open>A string of \<open>n\<close> bytes and its terminator.\<close>

definition string_at :: "memory \<Rightarrow> u64 \<Rightarrow> nat \<Rightarrow> bool" where
  "string_at m a n \<longleftrightarrow> (\<forall>i<n. m (a + of_nat i) \<noteq> 0) \<and> m (a + of_nat n) = 0"

lemma string_at_0 [simp]: "string_at m a 0 \<longleftrightarrow> m a = 0"
  by (simp add: string_at_def)

lemma string_at_Suc [simp]: "string_at m a (Suc n) \<longleftrightarrow> m a \<noteq> 0 \<and> string_at m (a + 1) n"
  unfolding string_at_def All_less_Suc2 by (simp add: add.assoc)

lemma string_at_bytes: "string_at m a n \<longleftrightarrow> 0 \<notin> set (bytes_at m a n) \<and> m (a + of_nat n) = 0"
  by (auto simp: string_at_def bytes_at_def image_iff)

lemma strlen_loop_ends: "string_at m p n \<Longrightarrow> strlen_loop m p = Some (p + of_nat n)"
  by (induction n arbitrary: p) (subst strlen_loop.simps, simp add: add.assoc)+

lemma strcmp_same: "string_at m a n \<Longrightarrow> bytes_at m b (Suc n) = bytes_at m a (Suc n) \<Longrightarrow> strcmp m b a = Some 0"
  by (induction n arbitrary: a b) (subst strcmp.simps, simp add: Let_def)+

lemma copy_mem_source:
  assumes "apart d s n" "w \<le> n" "i < n"
  shows "copy_mem m d s w (s + of_nat i) = m (s + of_nat i)"
proof -
  have "n \<le> unat (s + of_nat i - d)" using assms(1,3) by (simp add: apart_def)
  with assms(2) show ?thesis by (simp add: copy_mem_def)
qed

lemma strcpy_loop_copies:
  assumes "Suc n < 2 ^ 64" "apart d s (Suc n)" "string_at m s n"
  shows "strcpy_loop m d s = Some (copy_mem m d s (Suc n))"
  using assms
proof (induction n arbitrary: m d s)
  case 0
  then show ?case using copy_byte [of m d s] by (subst strcpy_loop.simps) (simp add: Let_def)
next
  case (Suc n)
  let ?m = "copy_mem m d s 1"
  have "string_at ?m s (Suc n)" unfolding string_at_def
    using Suc.prems copy_mem_source [OF Suc.prems(2), of 1] by (simp add: string_at_def del: of_nat_Suc)
  then have str: "string_at ?m (s + of_nat 1) n" by simp
  have "strcpy_loop m d s = strcpy_loop ?m (d + of_nat 1) (s + of_nat 1)"
    using Suc.prems(3) copy_byte [of m d s] by (subst strcpy_loop.simps) (simp add: Let_def)
  also have "\<dots> = Some (copy_mem ?m (d + of_nat 1) (s + of_nat 1) (Suc n))"
    using Suc.prems apart_behind [of d s 1 "Suc n"] str by (intro Suc.IH) simp_all
  also have "\<dots> = Some (copy_mem m d s (1 + Suc n))"
    using Suc.prems by (subst copy_split) simp_all
  finally show ?case by simp
qed

lemma bytes_at_copied:
  assumes "n \<le> 2 ^ 64"
  shows "bytes_at (copy_mem m d s n) d n = bytes_at m s n"
proof -
  have "unat (of_nat i :: u64) = i" if "i < n" for i using that assms by (simp add: unat_of_nat_small)
  then show ?thesis by (auto simp: bytes_at_def copy_mem_def)
qed

lemma bytes_at_source: "apart d s n \<Longrightarrow> bytes_at (copy_mem m d s n) s n = bytes_at m s n"
  by (simp add: bytes_at_def copy_mem_source)

lemma bytes_at_filled:
  assumes "n \<le> 2 ^ 64"
  shows "bytes_at (fill_mem m d b n) d n = replicate n b"
proof -
  have "unat (of_nat i :: u64) = i" if "i < n" for i using that assms by (simp add: unat_of_nat_small)
  then have "bytes_at (fill_mem m d b n) d n = map (\<lambda>i. b) [0..<n]" by (auto simp: bytes_at_def fill_mem_def)
  then show ?thesis by (simp add: map_replicate_const)
qed

section \<open>Main results\<close>

text \<open>
  C17: \<open>memcpy\<close> of two areas that do not overlap and do not run past the end of the
  address space returns, whichever of its two loops runs: the destination then holds
  the source's bytes, no byte outside it has changed, and \<open>memcmp\<close> of the two areas
  is 0.\<close>

theorem memcpy_copies:
  assumes "unat dest + unat len < 2 ^ 64" "unat src + unat len < 2 ^ 64"
    and "unat src + unat len \<le> unat dest \<or> unat dest + unat len \<le> unat src"
  shows "\<exists>m'. memcpy m dest src len = Some (dest, m') \<and>
    bytes_at m' dest (unat len) = bytes_at m src (unat len) \<and>
    (\<forall>x. unat len \<le> unat (x - dest) \<longrightarrow> m' x = m x) \<and>
    memcmp m' dest src len = Some 0"
proof -
  let ?m = "copy_mem m dest src (unat len)"
  have ap: "apart dest src (unat len)" using assms by (rule apart_ranges)
  have len: "unat len \<le> 2 ^ 64" using assms(1) by simp
  have "memcmp_bytes ?m dest src (unat len) = 0"
    using memcmp_bytes_sign [of ?m dest src "unat len"] bytes_at_copied [OF len] bytes_at_source [OF ap] by simp
  then have "memcmp ?m dest src len = Some 0" using memcmp_eq [OF assms(1), of ?m src] by simp
  moreover have "?m x = m x" if "unat len \<le> unat (x - dest)" for x using that by (simp add: copy_mem_def)
  ultimately show ?thesis
    using memcpy_eq [OF assms(1) ap, of m] bytes_at_copied [OF len] by auto
qed

theorem memcpy_copies_witness:
  "\<exists>m'. memcpy (\<lambda>a. ucast a) 0x1000 0x2003 21 = Some (0x1000, m') \<and>
    bytes_at m' 0x1000 21 = bytes_at (\<lambda>a. ucast a) 0x2003 21 \<and>
    (\<forall>x. 21 \<le> unat (x - 0x1000) \<longrightarrow> m' x = ucast x) \<and>
    memcmp m' 0x1000 0x2003 21 = Some 0"
  using memcpy_copies [of "0x1000" 21 "0x2003" "\<lambda>a. ucast a"] by simp

text \<open>
  C18: \<open>memcmp\<close> of two areas returns, also when it compares a word at a time: its result
  is 0 exactly when the areas hold the same bytes, and negative exactly when the first
  area is smaller in the lexicographic order of its bytes.\<close>

theorem memcmp_compares:
  assumes "unat s1 + unat n < 2 ^ 64"
  shows "\<exists>r. memcmp m s1 s2 n = Some r \<and>
    (r = 0 \<longleftrightarrow> bytes_at m s1 (unat n) = bytes_at m s2 (unat n)) \<and>
    (r < 0 \<longleftrightarrow> lex_less (bytes_at m s1 (unat n)) (bytes_at m s2 (unat n)))"
  using memcmp_eq [OF assms] memcmp_bytes_sign by auto

theorem memcmp_compares_witness:
  "\<exists>r. memcmp (\<lambda>a. ucast (drop_bit 4 a)) 0x1000 0x1008 20 = Some r \<and>
    (r = 0 \<longleftrightarrow> bytes_at (\<lambda>a. ucast (drop_bit 4 a)) 0x1000 20 = bytes_at (\<lambda>a. ucast (drop_bit 4 a)) 0x1008 20) \<and>
    (r < 0 \<longleftrightarrow> lex_less (bytes_at (\<lambda>a. ucast (drop_bit 4 a)) 0x1000 20) (bytes_at (\<lambda>a. ucast (drop_bit 4 a)) 0x1008 20))"
  using memcmp_compares [of "0x1000" 20 "\<lambda>a. ucast (drop_bit 4 a)" "0x1008"] by simp

text \<open>
  C21: on a terminated string that its copy does not overlap, \<open>strcpy\<close> returns, the copy
  ends at the same length for \<open>strlen\<close>, and \<open>strcmp\<close> of the copy and the string is 0.\<close>

theorem strcpy_returns:
  assumes "string_at m src n" "unat dest + Suc n < 2 ^ 64" "unat src + Suc n < 2 ^ 64"
    and "unat src + Suc n \<le> unat dest \<or> unat dest + Suc n \<le> unat src"
  shows "\<exists>m'. strcpy m dest src = Some (dest, m') \<and> strlen m' dest = Some (of_nat n) \<and>
    strlen m' src = Some (of_nat n) \<and> strcmp m' dest src = Some 0"
proof -
  let ?m = "copy_mem m dest src (Suc n)"
  have ap: "apart dest src (Suc n)" using assms(2-4) by (rule apart_ranges)
  have n: "Suc n < 2 ^ 64" using assms(2) by simp
  have dst: "bytes_at ?m dest (Suc n) = bytes_at m src (Suc n)" using n by (intro bytes_at_copied) simp
  have src: "bytes_at ?m src (Suc n) = bytes_at m src (Suc n)" using ap by (rule bytes_at_source)
  have str: "string_at ?m a n" if "bytes_at ?m a (Suc n) = bytes_at m src (Suc n)" for a
  proof -
    have "?m (a + of_nat i) = m (src + of_nat i)" if "i < Suc n" for i
      using arg_cong [OF \<open>bytes_at ?m a (Suc n) = bytes_at m src (Suc n)\<close>, of "\<lambda>xs. xs ! i"] that
      unfolding bytes_at_def by (simp del: upt_Suc)
    with assms(1) show ?thesis by (simp add: string_at_def)
  qed
  have "strcmp ?m dest src = Some 0" using strcmp_same [OF str [OF src]] dst src by simp
  then show ?thesis
    using strcpy_loop_copies [OF n ap assms(1)] strlen_loop_ends [OF str [OF src]] strlen_loop_ends [OF str [OF dst]]
    by (simp add: strcpy_def strlen_def)
qed

theorem strcpy_returns_witness:
  "\<exists>m'. strcpy ((\<lambda>a. 0x61)(0x1003 := 0)) 0x2000 0x1000 = Some (0x2000, m') \<and> strlen m' 0x2000 = Some 3 \<and>
    strlen m' 0x1000 = Some 3 \<and> strcmp m' 0x2000 0x1000 = Some 0"
  using strcpy_returns [of "(\<lambda>a. 0x61)(0x1003 := 0)" "0x1000" 3 "0x2000"]
  by (simp add: numeral_3_eq_3)

end
