(* ===== verification/Rt_Vm.thy ===== *)
theory Rt_Vm
  imports Rt_String
begin

text \<open>
  \<open>guests/riscv-tests/env/v/vm.c\<close> and \<open>riscv_test.h\<close>: the supervisor of the tests with
  virtual memory, built for a 64-bit machine with Sv39 translation.

  The state holds the four page tables, the list of free frames, the record of the
  mapped user pages and the other bytes of memory. The tables, the lists, the stack and
  \<open>tohost\<close> are variables of the image, whose pages the test program maps: \<open>phys\<close> is the
  memory as the machine has it, with the bytes of these variables where the linker put
  them. Code that is not in the file is a field of \<open>platform\<close>: the filters a test may
  define, the host behind \<open>tohost\<close>, the machine's registers and the places the linker
  gives. A function is \<open>None\<close> when it does not return, and an exit of the
  supervisor (to the user program, to the host, by a fault of its own) is a value.
\<close>

section \<open>Model\<close>

subsection \<open>Constants and data\<close>

definition PGSIZE :: u64 where "PGSIZE = push_bit 12 1"
definition PTES_PER_PT :: u64 where "PTES_PER_PT = push_bit 9 1"
definition MEGAPAGE_SIZE :: u64 where "MEGAPAGE_SIZE = PTES_PER_PT * PGSIZE"
definition MAX_TEST_PAGES :: nat where "MAX_TEST_PAGES = 2 ^ 6 - 1"
definition DRAM_BASE :: u64 where "DRAM_BASE = 0x80000000"

definition PTE_V :: u64 where "PTE_V = 0x001"
definition PTE_R :: u64 where "PTE_R = 0x002"
definition PTE_W :: u64 where "PTE_W = 0x004"
definition PTE_X :: u64 where "PTE_X = 0x008"
definition PTE_U :: u64 where "PTE_U = 0x010"
definition PTE_A :: u64 where "PTE_A = 0x040"
definition PTE_D :: u64 where "PTE_D = 0x080"

definition CAUSE_ILLEGAL_INSTRUCTION :: u64 where "CAUSE_ILLEGAL_INSTRUCTION = 0x2"
definition CAUSE_USER_ECALL :: u64 where "CAUSE_USER_ECALL = 0x8"
definition CAUSE_FETCH_PAGE_FAULT :: u64 where "CAUSE_FETCH_PAGE_FAULT = 0xc"
definition CAUSE_LOAD_PAGE_FAULT :: u64 where "CAUSE_LOAD_PAGE_FAULT = 0xd"
definition CAUSE_STORE_PAGE_FAULT :: u64 where "CAUSE_STORE_PAGE_FAULT = 0xf"

definition SATP_MODE :: u64 where "SATP_MODE = 0xF000000000000000"
definition SATP_MODE_SV39 :: u64 where "SATP_MODE_SV39 = 8"

definition LFSR_NEXT :: "u64 \<Rightarrow> u64" where
  "LFSR_NEXT x = push_bit 5 ((x XOR drop_bit 1 x) AND 1) OR drop_bit 1 x"

text \<open>A pointer to a list node: into \<open>freelist_nodes\<close> or into \<open>user_mapping\<close>.\<close>

datatype node_ref = Null | Free_node nat | User_node nat

record freelist_t =
  naddr :: u64
  nnext :: node_ref

record trapframe_t =
  gpr :: "u64 list"
  sr :: u64
  epc :: u64
  badvaddr :: u64
  cause :: u64

text \<open>The tables \<open>l1pt\<close>, \<open>user_l2pt\<close>, \<open>kernel_l2pt\<close> and \<open>user_llpt\<close> are \<open>pt 0\<close> to \<open>pt 3\<close>.\<close>

record csrs =
  satp :: u64
  stvec :: u64
  sscratch :: u64
  medeleg :: u64
  mstatus :: u64
  mie :: u64
  pmpaddr0 :: u64
  pmpcfg0 :: u64

record vm =
  pt :: "nat \<Rightarrow> nat \<Rightarrow> u64"
  user_mapping :: "freelist_t list"
  freelist_nodes :: "freelist_t list"
  freelist_head :: node_ref
  freelist_tail :: node_ref
  dram :: memory
  csr :: csrs
  clock :: nat
  sent :: "u64 list"

text \<open>
  \<open>busy t\<close>: the read of \<open>tohost\<close> at time \<open>t\<close> finds it taken. \<open>satp_read\<close>: what the
  machine keeps of a value written to \<open>satp\<close>. \<open>own_data\<close>: the addresses of the image at
  which the supervisor keeps its variables other than \<open>pt\<close> (\<open>user_mapping\<close>,
  \<open>freelist_nodes\<close>, the ends of the list, its stack with the trap frame, \<open>tohost\<close> and
  \<open>fromhost\<close>), and \<open>own_byte\<close> the bytes it has there in a state.
\<close>

record platform =
  busy :: "nat \<Rightarrow> bool"
  pf_filter :: "u64 \<Rightarrow> u64 \<Rightarrow> s32 \<Rightarrow> s32 \<times> u64 \<times> s32"
  trap_filter :: "trapframe_t \<Rightarrow> s32 \<times> trapframe_t"
  pt_addr :: u64
  trap_entry :: u64
  mscratch :: u64
  mhartid :: u64
  satp_read :: "u64 \<Rightarrow> u64"
  fssr_word :: u32
  ENTROPY :: u64
  own_data :: "u64 \<Rightarrow> bool"
  own_byte :: "vm \<Rightarrow> u64 \<Rightarrow> u8"

text \<open>
  Exits: back to the program, to the host, a fault of the supervisor's own access, the
  loop of another hart, and a copy of a page over the supervisor's own variables, which
  ends what the model follows.
\<close>

datatype exit = Resume trapframe_t | Terminated s32 | Kernel_fault u64 | Torture u64 | Overwritten u64

datatype run = Go vm | Exit exit vm

abbreviation user_llpt :: "vm \<Rightarrow> nat \<Rightarrow> u64" where
  "user_llpt s \<equiv> pt s 3"

definition set_pte :: "nat \<Rightarrow> nat \<Rightarrow> u64 \<Rightarrow> vm \<Rightarrow> vm" where
  "set_pte t i v s = s\<lparr>pt := (pt s)(t := (pt s t)(i := v))\<rparr>"

subsection \<open>Memory\<close>

text \<open>
  The memory of the machine: \<open>pt\<close> lies in the image at \<open>pt_addr\<close>, eight bytes to an entry,
  lowest first, and so do the other variables of the supervisor; \<open>dram\<close> has all other
  bytes. The image and the stack are the 64 pages from \<open>DRAM_BASE\<close>; the frames lie behind.
\<close>

definition in_image :: "u64 \<Rightarrow> bool" where
  "in_image a \<longleftrightarrow> a - DRAM_BASE < (of_nat MAX_TEST_PAGES + 1) * PGSIZE"

definition in_tables :: "platform \<Rightarrow> u64 \<Rightarrow> bool" where
  "in_tables p a \<longleftrightarrow> in_image a \<and> a - pt_addr p < 4 * PGSIZE"

definition own :: "platform \<Rightarrow> u64 \<Rightarrow> bool" where
  "own p a \<longleftrightarrow> in_tables p a \<or> in_image a \<and> own_data p a"

definition table_byte :: "platform \<Rightarrow> vm \<Rightarrow> u64 \<Rightarrow> u8" where
  "table_byte p s a =
     (let off = a - pt_addr p
      in ucast (drop_bit (8 * unat (off mod 8)) (pt s (unat (off div PGSIZE)) (unat (off mod PGSIZE div 8)))))"

definition phys :: "platform \<Rightarrow> vm \<Rightarrow> memory" where
  "phys p s a =
     (if in_tables p a then table_byte p s a else if in_image a \<and> own_data p a then own_byte p s a else dram s a)"

definition own_page :: "platform \<Rightarrow> u64 \<Rightarrow> bool" where
  "own_page p a \<longleftrightarrow> list_ex (\<lambda>j. own p (a + of_nat j)) [0..<unat PGSIZE]"

subsection \<open>The host\<close>

partial_function (option) await :: "(nat \<Rightarrow> bool) \<Rightarrow> nat \<Rightarrow> nat option" where
  "await b t = (if b t then await b (Suc t) else Some t)"

declare await.simps [code]

definition do_tohost :: "platform \<Rightarrow> u64 \<Rightarrow> vm \<Rightarrow> vm option" where
  "do_tohost p v s =
     map_option (\<lambda>t. s\<lparr>clock := Suc t, sent := sent s @ [v]\<rparr>) (await (busy p) (clock s))"

definition cputchar :: "platform \<Rightarrow> s32 \<Rightarrow> vm \<Rightarrow> vm option" where
  "cputchar p x s = do_tohost p (0x0101000000000000 OR ucast (ucast x :: u8)) s"

fun cputstring :: "platform \<Rightarrow> u8 list \<Rightarrow> vm \<Rightarrow> vm option" where
  "cputstring p [] s = Some s"
| "cputstring p (c # cs) s =
     (if c = 0 then Some s else do { s \<leftarrow> cputchar p (ucast c) s; cputstring p cs s })"

definition terminate :: "platform \<Rightarrow> s32 \<Rightarrow> vm \<Rightarrow> run option" where
  "terminate p code s = map_option (Exit (Terminated code)) (do_tohost p (scast code) s)"

definition wtf :: "platform \<Rightarrow> vm \<Rightarrow> run option" where
  "wtf p s = terminate p 841 s"

text \<open>\<open>assert\<close>, with the rest of the function as its continuation.\<close>

definition assert_c :: "platform \<Rightarrow> bool \<Rightarrow> string \<Rightarrow> vm \<Rightarrow> (vm \<Rightarrow> run option) \<Rightarrow> run option" where
  "assert_c p x msg s k =
     (if x then k s
      else do {
        s \<leftarrow> cputstring p (cstr (''Assertion failed: '' @ msg @ [CHR 0x0A])) s;
        terminate p 3 s
      })"

fun hex_digits :: "nat \<Rightarrow> u64 \<Rightarrow> u8 list \<Rightarrow> u8 list" where
  "hex_digits 0 x str = str"
| "hex_digits (Suc n) x str =
     hex_digits n (drop_bit 4 x)
       (ucast ((x AND 0xF) + (if x AND 0xF < 10 then 0x30 else 0x61 - 10)) # str)"

definition printhex :: "platform \<Rightarrow> u64 \<Rightarrow> vm \<Rightarrow> vm option" where
  "printhex p x s = cputstring p (hex_digits 16 x [0]) s"

subsection \<open>Addresses\<close>

definition pa2kva :: "u64 \<Rightarrow> u64" where
  "pa2kva pa = pa - DRAM_BASE - MEGAPAGE_SIZE"

definition uva2kva :: "u64 \<Rightarrow> u64" where
  "uva2kva pa = pa - MEGAPAGE_SIZE"

text \<open>
  Translation by the machine: three levels from \<open>l1pt\<close>, entries valid, a leaf when one
  of its access bits is set, the address sign-extended from 39 bits.
\<close>

definition pte_pa :: "u64 \<Rightarrow> u64" where
  "pte_pa pte = push_bit 12 (take_bit 44 (drop_bit 10 pte))"

definition table_at :: "platform \<Rightarrow> u64 \<Rightarrow> nat option" where
  "table_at p pa =
     (let off = pa - pt_addr p
      in if off < 4 * PGSIZE \<and> off mod PGSIZE = 0 then Some (unat (off div PGSIZE)) else None)"

fun walk_from :: "platform \<Rightarrow> vm \<Rightarrow> nat \<Rightarrow> nat \<Rightarrow> u64 \<Rightarrow> (u64 \<times> u64) option" where
  "walk_from p s l t va =
     (let pte = pt s t (unat (take_bit 9 (drop_bit (12 + 9 * l) va)))
      in if pte AND PTE_V = 0 then None
         else if pte AND (PTE_R OR PTE_W OR PTE_X) \<noteq> 0 then Some (pte, pte_pa pte + take_bit (12 + 9 * l) va)
         else case l of 0 \<Rightarrow> None
           | Suc l \<Rightarrow> (case table_at p (pte_pa pte) of None \<Rightarrow> None | Some t \<Rightarrow> walk_from p s l t va))"

definition canonical :: "u64 \<Rightarrow> bool" where
  "canonical va \<longleftrightarrow> va = signed_take_bit 38 va"

definition walk :: "platform \<Rightarrow> vm \<Rightarrow> u64 \<Rightarrow> (u64 \<times> u64) option" where
  "walk p s va = (if canonical va then walk_from p s 2 0 va else None)"

text \<open>
  The physical address of an access of the supervisor: readable or writable, a user
  page only while \<open>SUM\<close> is set, accessed and, for a store, dirty.
\<close>

definition kernel_pa :: "platform \<Rightarrow> vm \<Rightarrow> bool \<Rightarrow> bool \<Rightarrow> u64 \<Rightarrow> u64 option" where
  "kernel_pa p s sum_bit store va =
     (case walk p s va of None \<Rightarrow> None
      | Some (pte, pa) \<Rightarrow>
          if pte AND (if store then PTE_W else PTE_R) \<noteq> 0 \<and> (pte AND PTE_U = 0 \<or> sum_bit) \<and> pte AND PTE_A \<noteq> 0 \<and>
            (\<not> store \<or> pte AND PTE_D \<noteq> 0)
          then Some pa else None)"

text \<open>
  \<open>memcpy\<close> and \<open>memcmp\<close> of a page. A page is contiguous in both address spaces, so its
  bytes are those at the translated address. They read the memory with the supervisor's
  variables in it; a page copied over such a variable is an exit.
\<close>

definition copy_page :: "platform \<Rightarrow> u64 \<Rightarrow> u64 \<Rightarrow> vm \<Rightarrow> (vm \<Rightarrow> run option) \<Rightarrow> run option" where
  "copy_page p dest src s k =
     (case kernel_pa p s True False src of None \<Rightarrow> Some (Exit (Kernel_fault src) s)
      | Some r \<Rightarrow> (case kernel_pa p s True True dest of None \<Rightarrow> Some (Exit (Kernel_fault dest) s)
        | Some d \<Rightarrow>
            if own_page p d then Some (Exit (Overwritten d) s)
            else do { (_, m) \<leftarrow> memcpy (phys p s) d r PGSIZE; k (s\<lparr>dram := m\<rparr>) }))"

definition compare_page :: "platform \<Rightarrow> u64 \<Rightarrow> u64 \<Rightarrow> vm \<Rightarrow> (int \<Rightarrow> run option) \<Rightarrow> run option" where
  "compare_page p a b s k =
     (case kernel_pa p s True False a of None \<Rightarrow> Some (Exit (Kernel_fault a) s)
      | Some x \<Rightarrow> (case kernel_pa p s True False b of None \<Rightarrow> Some (Exit (Kernel_fault b) s)
        | Some y \<Rightarrow> do { r \<leftarrow> memcmp (phys p s) x y PGSIZE; k r }))"

subsection \<open>Page faults\<close>

definition in_test_pages :: "u64 \<Rightarrow> bool" where
  "in_test_pages addr \<longleftrightarrow> PGSIZE \<le> addr \<and> addr < of_nat MAX_TEST_PAGES * PGSIZE"

definition range_text :: string where
  "range_text = ''addr >= (1UL << 12) && addr < ((1 << 6)-1) * (1UL << 12)''"

definition append_free :: "node_ref \<Rightarrow> vm \<Rightarrow> vm" where
  "append_free node s =
     (case freelist_tail s of
        Null \<Rightarrow> s\<lparr>freelist_head := node, freelist_tail := node\<rparr>
      | Free_node k \<Rightarrow> s\<lparr>freelist_nodes := (freelist_nodes s)[k := (freelist_nodes s ! k)\<lparr>nnext := node\<rparr>],
          freelist_tail := node\<rparr>
      | User_node k \<Rightarrow> s\<lparr>user_mapping := (user_mapping s)[k := (user_mapping s ! k)\<lparr>nnext := node\<rparr>],
          freelist_tail := node\<rparr>)"

definition evict :: "platform \<Rightarrow> u64 \<Rightarrow> vm \<Rightarrow> run option" where
  "evict p addr s =
     assert_c p (in_test_pages addr) range_text s (\<lambda>s.
       let addr = addr div PGSIZE * PGSIZE; i = unat (addr div PGSIZE);
           free = (\<lambda>s. Some (Go (append_free (User_node i)
             (s\<lparr>user_mapping := (user_mapping s)[i := (user_mapping s ! i)\<lparr>naddr := 0\<rparr>]\<rparr>))))
       in if naddr (user_mapping s ! i) = 0 then Some (Go s)
          else assert_c p (user_llpt s i AND PTE_A \<noteq> 0) ''pt[3][addr/(1UL << 12)] & 0x040'' s (\<lambda>s.
            compare_page p addr (uva2kva addr) s (\<lambda>r.
              if r \<noteq> 0 then
                assert_c p (user_llpt s i AND PTE_D \<noteq> 0) ''pt[3][addr/(1UL << 12)] & 0x080'' s (\<lambda>s.
                  copy_page p (uva2kva addr) addr s free)
              else free s)))"

definition node_at :: "vm \<Rightarrow> node_ref \<Rightarrow> freelist_t" where
  "node_at s n =
     (case n of Free_node k \<Rightarrow> freelist_nodes s ! k | User_node k \<Rightarrow> user_mapping s ! k
      | Null \<Rightarrow> \<lparr>naddr = 0, nnext = Null\<rparr>)"

definition frame_pte :: "u64 \<Rightarrow> u64" where
  "frame_pte a = push_bit 10 (drop_bit 12 a)"

definition new_pte :: "platform \<Rightarrow> u64 \<Rightarrow> u64 \<Rightarrow> u64" where
  "new_pte p addr a =
     (case pf_filter p addr 0 1 of
        (r, encodings, _) \<Rightarrow> if r \<noteq> 0 then frame_pte a OR encodings
          else frame_pte a OR PTE_V OR PTE_U OR PTE_R OR PTE_W OR PTE_X)"

definition set_access_bits :: "platform \<Rightarrow> nat \<Rightarrow> u64 \<Rightarrow> vm \<Rightarrow> run option" where
  "set_access_bits p i c s =
     (if user_llpt s i AND PTE_A = 0 then Some (Go (set_pte 3 i (user_llpt s i OR PTE_A) s))
      else assert_c p (user_llpt s i AND PTE_D = 0 \<and> c = CAUSE_STORE_PAGE_FAULT)
        ''!(pt[3][addr/(1UL << 12)] & 0x080) && cause == 0xf'' s (\<lambda>s.
          Some (Go (set_pte 3 i (user_llpt s i OR PTE_D) s))))"

definition pop_free :: "vm \<Rightarrow> vm" where
  "pop_free s =
     (let s = s\<lparr>freelist_head := nnext (node_at s (freelist_head s))\<rparr>
      in if freelist_head s = freelist_tail s then s\<lparr>freelist_tail := Null\<rparr> else s)"

definition handle_fault :: "platform \<Rightarrow> u64 \<Rightarrow> u64 \<Rightarrow> vm \<Rightarrow> run option" where
  "handle_fault p addr c s =
     assert_c p (in_test_pages addr) range_text s (\<lambda>s.
       let addr = addr div PGSIZE * PGSIZE; i = unat (addr div PGSIZE)
       in if user_llpt s i \<noteq> 0 then set_access_bits p i c s
          else assert_c p (freelist_head s \<noteq> Null) ''node'' s (\<lambda>s.
            let node = node_at s (freelist_head s); pte = new_pte p addr (naddr node)
            in assert_c p (naddr (user_mapping s ! i) = 0) ''user_mapping[addr/(1UL << 12)].addr == 0''
              (set_pte 3 i (pte OR PTE_A OR PTE_D) (pop_free s)) (\<lambda>s.
                copy_page p addr (uva2kva addr) (s\<lparr>user_mapping := (user_mapping s)[i := node]\<rparr>) (\<lambda>s.
                  Some (Go (set_pte 3 i pte s))))))"

subsection \<open>Traps\<close>

fun evict_all :: "platform \<Rightarrow> nat list \<Rightarrow> vm \<Rightarrow> (vm \<Rightarrow> run option) \<Rightarrow> run option" where
  "evict_all p [] s k = k s"
| "evict_all p (i # is) s k =
     do {
       r \<leftarrow> evict p (of_nat i * PGSIZE) s;
       case r of Go s \<Rightarrow> evict_all p is s k | Exit e s \<Rightarrow> Some (Exit e s)
     }"

definition load32 :: "memory \<Rightarrow> u64 \<Rightarrow> u32" where
  "load32 m a = fold (\<lambda>k v. push_bit 8 v OR ucast (m (a + of_nat k))) (rev [0..<4]) 0"

definition illegal_instruction :: "platform \<Rightarrow> trapframe_t \<Rightarrow> vm \<Rightarrow> run option" where
  "illegal_instruction p tf s =
     assert_c p (epc tf mod 4 = 0) ''tf->epc % 4 == 0'' s (\<lambda>s.
       case kernel_pa p s False False (epc tf) of None \<Rightarrow> Some (Exit (Kernel_fault (epc tf)) s)
       | Some pa \<Rightarrow>
           if load32 (phys p s) pa = fssr_word p then terminate p 1 s
           else assert_c p False ''!\"illegal instruction\"'' s (\<lambda>s. Some (Exit (Resume (tf\<lparr>epc := epc tf + 4\<rparr>)) s)))"

definition handle_trap :: "platform \<Rightarrow> trapframe_t \<Rightarrow> vm \<Rightarrow> run option" where
  "handle_trap p tf s =
     (case trap_filter p tf of (r, tf) \<Rightarrow>
        if r \<noteq> 0 then Some (Exit (Resume tf) s)
        else if cause tf = CAUSE_USER_ECALL then
          evict_all p [1..<MAX_TEST_PAGES] s (\<lambda>s. terminate p (ucast (gpr tf ! 10)) s)
        else if cause tf = CAUSE_ILLEGAL_INSTRUCTION then illegal_instruction p tf s
        else if cause tf = CAUSE_FETCH_PAGE_FAULT \<or> cause tf = CAUSE_LOAD_PAGE_FAULT \<or> cause tf = CAUSE_STORE_PAGE_FAULT
        then do {
          r \<leftarrow> handle_fault p (badvaddr tf) (cause tf) s;
          case r of Go s \<Rightarrow> Some (Exit (Resume tf) s) | Exit e s \<Rightarrow> Some (Exit e s)
        }
        else assert_c p False ''!\"unexpected exception\"'' s (\<lambda>s. Some (Exit (Resume tf) s)))"

subsection \<open>Boot\<close>

definition lfsr63 :: "u64 \<Rightarrow> u64" where
  "lfsr63 x = drop_bit 1 x OR push_bit 62 ((x XOR drop_bit 1 x) AND 1)"

text \<open>The accesses of a hart other than 0: an address, and whether it is a store of the value there.\<close>

fun coherence_torture :: "u64 \<Rightarrow> nat \<Rightarrow> u64 \<times> bool" where
  "coherence_torture random n =
     (let paddr = DRAM_BASE + ((random mod (2 * (of_nat MAX_TEST_PAGES + 1) * PGSIZE)) AND - 4)
      in case n of 0 \<Rightarrow> (paddr, random AND 1 \<noteq> 0) | Suc n \<Rightarrow> coherence_torture (lfsr63 random) n)"

definition table_pte :: "platform \<Rightarrow> nat \<Rightarrow> u64" where
  "table_pte p t = push_bit 10 (drop_bit 12 (pt_addr p + of_nat t * PGSIZE)) OR PTE_V"

definition map_tables :: "platform \<Rightarrow> vm \<Rightarrow> vm" where
  "map_tables p s =
     (let s = set_pte 0 0 (table_pte p 1) s;
          s = set_pte 0 (unat (PTES_PER_PT - 1)) (table_pte p 2) s;
          s = set_pte 2 (unat (PTES_PER_PT - 1))
            (push_bit 10 (DRAM_BASE div PGSIZE) OR PTE_V OR PTE_R OR PTE_W OR PTE_X OR PTE_A OR PTE_D) s
      in set_pte 1 0 (table_pte p 3) s)"

fun fill_freelist :: "nat \<Rightarrow> nat \<Rightarrow> u64 \<Rightarrow> freelist_t list" where
  "fill_freelist 0 i random = []"
| "fill_freelist (Suc n) i random =
     \<lparr>naddr = DRAM_BASE + (of_nat MAX_TEST_PAGES + random) * PGSIZE, nnext = Free_node (i + 1)\<rparr> #
     fill_freelist n (i + 1) (LFSR_NEXT random)"

definition init_freelist :: "u64 \<Rightarrow> vm \<Rightarrow> vm" where
  "init_freelist random s =
     (let random = 1 + random mod of_nat MAX_TEST_PAGES; nodes = fill_freelist MAX_TEST_PAGES 0 random;
          l = MAX_TEST_PAGES - 1
      in s\<lparr>freelist_head := Free_node 0, freelist_tail := Free_node l,
           freelist_nodes := nodes[l := (nodes ! l)\<lparr>nnext := Null\<rparr>]\<rparr>)"

definition trap_csrs :: "platform \<Rightarrow> csrs \<Rightarrow> csrs" where
  "trap_csrs p c =
     c\<lparr>pmpaddr0 := push_bit 53 1 - 1, pmpcfg0 := 0x18 OR 0x01 OR 0x02 OR 0x04,
       stvec := pa2kva (trap_entry p), sscratch := pa2kva (mscratch p),
       medeleg := push_bit (unat CAUSE_USER_ECALL) 1 OR push_bit (unat CAUSE_FETCH_PAGE_FAULT) 1 OR
         push_bit (unat CAUSE_LOAD_PAGE_FAULT) 1 OR push_bit (unat CAUSE_STORE_PAGE_FAULT) 1,
       mstatus := 0x6000 OR 0x18000 OR 0x600, mie := 0\<rparr>"

definition satp_value :: "platform \<Rightarrow> u64" where
  "satp_value p = drop_bit 12 (pt_addr p) OR (SATP_MODE_SV39 * (SATP_MODE AND NOT (push_bit 1 SATP_MODE)))"

definition vm_boot :: "platform \<Rightarrow> u64 \<Rightarrow> vm \<Rightarrow> run option" where
  "vm_boot p test_addr s =
     (if mhartid p > 0 then Some (Exit (Torture (ENTROPY p)) s)
      else let s = map_tables p s; s = s\<lparr>csr := (csr s)\<lparr>satp := satp_read p (satp_value p)\<rparr>\<rparr>
        in assert_c p (satp (csr s) = satp_value p) ''!\"unsupported satp mode\"'' s (\<lambda>s.
          let s = init_freelist (ENTROPY p) (s\<lparr>csr := trap_csrs p (csr s)\<rparr>)
          in Some (Exit (Resume \<lparr>gpr = replicate 32 0, sr = 0, epc = test_addr - DRAM_BASE, badvaddr = 0, cause = 0\<rparr>) s)))"

end
