(* ===== verification/Rt_Paging.thy ===== *)
theory Rt_Paging
  imports Rt_Vm
begin

text \<open>
  The paging of the test supervisor: the page tables that \<open>vm_boot\<close> links translate the
  lowest two megabytes through \<open>user_llpt\<close> and the highest ones to the image, the
  generator deals 63 different frames, and a fault keeps what the program sees.

  What is said of the program's bytes is said of those that are not variables of the
  supervisor itself (\<open>program_byte\<close>). \<open>vm_inv\<close> is the invariant of the supervisor, \<open>vm_reach\<close> the states of a run, \<open>seen\<close> the
  byte the program finds at an address.
\<close>

lemmas page_consts = PGSIZE_def PTES_PER_PT_def MEGAPAGE_SIZE_def MAX_TEST_PAGES_def DRAM_BASE_def
lemmas pte_consts = PTE_V_def PTE_R_def PTE_W_def PTE_X_def PTE_U_def PTE_A_def PTE_D_def

lemma page_nums [simp]:
  "PGSIZE = 0x1000" "PTES_PER_PT = 0x200" "MEGAPAGE_SIZE = 0x200000" "MAX_TEST_PAGES = 63" "DRAM_BASE = 0x80000000"
  by (simp_all add: page_consts)

subsection \<open>The generator\<close>

text \<open>The cycle of \<open>LFSR_NEXT\<close> through every number of six bits but 0.\<close>

definition lfsr_cycle :: "u64 list" where
  "lfsr_cycle =
    [1, 32, 16, 8, 4, 2, 33, 48, 24, 12, 6, 35, 17, 40, 20, 10, 37, 50, 57, 60, 30, 47, 23, 11, 5, 34,
     49, 56, 28, 14, 39, 19, 9, 36, 18, 41, 52, 26, 45, 54, 59, 29, 46, 55, 27, 13, 38, 51, 25, 44, 22,
     43, 21, 42, 53, 58, 61, 62, 63, 31, 15, 7, 3]"

lemma lfsr_cycle_next: "map LFSR_NEXT lfsr_cycle = rotate1 lfsr_cycle"
  by (simp add: lfsr_cycle_def LFSR_NEXT_def)

lemma lfsr_cycle_distinct: "distinct lfsr_cycle"
  by (simp add: lfsr_cycle_def)

lemma lfsr_cycle_length [simp]: "length lfsr_cycle = 63"
  by (simp add: lfsr_cycle_def)

lemma lfsr_cycle_range: "x \<in> set lfsr_cycle \<Longrightarrow> 1 \<le> x \<and> x < 64"
proof -
  have "list_all (\<lambda>x. 1 \<le> x \<and> x < 64) lfsr_cycle" by (simp add: lfsr_cycle_def)
  then show "x \<in> set lfsr_cycle \<Longrightarrow> 1 \<le> x \<and> x < 64" by (simp add: list_all_iff)
qed

lemma lfsr_cycle_all:
  assumes "1 \<le> r" "r < 64"
  shows "r \<in> set lfsr_cycle"
proof -
  have "card (unat ` set lfsr_cycle) = card {1..<64 :: nat}"
    by (simp add: card_image [OF inj_onI] word_unat_eq_iff distinct_card [OF lfsr_cycle_distinct])
  moreover have "unat ` set lfsr_cycle \<subseteq> {1..<64}"
    using lfsr_cycle_range by (fastforce simp: word_le_nat_alt word_less_nat_alt)
  ultimately have "unat ` set lfsr_cycle = {1..<64}" by (intro card_subset_eq) simp_all
  moreover have "unat r \<in> {1..<64}" using assms by (simp add: word_le_nat_alt word_less_nat_alt)
  ultimately have "unat r \<in> unat ` set lfsr_cycle" by simp
  then show ?thesis by (auto simp: word_unat_eq_iff [symmetric])
qed

lemma lfsr_cycle_step: "j < 63 \<Longrightarrow> LFSR_NEXT (lfsr_cycle ! j) = lfsr_cycle ! (Suc j mod 63)"
  using arg_cong [OF lfsr_cycle_next, of "\<lambda>xs. xs ! j"] by (simp add: nth_rotate1)

lemma lfsr_cycle_power: "j < 63 \<Longrightarrow> (LFSR_NEXT ^^ k) (lfsr_cycle ! j) = lfsr_cycle ! ((k + j) mod 63)"
  by (induction k) (simp_all add: lfsr_cycle_step mod_Suc_eq)

lemma LFSR_start:
  assumes "1 \<le> r" "r < 64"
  obtains j where "r = lfsr_cycle ! j" "j < 63"
  using lfsr_cycle_all [OF assms] by (auto simp: in_set_conv_nth)

lemma LFSR_range:
  assumes "1 \<le> r" "r < 64"
  shows "1 \<le> (LFSR_NEXT ^^ k) r \<and> (LFSR_NEXT ^^ k) r < 64"
proof -
  obtain j where j: "r = lfsr_cycle ! j" "j < 63" using LFSR_start [OF assms] .
  then show ?thesis by (intro lfsr_cycle_range) (simp add: lfsr_cycle_power)
qed

lemma mod_shift_inj:
  fixes k l j n :: nat
  assumes "k < n" "l < n" "(k + j) mod n = (l + j) mod n"
  shows "k = l"
proof -
  have "k = l" if "l \<le> k" "k < n" "(k + j) mod n = (l + j) mod n" for k l
  proof -
    have "l + j \<le> k + j" using that(1) by simp
    from mod_eq_dvd_iff_nat [OF this, of n] that(3) have "n dvd k - l" by simp
    then have "n \<le> k - l" if "0 < k - l" using that by (rule dvd_imp_le)
    with that(1,2) show ?thesis by (cases "0 < k - l") simp_all
  qed
  from this [of l k] this [of k l] assms show ?thesis by (cases "l \<le> k") simp_all
qed

lemma LFSR_inj:
  assumes "1 \<le> r" "r < 64" "k < 63" "l < 63" "(LFSR_NEXT ^^ k) r = (LFSR_NEXT ^^ l) r"
  shows "k = l"
proof -
  obtain j where j: "r = lfsr_cycle ! j" "j < 63" using LFSR_start [OF assms(1,2)] .
  have "(k + j) mod 63 = (l + j) mod 63"
    using assms(5) lfsr_cycle_distinct by (simp add: j lfsr_cycle_power nth_eq_iff_index_eq)
  then show ?thesis by (rule mod_shift_inj [OF assms(3,4)])
qed

subsection \<open>Translation\<close>

declare walk_from.simps [simp del]

lemma pte_pa_bit: "bit (pte_pa x) n \<longleftrightarrow> 12 \<le> n \<and> n < 56 \<and> bit x (n - 2)"
proof (cases "12 \<le> n")
  case True
  then obtain m where "n = 12 + m" using le_Suc_ex by blast
  then show ?thesis by (auto simp: pte_pa_def bit_simps)
qed (simp add: pte_pa_def bit_simps)

lemma frame_pte_bit: "bit (frame_pte a) n \<longleftrightarrow> 10 \<le> n \<and> n < 64 \<and> bit a (n + 2)"
proof (cases "10 \<le> n")
  case True
  then obtain m where "n = 10 + m" using le_Suc_ex by blast
  then show ?thesis by (auto simp: frame_pte_def bit_simps add.commute)
qed (simp add: frame_pte_def bit_simps)

lemma pte_pa_frame:
  assumes "take_bit 12 a = 0" "a < 2 ^ 56" "take_bit 10 e = e"
  shows "pte_pa (frame_pte a OR e) = a"
proof (rule bit_word_eqI)
  fix n assume n: "n < LENGTH(64)"
  have a: "\<not> bit a n" if "n < 12" using arg_cong [OF assms(1), of "\<lambda>w. bit w n"] that by (simp add: bit_take_bit_iff)
  have a56: "\<not> bit a n" if "56 \<le> n" using less_power_bits [OF assms(2) that] .
  have e: "\<not> bit e (n - 2)" if "12 \<le> n"
    using arg_cong [OF assms(3), of "\<lambda>w. bit w (n - 2)"] that by (auto simp: bit_take_bit_iff)
  show "bit (pte_pa (frame_pte a OR e)) n \<longleftrightarrow> bit a n"
    unfolding pte_pa_bit bit_or_iff frame_pte_bit
    using a a56 e le_add_diff_inverse2 [of 2 n] by (cases "12 \<le> n"; cases "n < 56") auto
qed

lemma pte_flag:
  assumes "take_bit 10 f = f"
  shows "(frame_pte a OR e) AND f = e AND f"
proof (rule bit_word_eqI)
  fix n assume n: "n < LENGTH(64)"
  have "\<not> bit f n" if "10 \<le> n" using arg_cong [OF assms, of "\<lambda>w. bit w n"] that by (simp add: bit_take_bit_iff)
  then show "bit ((frame_pte a OR e) AND f) n \<longleftrightarrow> bit (e AND f) n" 
    by (auto simp: frame_pte_bit bit_simps)
qed

text \<open>The tables are linked, and where they lie is an aligned place of the physical space.\<close>

definition kernel_leaf :: u64 where
  "kernel_leaf = 0x200000CF"

definition linked :: "platform \<Rightarrow> vm \<Rightarrow> bool" where
  "linked p s \<longleftrightarrow>
     pt s 0 = (\<lambda>_. 0)(0 := table_pte p 1, 511 := table_pte p 2) \<and> pt s 1 = (\<lambda>_. 0)(0 := table_pte p 3) \<and>
     pt s 2 = (\<lambda>_. 0)(511 := kernel_leaf)"

definition placed :: "platform \<Rightarrow> bool" where
  "placed p \<longleftrightarrow> take_bit 12 (pt_addr p) = 0 \<and> pt_addr p < 2 ^ 55"

lemma table_address:
  assumes "placed p" "t < 4"
  shows "take_bit 12 (pt_addr p + of_nat t * 0x1000) = 0" "pt_addr p + of_nat t * 0x1000 < 2 ^ 56"
proof -
  have u: "unat (pt_addr p) < 2 ^ 55" using assms(1) by (simp add: placed_def word_less_nat_alt)
  then have w: "unat (pt_addr p + of_nat (t * 0x1000)) = unat (pt_addr p) + t * 0x1000"
    using assms(2) by (intro unat_add_nat) simp
  have "unat (pt_addr p) mod 2 ^ 12 = 0" 
    using assms(1) unat_take_bit_nat [of 12 "pt_addr p"] by (simp add: placed_def)
  then have "unat (take_bit 12 (pt_addr p + of_nat (t * 0x1000))) = 0" unfolding unat_take_bit_nat w by (simp add: mod_add_eq [symmetric])
  then show "take_bit 12 (pt_addr p + of_nat t * 0x1000) = 0" by (simp add: unat_eq_0)
  have "unat (pt_addr p + of_nat (t * 0x1000)) < 2 ^ 56" using w u assms(2) by simp
  then show "pt_addr p + of_nat t * 0x1000 < 2 ^ 56" by (simp add: word_less_nat_alt)
qed

lemma table_pte_frame: "table_pte p t = frame_pte (pt_addr p + of_nat t * 0x1000) OR PTE_V"
  by (simp add: table_pte_def frame_pte_def)

lemma table_pte_follow:
  assumes "placed p" "t < 4"
  shows "table_at p (pte_pa (table_pte p t)) = Some t" "table_pte p t AND PTE_V = 1"
    "table_pte p t AND (PTE_R OR PTE_W OR PTE_X) = 0"
proof -
  have "pte_pa (table_pte p t) = pt_addr p + of_nat t * 0x1000"
    unfolding table_pte_frame using table_address [OF assms] by (intro pte_pa_frame) (simp_all add: pte_consts)
  moreover have "unat (of_nat t * 0x1000 :: u64) = t * 0x1000"
    using unat_of_nat_small [of "t * 0x1000", where 'a = 64] assms(2) by simp
  ultimately show "table_at p (pte_pa (table_pte p t)) = Some t"
    using assms(2) by (simp add: table_at_def Let_def word_less_nat_alt unat_mod unat_div flip: unat_eq_0)
  show "table_pte p t AND PTE_V = 1" "table_pte p t AND (PTE_R OR PTE_W OR PTE_X) = 0"
    unfolding table_pte_frame by (simp_all add: pte_flag pte_consts)
qed

lemma walk_from_table:
  assumes "placed p" "t' < 4" "pt s t (unat (take_bit 9 (drop_bit (12 + 9 * Suc l) va))) = table_pte p t'"
  shows "walk_from p s (Suc l) t va = walk_from p s l t' va"
  using assms by (subst walk_from.simps) (simp add: table_pte_follow Let_def)

lemma walk_from_leaf:
  assumes "pt s t (unat (take_bit 9 (drop_bit (12 + 9 * l) va))) = pte" "pte AND PTE_V \<noteq> 0"
    "pte AND (PTE_R OR PTE_W OR PTE_X) \<noteq> 0"
  shows "walk_from p s l t va = Some (pte, pte_pa pte + take_bit (12 + 9 * l) va)"
  using assms by (subst walk_from.simps) (simp add: Let_def)

lemma walk_from_none:
  assumes "pt s t (unat (take_bit 9 (drop_bit (12 + 9 * l) va))) = 0"
  shows "walk_from p s l t va = None"
  using assms by (subst walk_from.simps) (simp add: Let_def)

text \<open>The lowest two megabytes are translated by \<open>user_llpt\<close>.\<close>

lemma low_bits: "va < 0x200000 \<Longrightarrow> 21 \<le> n \<Longrightarrow> \<not> bit va n" for va :: u64
  using less_power_bits [of va 21 n] by simp

lemma low_bit_less: "bit va n \<Longrightarrow> va < 0x200000 \<Longrightarrow> n < 21" for va :: u64
  using low_bits [of va n] by (cases "n < 21") simp_all

lemma low_canonical: "va < 0x200000 \<Longrightarrow> canonical va"
  unfolding canonical_def
  by (rule bit_word_eqI) (auto simp: bit_signed_take_bit_iff min_def low_bits)

lemma low_index:
  fixes va :: u64
  assumes "va < 0x200000"
  shows "take_bit 9 (drop_bit 30 va) = 0" "take_bit 9 (drop_bit 21 va) = 0"
    "take_bit 9 (drop_bit 12 va) = va div 0x1000"
proof -
  show "take_bit 9 (drop_bit 30 va) = 0" "take_bit 9 (drop_bit 21 va) = 0"
    by (rule bit_word_eqI, use low_bits [OF assms] in \<open>simp add: bit_simps\<close>)+
  have "take_bit 9 (drop_bit 12 va) = drop_bit 12 va"
    using assms by (intro bit_word_eqI) (auto simp: bit_simps dest: low_bit_less)
  then show "take_bit 9 (drop_bit 12 va) = va div 0x1000" by (simp add: drop_bit_eq_div)
qed

lemma walk_user:
  assumes "placed p" "linked p s" "va < 0x200000"
  shows "walk p s va =
    (let pte = user_llpt s (unat (va div 0x1000))
     in if pte AND PTE_V = 0 \<or> pte AND (PTE_R OR PTE_W OR PTE_X) = 0 then None
        else Some (pte, pte_pa pte + take_bit 12 va))"
proof -
  have 2: "walk_from p s (Suc (Suc 0)) 0 va = walk_from p s (Suc 0) 1 va"
    using assms low_index by (intro walk_from_table) (simp_all add: linked_def)
  have 1: "walk_from p s (Suc 0) 1 va = walk_from p s 0 3 va"
    using assms low_index by (intro walk_from_table) (simp_all add: linked_def)
  have "walk p s va = walk_from p s 0 3 va"
    using low_canonical [OF assms(3)] 1 2 by (simp add: walk_def numeral_2_eq_2)
  then show ?thesis
    unfolding walk_from.simps [of p s 0] by (simp add: low_index [OF assms(3)] Let_def)
qed

text \<open>The highest two megabytes are the memory from \<open>DRAM_BASE\<close>.\<close>

lemma high_bits:
  fixes a :: u64
  assumes "a < 0x200000"
  shows "bit (a - 0x200000) n \<longleftrightarrow> n < 64 \<and> (21 \<le> n \<or> bit a n)"
proof -
  have m: "- 0x200000 = NOT (mask 21 :: u64)" by (simp add: mask_numeral not_eq_complement)
  have "a - 0x200000 = a + NOT (mask 21)" using m by (metis diff_conv_add_uminus)
  also have "\<dots> = a OR NOT (mask 21)"
    by (rule disjunctive_add_eq_or) (rule bit_word_eqI, use assms in \<open>auto simp: bit_simps dest: low_bit_less\<close>)
  finally show ?thesis by (auto simp: bit_simps dest: bit_imp_le_length)
qed

lemma walk_kernel:
  assumes "placed p" "linked p s" "a < 0x200000"
  shows "walk p s (uva2kva a) = Some (kernel_leaf, 0x80000000 + a)"
proof -
  let ?va = "a - 0x200000"
  have can: "canonical ?va"
    unfolding canonical_def
    by (rule bit_word_eqI) (auto simp: bit_signed_take_bit_iff min_def high_bits [OF assms(3)])
  have m: "take_bit 9 (drop_bit 30 ?va) = 511" "take_bit 9 (drop_bit 21 ?va) = 511"
  proof -
    have "take_bit 9 (drop_bit k ?va) = mask 9" if "21 \<le> k" "k \<le> 30" for k
      by (rule bit_word_eqI) (use that in \<open>auto simp: bit_simps high_bits [OF assms(3)]\<close>)
    then show "take_bit 9 (drop_bit 30 ?va) = 511" "take_bit 9 (drop_bit 21 ?va) = 511"
      by (simp_all add: mask_numeral)
  qed
  have off: "take_bit 21 ?va = a"
    using assms(3) by (intro bit_word_eqI) (auto simp: bit_simps high_bits dest: low_bit_less)
  have "pte_pa kernel_leaf = 0x80000000" by (simp add: pte_pa_def kernel_leaf_def)
  moreover have "walk_from p s (Suc (Suc 0)) 0 ?va = walk_from p s (Suc 0) 2 ?va"
    using assms m by (intro walk_from_table) (simp_all add: linked_def)
  moreover have "walk_from p s (Suc 0) 2 ?va = Some (kernel_leaf, pte_pa kernel_leaf + take_bit (12 + 9 * Suc 0) ?va)"
    using assms m by (intro walk_from_leaf) (simp_all add: linked_def kernel_leaf_def pte_consts)
  ultimately show ?thesis using can off by (simp add: walk_def uva2kva_def numeral_2_eq_2)
qed

subsection \<open>Frames\<close>

definition start :: "platform \<Rightarrow> u64" where
  "start p = 1 + ENTROPY p mod 63"

definition frame :: "platform \<Rightarrow> nat \<Rightarrow> u64" where
  "frame p k = 0x80000000 + (63 + (LFSR_NEXT ^^ k) (start p)) * 0x1000"

lemma start_range: "1 \<le> start p \<and> start p < 64"
proof -
  have "unat (ENTROPY p mod 63) < 63" by (simp add: unat_mod)
  then have "unat (start p) = Suc (unat (ENTROPY p mod 63))"
    unfolding start_def by (subst unat_add_lem [THEN iffD1]) simp_all
  with \<open>unat (ENTROPY p mod 63) < 63\<close> show ?thesis by (simp add: word_le_nat_alt word_less_nat_alt)
qed

lemma frame_unat:
  "unat (frame p k) = 0x80000000 + (63 + unat ((LFSR_NEXT ^^ k) (start p))) * 0x1000"
  "1 \<le> unat ((LFSR_NEXT ^^ k) (start p))" "unat ((LFSR_NEXT ^^ k) (start p)) < 64"
proof -
  let ?x = "(LFSR_NEXT ^^ k) (start p)"
  show x: "1 \<le> unat ?x" "unat ?x < 64"
    using LFSR_range [of "start p" k] start_range [of p] by (simp_all add: word_le_nat_alt word_less_nat_alt)
  have "frame p k = of_nat (0x80000000 + (63 + unat ?x) * 0x1000)" by (simp add: frame_def)
  moreover have "0x80000000 + (63 + unat ?x) * 0x1000 < 2 ^ LENGTH(64)" using x(2) by simp
  ultimately show "unat (frame p k) = 0x80000000 + (63 + unat ?x) * 0x1000" by (simp only: unat_of_nat_small)
qed

lemma frame_range: "0x80040000 \<le> unat (frame p k)" "unat (frame p k) < 0x8007F000"
  using frame_unat [where p = p and k = k] by simp_all

lemma frame_aligned: "take_bit 12 (frame p k) = 0"
proof -
  have "unat (take_bit 12 (frame p k)) = 0" unfolding unat_take_bit_nat frame_unat by simp
  then show ?thesis by (simp add: unat_eq_0)
qed

lemma frame_less: "frame p k < 2 ^ 56"
  using frame_range(2) [of p k] by (simp add: word_less_nat_alt)

lemma frame_nonzero: "frame p k \<noteq> 0"
  using frame_range(1) [of p k] by auto

text \<open>The frames lie behind the image, so they hold nothing of the supervisor.\<close>

lemma phys_dram: "\<not> own p a \<Longrightarrow> phys p s a = dram s a"
  by (auto simp: phys_def own_def)

lemma above_image:
  assumes "0x80040000 \<le> unat a"
  shows "\<not> own p a"
proof -
  have "(0x80000000 :: u64) \<le> a" using assms by (simp add: word_le_nat_alt)
  then have "unat (a - 0x80000000) = unat a - 0x80000000" by (simp add: unat_sub)
  with assms have "\<not> in_image a" by (simp add: in_image_def word_less_nat_alt)
  then show ?thesis by (simp add: own_def in_tables_def)
qed

lemma frame_not_own: "j < 0x1000 \<Longrightarrow> \<not> own p (frame p k + of_nat j)"
  using frame_range [of p k] unat_add_nat [of "frame p k" j] by (intro above_image) simp

lemma frame_not_own_page: "\<not> own_page p (frame p k)"
  using frame_not_own by (auto simp: own_page_def list_ex_iff)

definition agree :: "platform \<Rightarrow> memory \<Rightarrow> memory \<Rightarrow> bool" where
  "agree p m m' \<longleftrightarrow> (\<forall>a. \<not> own p a \<longrightarrow> m a = m' a)"

lemma agree_phys: "agree p (phys p s) (dram s)"
  by (simp add: agree_def phys_dram)

text \<open>Different frames are a page apart.\<close>

lemma frame_apart:
  assumes "k < 63" "l < 63" "k \<noteq> l"
  shows "unat (frame p k) + 0x1000 \<le> unat (frame p l) \<or> unat (frame p l) + 0x1000 \<le> unat (frame p k)"
proof -
  have "(LFSR_NEXT ^^ k) (start p) \<noteq> (LFSR_NEXT ^^ l) (start p)"
    using LFSR_inj [of "start p" k l] start_range [of p] assms by auto
  then have "unat ((LFSR_NEXT ^^ k) (start p)) \<noteq> unat ((LFSR_NEXT ^^ l) (start p))" by (simp add: word_unat_eq_iff)
  then show ?thesis unfolding frame_unat by auto
qed

lemma fill_freelist_map:
  "fill_freelist n i x =
     map (\<lambda>k. \<lparr>naddr = 0x80000000 + (63 + (LFSR_NEXT ^^ k) x) * 0x1000, nnext = Free_node (Suc (i + k))\<rparr>) [0..<n]"
proof (induction n arbitrary: i x)
  case (Suc n)
  have "[0..<Suc n] = 0 # map Suc [0..<n]" by (simp add: upt_conv_Cons map_Suc_upt del: upt_Suc)
  then show ?case by (simp add: Suc.IH comp_def funpow_swap1 del: upt_Suc)
qed simp

subsection \<open>The invariant\<close>

definition good_flags :: "u64 \<Rightarrow> bool" where
  "good_flags e \<longleftrightarrow> take_bit 10 e = e \<and> e AND PTE_V \<noteq> 0 \<and> e AND PTE_R \<noteq> 0 \<and> e AND PTE_W \<noteq> 0 \<and> e AND PTE_U \<noteq> 0"

definition mapped_at :: "platform \<Rightarrow> vm \<Rightarrow> nat \<Rightarrow> nat \<Rightarrow> bool" where
  "mapped_at p s i k \<longleftrightarrow> naddr (user_mapping s ! i) = frame p k \<and>
     (\<exists>e. good_flags e \<and> user_llpt s i = frame_pte (frame p k) OR e)"

text \<open>
  The pages in the order they were mapped: page \<open>ps ! k\<close> has frame \<open>k\<close>, and the list of
  free nodes begins behind the last frame taken.
\<close>

definition vm_inv :: "platform \<Rightarrow> nat list \<Rightarrow> vm \<Rightarrow> bool" where
  "vm_inv p ps s \<longleftrightarrow>
     linked p s \<and> length (user_mapping s) = 63 \<and>
     (\<forall>k<63. naddr (freelist_nodes s ! k) = frame p k) \<and>
     (\<forall>k<62. nnext (freelist_nodes s ! k) = Free_node (Suc k)) \<and>
     freelist_head s = Free_node (length ps) \<and> distinct ps \<and> set ps \<subseteq> {1..<63} \<and>
     (\<forall>i. i \<notin> set ps \<longrightarrow> user_llpt s i = 0) \<and>
     (\<forall>i<63. i \<notin> set ps \<longrightarrow> naddr (user_mapping s ! i) = 0) \<and>
     (\<forall>k<length ps. mapped_at p s (ps ! k) k)"

definition pf_ok :: "platform \<Rightarrow> bool" where
  "pf_ok p \<longleftrightarrow> (\<forall>a. case pf_filter p a 0 1 of (r, e, _) \<Rightarrow> r = 0 \<or> good_flags e)"

definition platform_ok :: "platform \<Rightarrow> bool" where
  "platform_ok p \<longleftrightarrow> placed p \<and> pf_ok p \<and> mhartid p = 0 \<and> satp_read p (satp_value p) = satp_value p"

lemma vm_inv_length: "vm_inv p ps s \<Longrightarrow> length ps \<le> 62"
proof -
  assume "vm_inv p ps s"
  then have "distinct ps" "set ps \<subseteq> {1..<63}" by (simp_all add: vm_inv_def)
  then show ?thesis using card_mono [of "{1..<63}" "set ps"] by (simp add: distinct_card)
qed

lemma new_pte_frame:
  assumes "pf_ok p"
  shows "\<exists>e. good_flags e \<and> new_pte p addr a = frame_pte a OR e"
proof -
  obtain r e c where f: "pf_filter p addr 0 1 = (r, e, c)" by (cases "pf_filter p addr 0 1") auto
  with assms have ok: "r = 0 \<or> good_flags e" unfolding pf_ok_def by (metis (mono_tags, lifting) case_prod_conv)
  have "good_flags (PTE_V OR PTE_U OR PTE_R OR PTE_W OR PTE_X)" by (simp add: good_flags_def pte_consts)
  with ok show ?thesis by (cases "r = 0") (auto simp: new_pte_def f)
qed

lemma good_flags_or: "good_flags e \<Longrightarrow> take_bit 10 f = f \<Longrightarrow> good_flags (e OR f)"
  by (simp add: good_flags_def take_bit_or bit.conj_disj_distrib2 or_eq_0_iff)

lemma good_flags_frame:
  assumes "good_flags e"
  shows "(frame_pte a OR e) AND PTE_V \<noteq> 0" "(frame_pte a OR e) AND PTE_R \<noteq> 0" "(frame_pte a OR e) AND PTE_W \<noteq> 0"
    "(frame_pte a OR e) AND PTE_U \<noteq> 0" "(frame_pte a OR e) AND (PTE_R OR PTE_W OR PTE_X) \<noteq> 0" "frame_pte a OR e \<noteq> 0"
proof -
  show *: "(frame_pte a OR e) AND PTE_V \<noteq> 0" "(frame_pte a OR e) AND PTE_R \<noteq> 0" "(frame_pte a OR e) AND PTE_W \<noteq> 0"
    "(frame_pte a OR e) AND PTE_U \<noteq> 0"
    using assms by (simp_all add: good_flags_def pte_flag PTE_V_def PTE_R_def PTE_W_def PTE_U_def)
  show "(frame_pte a OR e) AND (PTE_R OR PTE_W OR PTE_X) \<noteq> 0"
    using *(2) by (simp add: bit.conj_disj_distrib or_eq_0_iff)
  show "frame_pte a OR e \<noteq> 0" using *(1) by auto
qed

subsection \<open>Faults\<close>

lemma set_pte_simps [simp]:
  "pt (set_pte t i v s) = (pt s)(t := (pt s t)(i := v))" "user_mapping (set_pte t i v s) = user_mapping s"
  "freelist_nodes (set_pte t i v s) = freelist_nodes s" "freelist_head (set_pte t i v s) = freelist_head s"
  "dram (set_pte t i v s) = dram s" "sent (set_pte t i v s) = sent s" "clock (set_pte t i v s) = clock s"
  by (simp_all add: set_pte_def)

lemma pop_free_simps [simp]:
  "pt (pop_free s) = pt s" "user_mapping (pop_free s) = user_mapping s" "freelist_nodes (pop_free s) = freelist_nodes s"
  "freelist_head (pop_free s) = nnext (node_at s (freelist_head s))" "dram (pop_free s) = dram s"
  by (simp_all add: pop_free_def Let_def)

lemma linked_pt: "pt s' 0 = pt s 0 \<Longrightarrow> pt s' 1 = pt s 1 \<Longrightarrow> pt s' 2 = pt s 2 \<Longrightarrow> linked p s \<Longrightarrow> linked p s'"
  by (simp add: linked_def)

lemma in_test_pages_page:
  assumes "in_test_pages va"
  shows "va < 0x200000" "1 \<le> unat (va div 0x1000)" "unat (va div 0x1000) < 63" "va div 0x1000 * 0x1000 < 0x200000"
    "va div 0x1000 * 0x1000 div 0x1000 = va div 0x1000" "take_bit 12 (va div 0x1000 * 0x1000) = 0"
proof -
  have u: "0x1000 \<le> unat va" "unat va < 0x3F000" using assms by (simp_all add: in_test_pages_def word_le_nat_alt word_less_nat_alt)
  then have d: "1 \<le> unat va div 0x1000" "unat va div 0x1000 < 63" by (simp_all add: less_mult_imp_div_less)
  then show "1 \<le> unat (va div 0x1000)" "unat (va div 0x1000) < 63" by (simp_all add: unat_div)
  have p: "unat (va div 0x1000 * 0x1000) = unat va div 0x1000 * 0x1000"
    using d(2) by (subst unat_mult_lem [THEN iffD1]) (simp_all add: unat_div)
  show "va < 0x200000" using u(2) by (simp add: word_less_nat_alt)
  show "va div 0x1000 * 0x1000 < 0x200000" using p d(2) by (simp add: word_less_nat_alt)
  show "va div 0x1000 * 0x1000 div 0x1000 = va div 0x1000" by (rule word_unat_eq_iff [THEN iffD2]) (simp add: unat_div p)
  have "unat (take_bit 12 (va div 0x1000 * 0x1000)) = 0" unfolding unat_take_bit_nat p by simp
  then show "take_bit 12 (va div 0x1000 * 0x1000) = 0" by (simp add: unat_eq_0)
qed

lemma walk_mapped:
  assumes "placed p" "linked p s" "va < 0x200000" "good_flags e"
    and "user_llpt s (unat (va div 0x1000)) = frame_pte (frame p k) OR e"
  shows "walk p s va = Some (frame_pte (frame p k) OR e, frame p k + take_bit 12 va)"
proof -
  have "pte_pa (frame_pte (frame p k) OR e) = frame p k"
    using assms(4) frame_aligned frame_less by (intro pte_pa_frame) (simp_all add: good_flags_def)
  then show ?thesis using good_flags_frame [OF assms(4)] by (simp add: walk_user [OF assms(1-3)] assms(5))
qed

lemma kernel_pa_kernel:
  assumes "placed p" "linked p s" "a < 0x200000"
  shows "kernel_pa p s u st (uva2kva a) = Some (0x80000000 + a)"
  by (simp add: kernel_pa_def walk_kernel [OF assms] kernel_leaf_def pte_consts)

lemma kernel_pa_user:
  assumes "placed p" "linked p s" "va < 0x200000" "good_flags e" "e AND PTE_A \<noteq> 0" "st \<Longrightarrow> e AND PTE_D \<noteq> 0"
    and "user_llpt s (unat (va div 0x1000)) = frame_pte (frame p k) OR e"
  shows "kernel_pa p s True st va = Some (frame p k + take_bit 12 va)"
proof -
  have "(frame_pte (frame p k) OR e) AND PTE_A = e AND PTE_A" "(frame_pte (frame p k) OR e) AND PTE_D = e AND PTE_D"
    by (rule pte_flag, simp add: pte_consts)+
  then show ?thesis
    using assms(5,6) good_flags_frame [OF assms(4)] by (simp add: kernel_pa_def walk_mapped [OF assms(1-4,7)])
qed

lemma page_base:
  assumes "i < 63"
  shows "unat (0x80000000 + of_nat i * 0x1000 :: u64) = 0x80000000 + i * 0x1000"
proof -
  have "unat (of_nat (0x80000000 + i * 0x1000) :: u64) = 0x80000000 + i * 0x1000"
    using assms by (intro unat_of_nat_small) simp
  then show ?thesis by simp
qed

lemma page_apart:
  assumes "i < 63"
  shows "apart (frame p k) (0x80000000 + of_nat i * 0x1000) 0x1000" "apart (0x80000000 + of_nat i * 0x1000) (frame p k) 0x1000"
  using assms frame_range [of p k] by (intro apart_ranges; simp add: page_base)+

lemma assert_c_true [simp]: "x \<Longrightarrow> assert_c p x msg s k = k s"
  by (simp add: assert_c_def)

lemma page_number:
  assumes "i < 63"
  shows "unat (of_nat i * 0x1000 :: u64) = i * 0x1000" "(of_nat i * 0x1000 :: u64) < 0x200000"
    "unat (of_nat i * 0x1000 div 0x1000 :: u64) = i" "take_bit 12 (of_nat i * 0x1000 :: u64) = 0"
proof -
  show u: "unat (of_nat i * 0x1000 :: u64) = i * 0x1000"
    using unat_of_nat_small [of "i * 0x1000", where 'a = 64] assms by simp
  show "(of_nat i * 0x1000 :: u64) < 0x200000" "unat (of_nat i * 0x1000 div 0x1000 :: u64) = i"
    using assms by (simp_all add: word_less_nat_alt unat_div u)
  have "unat (take_bit 12 (of_nat i * 0x1000 :: u64)) = 0" unfolding unat_take_bit_nat u by simp
  then show "take_bit 12 (of_nat i * 0x1000 :: u64) = 0" by (simp add: unat_eq_0)
qed

lemma copy_page_in:
  assumes "placed p" "linked p s" "i < 63" "good_flags e" "e AND PTE_A \<noteq> 0" "e AND PTE_D \<noteq> 0"
    and "user_llpt s i = frame_pte (frame p k) OR e"
  shows "copy_page p (of_nat i * 0x1000) (uva2kva (of_nat i * 0x1000)) s c =
    c (s\<lparr>dram := copy_mem (phys p s) (frame p k) (0x80000000 + of_nat i * 0x1000) 0x1000\<rparr>)"
proof -
  let ?a = "of_nat i * 0x1000 :: u64"
  note a = page_number [OF assms(3)]
  have "kernel_pa p s True True ?a = Some (frame p k)"
    using kernel_pa_user [OF assms(1,2) a(2) assms(4,5,6)] assms(7) a(3,4) by simp
  moreover have "kernel_pa p s True False (uva2kva ?a) = Some (0x80000000 + ?a)"
    by (rule kernel_pa_kernel [OF assms(1,2) a(2)])
  moreover have "memcpy (phys p s) (frame p k) (0x80000000 + ?a) 0x1000 =
      Some (frame p k, copy_mem (phys p s) (frame p k) (0x80000000 + ?a) 0x1000)"
    using memcpy_eq [where dest = "frame p k" and len = "0x1000" and src = "0x80000000 + ?a"] page_apart [OF assms(3), of p k] frame_range(2) [of p k] by simp
  ultimately show ?thesis by (simp add: copy_page_def frame_not_own_page)
qed

lemma page_index: "in_test_pages addr \<Longrightarrow> i = unat (addr div 0x1000) \<Longrightarrow> addr div 0x1000 * 0x1000 = of_nat i * 0x1000"
  by simp

lemma fault_unmapped:
  assumes inv: "vm_inv p ps s" and ok: "platform_ok p" and addr: "in_test_pages addr"
    and i: "i = unat (addr div 0x1000)" and new: "i \<notin> set ps"
  shows "\<exists>s' e m. handle_fault p addr c s = Some (Go s') \<and> good_flags e \<and>
    pt s' = (pt s)(3 := (pt s 3)(i := frame_pte (frame p (length ps)) OR e)) \<and>
    user_mapping s' = (user_mapping s)[i := freelist_nodes s ! length ps] \<and>
    freelist_nodes s' = freelist_nodes s \<and> freelist_head s' = nnext (freelist_nodes s ! length ps) \<and>
    agree p m (dram s) \<and> dram s' = copy_mem m (frame p (length ps)) (0x80000000 + of_nat i * 0x1000) 0x1000"
proof -
  let ?k = "length ps"
  have k: "?k < 63" using vm_inv_length [OF inv] by simp
  have i63: "1 \<le> i" "i < 63" using in_test_pages_page [OF addr] i by simp_all
  have head: "freelist_head s = Free_node ?k" "node_at s (Free_node ?k) = freelist_nodes s ! ?k"
    "naddr (freelist_nodes s ! ?k) = frame p ?k"
    using inv k by (simp_all add: vm_inv_def node_at_def)
  obtain e where e: "good_flags e" "new_pte p (of_nat i * 0x1000) (frame p ?k) = frame_pte (frame p ?k) OR e"
    using new_pte_frame ok unfolding platform_ok_def by blast
  let ?f = "e OR PTE_A OR PTE_D"
  let ?s1 = "set_pte 3 i (frame_pte (frame p ?k) OR ?f) (pop_free s)"
  let ?s2 = "?s1\<lparr>user_mapping := (user_mapping s)[i := freelist_nodes s ! ?k]\<rparr>"
  let ?s3 = "set_pte 3 i (frame_pte (frame p ?k) OR e)
      (?s2\<lparr>dram := copy_mem (phys p ?s2) (frame p ?k) (0x80000000 + of_nat i * 0x1000) 0x1000\<rparr>)"
  have f: "good_flags ?f" "?f AND PTE_A \<noteq> 0" "?f AND PTE_D \<noteq> 0"
    using e(1) by (intro good_flags_or, simp_all add: pte_consts bit.conj_disj_distrib2 or_eq_0_iff)
  have link: "linked p ?s2" using inv by (intro linked_pt [of ?s2 s]) (simp_all add: vm_inv_def)
  have "copy_page p (of_nat i * 0x1000) (uva2kva (of_nat i * 0x1000)) ?s2 c' =
      c' (?s2\<lparr>dram := copy_mem (phys p ?s2) (frame p ?k) (0x80000000 + of_nat i * 0x1000) 0x1000\<rparr>)" for c'
    using ok link i63(2) f unfolding platform_ok_def by (intro copy_page_in [where e = ?f]) simp_all
  moreover have "user_llpt s i = 0" "naddr (user_mapping s ! i) = 0" using inv new i63 by (simp_all add: vm_inv_def)
  ultimately have "handle_fault p addr c s = Some (Go ?s3)"
    using addr e(2) head 
    by (simp add: handle_fault_def page_index [OF addr i] page_number(3) [OF i63(2)] Let_def or.assoc)
  with e(1) head agree_phys [of p ?s2] show ?thesis
    by (intro exI [of _ ?s3] exI [of _ e] exI [of _ "phys p ?s2"]) simp
qed

lemma fault_inv:
  assumes inv: "vm_inv p ps s" and i: "1 \<le> i" "i < 63" "i \<notin> set ps" and e: "good_flags e"
    and s': "pt s' = (pt s)(3 := (pt s 3)(i := frame_pte (frame p (length ps)) OR e))"
      "user_mapping s' = (user_mapping s)[i := freelist_nodes s ! length ps]"
      "freelist_nodes s' = freelist_nodes s" "freelist_head s' = nnext (freelist_nodes s ! length ps)"
  shows "vm_inv p (ps @ [i]) s'"
proof -
  have "set (ps @ [i]) \<subseteq> {1..<63}" "distinct (ps @ [i])" using inv i by (simp_all add: vm_inv_def)
  then have "length (ps @ [i]) \<le> 62" using card_mono [of "{1..<63}" "set (ps @ [i])"] by (simp add: distinct_card)
  then have k: "length ps < 62" by simp
  have map: "mapped_at p s' (ps ! l) l" if "l < length ps" for l
  proof -
    have "ps ! l \<noteq> i" using that i(3) by auto
    with inv that show ?thesis by (simp add: vm_inv_def mapped_at_def s'(1,2))
  qed
  have "mapped_at p s' i (length ps)"
    using inv i(2) k e by (auto simp: vm_inv_def mapped_at_def s'(1,2))
  with map have "mapped_at p s' ((ps @ [i]) ! l) l" if "l < length (ps @ [i])" for l
    using that by (auto simp: nth_append less_Suc_eq)
  moreover have "linked p s'" using inv by (intro linked_pt [of s' s]) (simp_all add: vm_inv_def s'(1))
  ultimately show ?thesis using inv k i unfolding vm_inv_def s' by simp
qed

subsection \<open>What the user program sees\<close>

text \<open>
  A byte of the program's pages: in its frame when the page is mapped, else in the
  place from which the page will be copied.
\<close>

definition place :: "platform \<Rightarrow> vm \<Rightarrow> u64 \<Rightarrow> u64" where
  "place p s va = (case walk p s va of Some (_, pa) \<Rightarrow> pa | None \<Rightarrow> 0x80000000 + va)"

definition seen :: "platform \<Rightarrow> vm \<Rightarrow> u64 \<Rightarrow> u8" where
  "seen p s va = phys p s (place p s va)"

text \<open>A byte of the program: of its pages, and not a variable of the supervisor.\<close>

definition program_byte :: "platform \<Rightarrow> u64 \<Rightarrow> bool" where
  "program_byte p va \<longleftrightarrow> in_test_pages va \<and> \<not> own p (DRAM_BASE + va)"

lemma program_byteD: "program_byte p va \<Longrightarrow> in_test_pages va" "program_byte p va \<Longrightarrow> \<not> own p (0x80000000 + va)"
  by (simp_all add: program_byte_def)

lemma offset_less: "unat (take_bit 12 va) < 0x1000" for va :: u64
  unfolding unat_take_bit_nat by simp

lemma seen_mapped:
  assumes inv: "vm_inv p ps s" and pl: "placed p" and va: "in_test_pages va" and k: "k < length ps" "unat (va div 0x1000) = ps ! k"
  shows "\<exists>e. good_flags e \<and> user_llpt s (ps ! k) = frame_pte (frame p k) OR e \<and>
    walk p s va = Some (user_llpt s (ps ! k), frame p k + take_bit 12 va)"
    and "seen p s va = dram s (frame p k + take_bit 12 va)"
proof -
  have link: "linked p s" using inv by (simp add: vm_inv_def)
  obtain e where e: "good_flags e" "user_llpt s (ps ! k) = frame_pte (frame p k) OR e"
    using inv k(1) by (auto simp: vm_inv_def mapped_at_def)
  have w: "walk p s va = Some (user_llpt s (ps ! k), frame p k + take_bit 12 va)"
    using walk_mapped [OF pl link in_test_pages_page(1) [OF va] e(1)] e(2) k(2) by simp
  then show "\<exists>e. good_flags e \<and> user_llpt s (ps ! k) = frame_pte (frame p k) OR e \<and>
    walk p s va = Some (user_llpt s (ps ! k), frame p k + take_bit 12 va)" using e by blast
  have "\<not> own p (frame p k + take_bit 12 va)"
    using frame_not_own [OF offset_less] by simp
  then show "seen p s va = dram s (frame p k + take_bit 12 va)" using w by (simp add: seen_def place_def phys_dram)
qed

lemma seen_unmapped:
  assumes inv: "vm_inv p ps s" and pl: "placed p" and va: "in_test_pages va" and new: "unat (va div 0x1000) \<notin> set ps"
  shows "walk p s va = None" "program_byte p va \<Longrightarrow> seen p s va = dram s (0x80000000 + va)"
proof -
  have "linked p s" "user_llpt s (unat (va div 0x1000)) = 0" using inv new by (simp_all add: vm_inv_def)
  then show "walk p s va = None" using walk_user [OF pl _ in_test_pages_page(1) [OF va]] by simp
  then show "program_byte p va \<Longrightarrow> seen p s va = dram s (0x80000000 + va)"
    by (simp add: seen_def place_def phys_dram program_byteD)
qed

lemma page_split: "of_nat (unat (va div 0x1000)) * 0x1000 + take_bit 12 va = va" for va :: u64
proof -
  have "take_bit 12 va = va mod 0x1000" by (simp add: take_bit_eq_mod)
  then show ?thesis using div_mult_mod_eq [of va "0x1000"] by simp
qed

lemma frame_offset: "unat (frame p k + take_bit 12 va) = unat (frame p k) + unat (take_bit 12 va)"
  using frame_range(2) [of p k] offset_less [of va] by (intro unat_add_lem [THEN iffD1]) simp

lemma copy_mem_outside:
  assumes "unat d + n < 2 ^ 64" "unat x < unat d \<or> unat d + n \<le> unat x"
  shows "copy_mem m d r n x = m x"
proof -
  have "unat (x - d) = (if unat d \<le> unat x then unat x - unat d else unat x + 2 ^ LENGTH(64) - unat d)"
    by (rule unat_sub_if')
  then have "n \<le> unat (x - d)" using assms by auto
  then show ?thesis by (simp add: copy_mem_def)
qed

lemma copy_mem_inside: "unat y < n \<Longrightarrow> copy_mem m d r n (d + y) = m (r + y)"
  by (simp add: copy_mem_def)

lemma backing_unat:
  assumes "in_test_pages va"
  shows "unat (0x80000000 + va) = 0x80000000 + unat va" "unat va < 0x3F000"
proof -
  show "unat va < 0x3F000" using assms by (simp add: in_test_pages_def word_less_nat_alt)
  then show "unat (0x80000000 + va) = 0x80000000 + unat va" by (subst unat_add_lem [THEN iffD1]) simp_all
qed

lemma fault_seen:
  assumes inv: "vm_inv p ps s" and inv': "vm_inv p (ps @ [i]) s'" and pl: "placed p" and byte: "program_byte p va" and m: "agree p m (dram s)"
    and dr: "dram s' = copy_mem m (frame p (length ps)) (0x80000000 + of_nat i * 0x1000) 0x1000"
  shows "seen p s' va = seen p s va"
proof -
  let ?k = "length ps" and ?j = "unat (va div 0x1000)"
  note va = program_byteD(1) [OF byte]
  have base: "m (0x80000000 + va) = dram s (0x80000000 + va)" using m program_byteD(2) [OF byte] by (simp add: agree_def)
  have k: "?k < 63" using vm_inv_length [OF inv'] by simp
  have room: "unat (frame p ?k) + 0x1000 < 2 ^ 64" using frame_range(2) [of p ?k] by simp
  have i: "i \<notin> set ps" using inv' by (simp add: vm_inv_def)
  consider "?j = i" | l where "l < ?k" "?j = ps ! l" "?j \<noteq> i" | "?j \<notin> set (ps @ [i])"
    by (cases "?j = i"; cases "?j \<in> set ps") (auto simp: in_set_conv_nth)
  then show ?thesis
  proof cases
    case 1
    have "seen p s' va = dram s' (frame p ?k + take_bit 12 va)"
      using seen_mapped(2) [OF inv' pl va, of ?k] 1 by simp
    also have "\<dots> = m (0x80000000 + (of_nat i * 0x1000 + take_bit 12 va))"
      using offset_less [of va] by (simp add: dr copy_mem_inside add.assoc)
    finally show ?thesis using seen_unmapped(2) [OF inv pl va _ byte] i 1 page_split [of va] base by simp
  next
    case 2
    have "seen p s' va = dram s' (frame p l + take_bit 12 va)"
      using seen_mapped(2) [OF inv' pl va, of l] 2 by (simp add: nth_append)
    also have "\<dots> = m (frame p l + take_bit 12 va)"
      unfolding dr using room frame_apart [of l ?k p] 2(1) k offset_less [of va]
      by (intro copy_mem_outside) (auto simp: frame_offset)
    also have "\<dots> = dram s (frame p l + take_bit 12 va)"
      using m frame_not_own [OF offset_less, of p l va] by (simp add: agree_def)
    finally show ?thesis using seen_mapped(2) [OF inv pl va 2(1,2)] by simp
  next
    case 3
    have "dram s' (0x80000000 + va) = dram s (0x80000000 + va)"
      unfolding dr using room frame_range(1) [of p ?k] backing_unat [OF va] base by (subst copy_mem_outside) simp_all
    then show ?thesis using seen_unmapped(2) [OF inv pl va _ byte] seen_unmapped(2) [OF inv' pl va _ byte] 3 by simp
  qed
qed

lemma pte_update_inv:
  assumes inv: "vm_inv p ps s" and f: "take_bit 10 f = f" and i: "i \<in> set ps"
  shows "vm_inv p ps (set_pte 3 i (user_llpt s i OR f) (s\<lparr>dram := m\<rparr>))"
proof -
  let ?s = "set_pte 3 i (user_llpt s i OR f) (s\<lparr>dram := m\<rparr>)"
  have "mapped_at p ?s (ps ! l) l" if "l < length ps" for l
  proof -
    obtain e where e: "good_flags e" "user_llpt s (ps ! l) = frame_pte (frame p l) OR e" "naddr (user_mapping s ! (ps ! l)) = frame p l"
      using inv \<open>l < length ps\<close> by (auto simp: vm_inv_def mapped_at_def)
    then have "user_llpt ?s (ps ! l) = frame_pte (frame p l) OR (if ps ! l = i then e OR f else e)" by (auto simp: or.assoc)
    moreover have "good_flags (if ps ! l = i then e OR f else e)" using e(1) f by (simp add: good_flags_or)
    ultimately show ?thesis using e(3) by (auto simp: mapped_at_def)
  qed
  moreover have "linked p ?s" using inv by (intro linked_pt [of ?s s]) (simp_all add: vm_inv_def)
  ultimately show ?thesis using inv i by (auto simp: vm_inv_def)
qed

subsection \<open>The user program\<close>

text \<open>
  The pages a program can reach are the mapped ones; the supervisor's two megabytes
  are not user pages.
\<close>

lemma low_from_index:
  assumes "canonical va" "take_bit 9 (drop_bit 30 va) = 0" "take_bit 9 (drop_bit 21 va) = 0"
  shows "va < 0x200000"
proof -
  have z: "\<not> bit va n" if "21 \<le> n" "n < 39" for n
  proof (cases "30 \<le> n")
    case True
    then show ?thesis using arg_cong [OF assms(2), of "\<lambda>w. bit w (n - 30)"] that by (simp add: bit_simps)
  next
    case False
    then show ?thesis using arg_cong [OF assms(3), of "\<lambda>w. bit w (n - 21)"] that by (simp add: bit_simps)
  qed
  have "\<not> bit va n" if "21 \<le> n" for n
  proof (cases "n < 39")
    case False
    have "bit va n \<longleftrightarrow> bit (signed_take_bit 38 va) n" using assms(1) by (simp add: canonical_def)
    also have "\<dots> \<longleftrightarrow> n < 64 \<and> bit va 38" using False by (simp add: bit_signed_take_bit_iff)
    finally show ?thesis using z [of 38] by simp
  qed (use z that in blast)
  then have "take_bit 21 va = va" by (intro bit_word_eqI) (auto simp: bit_take_bit_iff not_le [symmetric])
  moreover have "unat (take_bit 21 va) < 2 ^ 21" unfolding unat_take_bit_nat by simp
  ultimately show ?thesis by (simp add: word_less_nat_alt)
qed

lemma user_walk_low:
  assumes "placed p" "linked p s" "walk p s va = Some (pte, pa)" "pte AND PTE_U \<noteq> 0"
  shows "va < 0x200000"
proof -
  let ?i = "\<lambda>n. unat (take_bit 9 (drop_bit n va))"
  have can: "canonical va" and w: "walk_from p s (Suc (Suc 0)) 0 va = Some (pte, pa)"
    using assms(3) by (simp_all add: walk_def numeral_2_eq_2 split: if_splits)
  have "?i 30 = 0 \<or> ?i 30 = 511"
    using w walk_from_none [of s 0 "Suc (Suc 0)" va p] assms(2)
    by (cases "?i 30 = 0"; cases "?i 30 = 511") (simp_all add: linked_def)
  moreover have "?i 30 \<noteq> 511"
  proof
    assume i: "?i 30 = 511"
    then have w1: "walk_from p s (Suc 0) 2 va = Some (pte, pa)"
      using w walk_from_table [OF assms(1), of 2 s 0 "Suc 0" va] assms(2) by (simp add: linked_def)
    have "?i 21 = 511"
      using w1 walk_from_none [of s 2 "Suc 0" va p] assms(2) by (cases "?i 21 = 511") (simp_all add: linked_def)
    then have "pte = kernel_leaf"
      using w1 walk_from_leaf [of s 2 "Suc 0" va kernel_leaf p] assms(2) by (simp add: linked_def kernel_leaf_def pte_consts)
    with assms(4) show False by (simp add: kernel_leaf_def PTE_U_def)
  qed
  ultimately have i2: "?i 30 = 0" by simp
  then have w1: "walk_from p s (Suc 0) 1 va = Some (pte, pa)"
    using w walk_from_table [OF assms(1), of 1 s 0 "Suc 0" va] assms(2) by (simp add: linked_def)
  have "?i 21 = 0"
    using w1 walk_from_none [of s 1 "Suc 0" va p] assms(2) by (cases "?i 21 = 0") (simp_all add: linked_def)
  with i2 show ?thesis using low_from_index [OF can] by (simp add: unat_eq_0)
qed

lemma user_walk:
  assumes inv: "vm_inv p ps s" and pl: "placed p" and w: "walk p s va = Some (pte, pa)" "pte AND PTE_U \<noteq> 0"
  shows "in_test_pages va" "unat (va div 0x1000) \<in> set ps"
proof -
  have link: "linked p s" using inv by (simp add: vm_inv_def)
  have low: "va < 0x200000" using user_walk_low [OF pl link w] .
  show page: "unat (va div 0x1000) \<in> set ps"
  proof (rule ccontr)
    assume "unat (va div 0x1000) \<notin> set ps"
    then have "user_llpt s (unat (va div 0x1000)) = 0" using inv by (simp add: vm_inv_def)
    with w(1) walk_user [OF pl link low] show False by simp
  qed
  then have "1 \<le> unat va div 0x1000" "unat va div 0x1000 < 63" using inv by (auto simp: vm_inv_def unat_div)
  then show "in_test_pages va" by (simp add: in_test_pages_def word_le_nat_alt word_less_nat_alt div_less_iff_less_mult)
qed

text \<open>
  An access of the user program: the page must be a user page with the right, and the
  machine records the access in the entry. (A machine that traps instead leaves that
  to \<open>handle_fault\<close>, and the entry has the bits by then.)
\<close>

definition user_pa :: "platform \<Rightarrow> vm \<Rightarrow> u64 \<Rightarrow> u64 \<Rightarrow> u64 option" where
  "user_pa p s right va =
     (case walk p s va of None \<Rightarrow> None
      | Some (pte, pa) \<Rightarrow> if pte AND PTE_U \<noteq> 0 \<and> pte AND right \<noteq> 0 then Some pa else None)"

definition user_touch :: "u64 \<Rightarrow> u64 \<Rightarrow> memory \<Rightarrow> vm \<Rightarrow> vm" where
  "user_touch va bits m s =
     (let i = unat (va div PGSIZE) in set_pte 3 i (user_llpt s i OR bits) (s\<lparr>dram := m\<rparr>))"

text \<open>The states of a test run, with the stores its program has done.\<close>

inductive vm_reach :: "platform \<Rightarrow> vm \<Rightarrow> (u64 \<times> u8) list \<Rightarrow> vm \<Rightarrow> bool" for p s0 where
  boot: "vm_boot p test_addr s0 = Some (Exit (Resume tf) s) \<Longrightarrow> vm_reach p s0 [] s"
| load: "vm_reach p s0 w s \<Longrightarrow> user_pa p s (PTE_R OR PTE_X) va = Some pa \<Longrightarrow>
    vm_reach p s0 w (user_touch va PTE_A (dram s) s)"
| store: "vm_reach p s0 w s \<Longrightarrow> user_pa p s PTE_W va = Some pa \<Longrightarrow>
    vm_reach p s0 (w @ [(va, b)]) (user_touch va (PTE_A OR PTE_D) ((dram s)(pa := b)) s)"
| fault: "vm_reach p s0 w s \<Longrightarrow> handle_fault p va c s = Some (Go s') \<Longrightarrow> vm_reach p s0 w s'"

text \<open>The image the loader left: no entry in the tables, no page recorded.\<close>

definition zeroed :: "vm \<Rightarrow> bool" where
  "zeroed s \<longleftrightarrow> pt s = (\<lambda>_ _. 0) \<and> user_mapping s = replicate 63 \<lparr>naddr = 0, nnext = Null\<rparr>"

lemma vm_boot_starts:
  assumes "platform_ok p" "zeroed s0"
  shows "\<exists>s. vm_boot p test_addr s0 =
      Some (Exit (Resume \<lparr>gpr = replicate 32 0, sr = 0, epc = test_addr - 0x80000000, badvaddr = 0, cause = 0\<rparr>) s) \<and>
    vm_inv p [] s \<and> dram s = dram s0"
proof -
  let ?s1 = "(map_tables p s0)\<lparr>csr := (csr (map_tables p s0))\<lparr>satp := satp_value p\<rparr>\<rparr>"
  let ?s = "init_freelist (ENTROPY p) (?s1\<lparr>csr := trap_csrs p (csr ?s1)\<rparr>)"
  have nodes: "freelist_nodes ?s ! k = \<lparr>naddr = frame p k, nnext = (if k = 62 then Null else Free_node (Suc k))\<rparr>" if "k < 63" for k
    using that by (simp add: init_freelist_def Let_def fill_freelist_map frame_def start_def nth_list_update)
  have pt: "pt ?s = pt (map_tables p s0)" "user_mapping ?s = user_mapping s0" "dram ?s = dram s0" "freelist_head ?s = Free_node 0"
    by (simp_all add: init_freelist_def Let_def map_tables_def)
  have "linked p ?s"
    unfolding linked_def pt using assms(2) by (simp add: map_tables_def Let_def zeroed_def kernel_leaf_def pte_consts fun_upd_twist)
  moreover have "user_llpt ?s i = 0" for i unfolding pt using assms(2) by (simp add: map_tables_def Let_def zeroed_def)
  moreover have "length (user_mapping ?s) = 63" "\<forall>i<63. naddr (user_mapping ?s ! i) = 0"
    unfolding pt using assms(2) by (simp_all add: zeroed_def)
  ultimately have "vm_inv p [] ?s" unfolding vm_inv_def pt using nodes by simp
  moreover have "vm_boot p test_addr s0 =
      Some (Exit (Resume \<lparr>gpr = replicate 32 0, sr = 0, epc = test_addr - 0x80000000, badvaddr = 0, cause = 0\<rparr>) ?s)"
    using assms(1) by (simp add: vm_boot_def Let_def platform_ok_def)
  ultimately show ?thesis using pt(3) by blast
qed

lemma assert_fails_no_Go: "assert_c p False msg s k \<noteq> Some (Go s')"
  by (auto simp: assert_c_def terminate_def bind_eq_Some_conv)

lemma fault_mapped:
  assumes "handle_fault p va c s = Some (Go s')"
  shows "in_test_pages va \<and> (user_llpt s (unat (va div 0x1000)) = 0 \<or>
    (\<exists>f. f \<in> {PTE_A, PTE_D} \<and> s' = user_touch va f (dram s) s))"
proof -
  have r: "in_test_pages va" using assms assert_fails_no_Go by (cases "in_test_pages va") (auto simp: handle_fault_def)
  let ?i = "unat (va div 0x1000)"
  have "set_access_bits p ?i c s = Some (Go s')" if "user_llpt s ?i \<noteq> 0"
    using assms r that in_test_pages_page(5) [OF r] by (simp add: handle_fault_def Let_def)
  moreover have "s' = set_pte 3 ?i (user_llpt s ?i OR PTE_A) s \<or> s' = set_pte 3 ?i (user_llpt s ?i OR PTE_D) s"
    if "set_access_bits p ?i c s = Some (Go s')"
  proof (cases "user_llpt s ?i AND PTE_A = 0")
    case False
    with that show ?thesis using assert_fails_no_Go
      by (cases "user_llpt s ?i AND PTE_D = 0 \<and> c = CAUSE_STORE_PAGE_FAULT") (auto simp: set_access_bits_def)
  qed (use that in \<open>simp add: set_access_bits_def\<close>)
  ultimately show ?thesis using r by (auto simp: user_touch_def Let_def)
qed

lemma touch_inv:
  assumes "vm_inv p ps s" "unat (va div 0x1000) \<in> set ps" "take_bit 10 f = f"
  shows "vm_inv p ps (user_touch va f m s)"
  using pte_update_inv [OF assms(1,3,2)] by (simp add: user_touch_def Let_def)

lemma user_touch_dram [simp]: "dram (user_touch va f m s) = m"
  by (simp add: user_touch_def Let_def)

lemma user_page:
  assumes "vm_inv p ps s" "placed p" "user_pa p s right va = Some pa"
  obtains k where "in_test_pages va" "k < length ps" "unat (va div 0x1000) = ps ! k" "pa = frame p k + take_bit 12 va"
proof -
  obtain pte where w: "walk p s va = Some (pte, pa)" "pte AND PTE_U \<noteq> 0"
    using assms(3) by (auto simp: user_pa_def split: option.splits if_splits)
  note page = user_walk [OF assms(1,2) w]
  then obtain k where k: "k < length ps" "unat (va div 0x1000) = ps ! k" by (auto simp: in_set_conv_nth)
  then have "pa = frame p k + take_bit 12 va" using seen_mapped(1) [OF assms(1,2) page(1)] w(1) by auto
  with that page(1) k show ?thesis by blast
qed

lemma place_cases:
  assumes "vm_inv p ps s" "placed p" "in_test_pages v"
  shows "(\<exists>k<length ps. unat (v div 0x1000) = ps ! k \<and> place p s v = frame p k + take_bit 12 v) \<or>
    unat (v div 0x1000) \<notin> set ps \<and> place p s v = 0x80000000 + v"
proof (cases "unat (v div 0x1000) \<in> set ps")
  case True
  then obtain k where k: "k < length ps" "unat (v div 0x1000) = ps ! k" by (auto simp: in_set_conv_nth)
  then show ?thesis using seen_mapped(1) [OF assms k] by (auto simp: place_def)
next
  case False
  then show ?thesis using seen_unmapped(1) [OF assms] by (simp add: place_def)
qed

lemma place_unat:
  assumes "vm_inv p ps s" "placed p" "in_test_pages v"
  shows "(\<exists>k<length ps. unat (v div 0x1000) = ps ! k \<and> unat (place p s v) = unat (frame p k) + unat (take_bit 12 v)) \<or>
    unat (v div 0x1000) \<notin> set ps \<and> unat (place p s v) = 0x80000000 + unat v \<and> unat v < 0x3F000"
  using place_cases [OF assms] backing_unat [OF assms(3)] by (auto simp: frame_offset)

text \<open>No two bytes of the program share a place.\<close>

lemma place_inj:
  assumes inv: "vm_inv p ps s" and pl: "placed p" and v: "in_test_pages v" "in_test_pages v'" "place p s v = place p s v'"
  shows "v = v'"
proof -
  have k: "l < length ps \<Longrightarrow> l < 63" for l using vm_inv_length [OF inv] by simp
  have no: False if "l < length ps" "unat (place p s w) = unat (frame p l) + n" "unat (place p s w) = 0x80000000 + unat w'" "unat w' < 0x3F000" for l w w' n
    using that frame_range(1) [of p l] by simp
  from place_unat [OF inv pl v(1)] show ?thesis
  proof (elim disjE exE conjE)
    fix l assume l: "l < length ps" "unat (v div 0x1000) = ps ! l" "unat (place p s v) = unat (frame p l) + unat (take_bit 12 v)"
    with no [of l v "unat (take_bit 12 v)" v'] place_unat [OF inv pl v(2)] v(3)
    obtain l' where l': "l' < length ps" "unat (v' div 0x1000) = ps ! l'" "unat (place p s v) = unat (frame p l') + unat (take_bit 12 v')"
      by auto
    have "l = l'"
    proof (rule ccontr)
      assume "l \<noteq> l'"
      from frame_apart [OF k [OF l(1)] k [OF l'(1)] this, of p] l(3) l'(3) offset_less [of v] offset_less [of v']
      show False by linarith
    qed
    with l l' have "unat (v div 0x1000) = unat (v' div 0x1000)" "take_bit 12 v = take_bit 12 v'" by (simp_all add: word_unat_eq_iff)
    then show "v = v'" by (metis page_split)
  next
    assume u: "unat (place p s v) = 0x80000000 + unat v" "unat v < 0x3F000"
    with no [of _ v' "unat (take_bit 12 v')" v] place_unat [OF inv pl v(2)] v(3)
    have "unat (place p s v) = 0x80000000 + unat v'" by metis
    with u(1) show "v = v'" by (simp add: word_unat_eq_iff)
  qed
qed

lemma place_touch:
  assumes "vm_inv p ps s" "placed p" "unat (va div 0x1000) \<in> set ps" "take_bit 10 f = f" "in_test_pages v"
  shows "place p (user_touch va f m s) v = place p s v"
proof -
  note inv' = touch_inv [OF assms(1,3,4), of m]
  have d: "distinct ps" using assms(1) by (simp add: vm_inv_def)
  from place_cases [OF inv' assms(2,5)] place_cases [OF assms(1,2,5)] show ?thesis
    using d by (auto simp: nth_eq_iff_index_eq)
qed

text \<open>The place of a byte of the program is never a variable of the supervisor.\<close>

lemma place_not_own:
  assumes "vm_inv p ps s" "placed p" "program_byte p v"
  shows "\<not> own p (place p s v)"
  using place_cases [OF assms(1,2) program_byteD(1) [OF assms(3)]] program_byteD(2) [OF assms(3)]
    frame_not_own [OF offset_less, of p _ v] by auto

lemma seen_place: "vm_inv p ps s \<Longrightarrow> placed p \<Longrightarrow> program_byte p v \<Longrightarrow> seen p s v = dram s (place p s v)"
  by (simp add: seen_def phys_dram place_not_own)

lemma touch_seen:
  assumes "vm_inv p ps s" "placed p" "unat (va div 0x1000) \<in> set ps" "take_bit 10 f = f" "program_byte p v"
  shows "seen p (user_touch va f m s) v = m (place p s v)"
  using place_touch [OF assms(1-4) program_byteD(1) [OF assms(5)]] seen_place [OF touch_inv [OF assms(1,3,4)] assms(2,5)]
  by simp

text \<open>Every reachable state satisfies the invariant and shows the stores of the program.\<close>

definition apply_stores :: "(u64 \<times> u8) list \<Rightarrow> memory \<Rightarrow> memory" where
  "apply_stores w m = fold (\<lambda>(va, b) m. m(va := b)) w m"

text \<open>A page that is not marked dirty is the same as the place it was copied from.\<close>

definition clean :: "platform \<Rightarrow> vm \<Rightarrow> bool" where
  "clean p s \<longleftrightarrow> (\<forall>va. program_byte p va \<longrightarrow>
     user_llpt s (unat (va div 0x1000)) AND PTE_D \<noteq> 0 \<or> seen p s va = dram s (0x80000000 + va))"

definition shows_memory :: "platform \<Rightarrow> vm \<Rightarrow> memory \<Rightarrow> bool" where
  "shows_memory p s m \<longleftrightarrow>
     (\<exists>ps. vm_inv p ps s \<and> clean p s \<and> (\<forall>va. program_byte p va \<longrightarrow> seen p s va = m va))"

lemma touch_llpt:
  "user_llpt (user_touch va f m s) i = (if i = unat (va div 0x1000) then user_llpt s i OR f else user_llpt s i)"
  by (simp add: user_touch_def Let_def)

lemma touch_shows:
  assumes "vm_inv p ps s" "placed p" "unat (va div 0x1000) \<in> set ps" "take_bit 10 f = f"
    and "\<And>v. program_byte p v \<Longrightarrow> m' (place p s v) = m v" "clean p s"
    and "\<And>v. program_byte p v \<Longrightarrow> unat (v div 0x1000) \<noteq> unat (va div 0x1000) \<or> f AND PTE_D = 0 \<Longrightarrow>
      m' (place p s v) = dram s (place p s v) \<and> m' (0x80000000 + v) = dram s (0x80000000 + v)"
  shows "shows_memory p (user_touch va f m' s) m"
proof -
  let ?s = "user_touch va f m' s"
  note seen = touch_seen [OF assms(1-4), of _ m']
  have "user_llpt ?s (unat (v div 0x1000)) AND PTE_D \<noteq> 0 \<or> seen p ?s v = dram ?s (0x80000000 + v)" if v: "program_byte p v" for v
  proof (cases "unat (v div 0x1000) \<noteq> unat (va div 0x1000) \<or> f AND PTE_D = 0")
    case True
    with assms(6,7) v seen [OF v] seen_place [OF assms(1,2) v] show ?thesis
      by (auto simp: clean_def touch_llpt bit.conj_disj_distrib2 or_eq_0_iff)
  qed (simp add: touch_llpt bit.conj_disj_distrib2 or_eq_0_iff)
  then show ?thesis unfolding shows_memory_def clean_def
    using touch_inv [OF assms(1,3,4)] seen assms(5) by auto
qed

lemma load_shows:
  assumes "placed p" "shows_memory p s m" "user_pa p s right va = Some pa"
  shows "shows_memory p (user_touch va PTE_A (dram s) s) m"
proof -
  obtain ps where ps: "vm_inv p ps s" "\<forall>va. program_byte p va \<longrightarrow> seen p s va = m va" "clean p s"
    using assms(2) by (auto simp: shows_memory_def)
  obtain k where "k < length ps" "unat (va div 0x1000) = ps ! k" using user_page [OF ps(1) assms(1,3)] .
  then show ?thesis using ps by (intro touch_shows [OF ps(1) assms(1)]) (simp_all add: pte_consts seen_place [OF ps(1) assms(1), symmetric])
qed

lemma store_shows:
  assumes "placed p" "shows_memory p s m" "user_pa p s right va = Some pa"
  shows "shows_memory p (user_touch va (PTE_A OR PTE_D) ((dram s)(pa := b)) s) (m(va := b))"
proof -
  obtain ps where ps: "vm_inv p ps s" "\<forall>va. program_byte p va \<longrightarrow> seen p s va = m va" "clean p s"
    using assms(2) by (auto simp: shows_memory_def)
  obtain k where k: "in_test_pages va" "k < length ps" "unat (va div 0x1000) = ps ! k" "pa = frame p k + take_bit 12 va"
    using user_page [OF ps(1) assms(1,3)] .
  have pa: "pa = place p s va" using seen_mapped(1) [OF ps(1) assms(1) k(1-3)] k(4) by (auto simp: place_def)
  have "((dram s)(pa := b)) (place p s v) = (m(va := b)) v" if "program_byte p v" for v
    using place_inj [OF ps(1) assms(1) program_byteD(1) [OF that] k(1)] ps(2) that seen_place [OF ps(1) assms(1) that]
    by (cases "v = va") (auto simp: pa)
  moreover have "0x80000000 + v \<noteq> pa" if "program_byte p v" for v
    using backing_unat [OF program_byteD(1) [OF that]] frame_range(1) [of p k] by (auto simp: k(4) word_unat_eq_iff frame_offset)
  moreover have "place p s v \<noteq> pa" if "program_byte p v" "unat (v div 0x1000) \<noteq> unat (va div 0x1000)" for v
    using place_inj [OF ps(1) assms(1) program_byteD(1) [OF that(1)] k(1)] that(2) pa by auto
  ultimately show ?thesis using k(2,3) ps(3) by (intro touch_shows [OF ps(1) assms(1)]) (auto simp: pte_consts)
qed

lemma fault_shows:
  assumes ok: "platform_ok p" and mem: "shows_memory p s m" and fault: "handle_fault p va c s = Some (Go s')"
  shows "shows_memory p s' m"
proof -
  obtain ps where ps: "vm_inv p ps s" "\<forall>va. program_byte p va \<longrightarrow> seen p s va = m va" "clean p s"
    using mem by (auto simp: shows_memory_def)
  have pl: "placed p" using ok by (simp add: platform_ok_def)
  let ?i = "unat (va div 0x1000)"
  note fm = fault_mapped [OF fault]
  show ?thesis
  proof (cases "?i \<in> set ps")
    case True
    then obtain k where k: "k < length ps" "?i = ps ! k" by (auto simp: in_set_conv_nth)
    have "user_llpt s ?i \<noteq> 0" using ps(1) k good_flags_frame(6) by (auto simp: vm_inv_def mapped_at_def)
    then obtain f where f: "f \<in> {PTE_A, PTE_D}" "s' = user_touch va f (dram s) s" using fm by blast
    then show ?thesis using ps(2,3) unfolding f(2) by (intro touch_shows [OF ps(1) pl True]) (auto simp: pte_consts seen_place [OF ps(1) pl, symmetric])
  next
    case False
    note i = in_test_pages_page(2,3) [OF conjunct1 [OF fm]]
    obtain e m' where e: "good_flags e" "pt s' = (pt s)(3 := (pt s 3)(?i := frame_pte (frame p (length ps)) OR e))"
      "user_mapping s' = (user_mapping s)[?i := freelist_nodes s ! length ps]" "freelist_nodes s' = freelist_nodes s"
      "freelist_head s' = nnext (freelist_nodes s ! length ps)"
      "agree p m' (dram s)" "dram s' = copy_mem m' (frame p (length ps)) (0x80000000 + of_nat ?i * 0x1000) 0x1000"
      using fault_unmapped [OF ps(1) ok conjunct1 [OF fm] refl False, of c] fault by auto
    have inv': "vm_inv p (ps @ [?i]) s'" using fault_inv [OF ps(1) i False e(1-5)] .
    have seen: "seen p s' v = seen p s v" if "program_byte p v" for v using fault_seen [OF ps(1) inv' pl that e(6,7)] .
    have base: "dram s' (0x80000000 + v) = dram s (0x80000000 + v)" if "program_byte p v" for v
      unfolding e(7) using backing_unat [OF program_byteD(1) [OF that]] frame_range [of p "length ps"] e(6) program_byteD(2) [OF that]
      by (subst copy_mem_outside) (simp_all add: agree_def)
    have "clean p s'" unfolding clean_def
    proof (intro allI impI)
      fix v assume v: "program_byte p v"
      show "user_llpt s' (unat (v div 0x1000)) AND PTE_D \<noteq> 0 \<or> seen p s' v = dram s' (0x80000000 + v)"
        using ps(3) v seen [OF v] base [OF v] seen_unmapped(2) [OF ps(1) pl program_byteD(1) [OF v] _ v] False
        by (cases "unat (v div 0x1000) = ?i") (auto simp: clean_def e(2))
    qed
    then show ?thesis using inv' seen ps(2) unfolding shows_memory_def by metis
  qed
qed

lemma boot_shows:
  assumes "platform_ok p" "zeroed s0" "vm_boot p test_addr s0 = Some (Exit (Resume tf) s)"
  shows "shows_memory p s (\<lambda>va. dram s0 (0x80000000 + va))"
proof -
  have inv: "vm_inv p [] s" "dram s = dram s0" using vm_boot_starts [OF assms(1,2), of test_addr] assms(3) by auto
  have "placed p" using assms(1) by (simp add: platform_ok_def)
  then have "seen p s va = dram s0 (0x80000000 + va)" if "program_byte p va" for va
    using seen_unmapped(2) [OF inv(1) _ program_byteD(1) [OF that] _ that] inv(2) by simp
  with inv show ?thesis unfolding shows_memory_def clean_def by auto
qed

lemma reach_shows:
  assumes "platform_ok p" "zeroed s0" "vm_reach p s0 w s"
  shows "shows_memory p s (apply_stores w (\<lambda>va. dram s0 (0x80000000 + va)))"
  using assms(3)
proof induction
  case (boot test_addr tf s)
  then show ?case using boot_shows [OF assms(1,2)] by (simp add: apply_stores_def)
next
  case (load w s va pa)
  then show ?case using assms(1) by (intro load_shows) (simp_all add: platform_ok_def)
next
  case (store w s va pa b)
  have "apply_stores (w @ [(va, b)]) m = (apply_stores w m)(va := b)" for m by (simp add: apply_stores_def)
  with store show ?case using store_shows [OF _ store.IH store.hyps(2)] assms(1) by (simp only: platform_ok_def)
next
  case (fault w s va c s')
  then show ?case using fault_shows [OF assms(1)] by blast
qed

end
