(* ===== verification/Rt_Writeback.thy ===== *)
theory Rt_Writeback
  imports Rt_Paging
begin

text \<open>
  The test supervisor of \<open>vm.c\<close>, continued: every page fault of a program in its range is
  served, the program reaches nothing but the frames given to it, and its exit by
  \<open>ecall\<close> writes its pages back.
\<close>

section \<open>Faults are served\<close>

lemma fault_served:
  assumes ok: "platform_ok p" and inv: "vm_inv p ps s" and va: "in_test_pages va" and new: "unat (va div 0x1000) \<notin> set ps"
  shows "\<exists>s'. handle_fault p va c s = Some (Go s') \<and> vm_inv p (ps @ [unat (va div 0x1000)]) s'"
proof -
  let ?i = "unat (va div 0x1000)"
  note i = in_test_pages_page(2,3) [OF va]
  obtain s' e m where h: "handle_fault p va c s = Some (Go s')" and
    e: "good_flags e" "pt s' = (pt s)(3 := (pt s 3)(?i := frame_pte (frame p (length ps)) OR e))"
      "user_mapping s' = (user_mapping s)[?i := freelist_nodes s ! length ps]" "freelist_nodes s' = freelist_nodes s"
      "freelist_head s' = nnext (freelist_nodes s ! length ps)"
    using fault_unmapped [OF inv ok va refl new, of c] by blast
  then show ?thesis using fault_inv [OF inv i new e] by blast
qed

lemma user_pa_mapped:
  assumes "placed p" "vm_inv p ps s" "in_test_pages va" "k < length ps" "unat (va div 0x1000) = ps ! k"
    and right: "right = PTE_R \<or> right = PTE_W \<or> right = PTE_R OR PTE_X"
  shows "user_pa p s right va = Some (frame p k + take_bit 12 va)"
proof -
  obtain e where e: "good_flags e" "user_llpt s (ps ! k) = frame_pte (frame p k) OR e"
    "walk p s va = Some (user_llpt s (ps ! k), frame p k + take_bit 12 va)"
    using seen_mapped(1) [OF assms(2,1,3,4,5)] by blast
  have "(frame_pte (frame p k) OR e) AND right \<noteq> 0"
    using right good_flags_frame [OF e(1), of "frame p k"] by (auto simp: bit.conj_disj_distrib or_eq_0_iff)
  then show ?thesis using e good_flags_frame(4) [OF e(1)] by (simp add: user_pa_def)
qed

lemma fault_then_access:
  assumes "platform_ok p" "vm_inv p ps s" "in_test_pages va" "user_llpt s (unat (va div 0x1000)) = 0"
  shows "\<exists>s'. handle_fault p va c s = Some (Go s') \<and> user_pa p s' PTE_R va \<noteq> None \<and>
    user_pa p s' PTE_W va = user_pa p s' PTE_R va"
proof -
  have new: "unat (va div 0x1000) \<notin> set ps"
    using assms(2,4) good_flags_frame(6) by (auto simp: vm_inv_def mapped_at_def in_set_conv_nth)
  have pl: "placed p" using assms(1) by (simp add: platform_ok_def)
  obtain s' where s': "handle_fault p va c s = Some (Go s')" "vm_inv p (ps @ [unat (va div 0x1000)]) s'"
    using fault_served [OF assms(1,2,3) new] by blast
  have "user_pa p s' r va = Some (frame p (length ps) + take_bit 12 va)" if "r = PTE_R \<or> r = PTE_W" for r
    using user_pa_mapped [OF pl s'(2) assms(3), of "length ps" r] that by auto
  then show ?thesis using s'(1) by auto
qed

section \<open>Write-back\<close>

text \<open>The area of page \<open>i\<close> in the image.\<close>

abbreviation image_page :: "nat \<Rightarrow> u64" where
  "image_page i \<equiv> 0x80000000 + of_nat i * 0x1000"

lemma copy_mem_self: "copy_mem m d d n = m"
  by (rule ext) (simp add: copy_mem_def)

lemma copy_mem_same:
  assumes "bytes_at m r n = bytes_at m d n"
  shows "copy_mem m d r n = m"
proof (rule ext)
  fix x
  have "m (r + of_nat (unat (x - d))) = m (d + of_nat (unat (x - d)))" if "unat (x - d) < n"
    using arg_cong [OF assms, of "\<lambda>xs. xs ! unat (x - d)"] that unfolding bytes_at_def by simp
  then show "copy_mem m d r n x = m x" by (simp add: copy_mem_def)
qed

lemma await_ends: "\<not> b (t + n) \<Longrightarrow> \<exists>t'. await b t = Some t'"
proof (induction n arbitrary: t)
  case 0
  then show ?case by (subst await.simps) simp
next
  case (Suc n)
  then show ?case by (subst await.simps) auto
qed

text \<open>The host takes what it is sent, sooner or later.\<close>

definition host_ok :: "platform \<Rightarrow> bool" where
  "host_ok p \<longleftrightarrow> (\<forall>t. \<exists>n. \<not> busy p (t + n))"

lemma terminate_ends:
  assumes "host_ok p"
  shows "\<exists>t. terminate p code s = Some (Exit (Terminated code) (s\<lparr>clock := t, sent := sent s @ [scast code]\<rparr>))"
proof -
  obtain n where "\<not> busy p (clock s + n)" using assms by (auto simp: host_ok_def)
  then obtain t where "await (busy p) (clock s) = Some t" using await_ends by blast
  then show ?thesis by (auto simp: terminate_def do_tohost_def)
qed

lemma append_free_simps [simp]:
  "pt (append_free n s) = pt s" "dram (append_free n s) = dram s" "sent (append_free n s) = sent s"
  "length (user_mapping (append_free n s)) = length (user_mapping s)"
  by (simp_all add: append_free_def split: node_ref.splits)

lemma update_naddr: "i < length xs \<Longrightarrow> naddr (xs[j := (xs ! j)\<lparr>nnext := n\<rparr>] ! i) = naddr (xs ! i)"
  by (cases "j = i") simp_all

lemma append_free_naddr:
  "i < length (user_mapping s) \<Longrightarrow> naddr (user_mapping (append_free n s) ! i) = naddr (user_mapping s ! i)"
  by (simp add: append_free_def update_naddr split: node_ref.splits)

text \<open>
  One page: what \<open>evict\<close> leaves of a mapped page is its frame's content in the image,
  when the page has no variable of the supervisor.
\<close>

definition evicted :: "platform \<Rightarrow> nat \<Rightarrow> memory \<Rightarrow> vm \<Rightarrow> vm \<Rightarrow> bool" where
  "evicted p i m s s' \<longleftrightarrow>
     pt s' = pt s \<and> agree p (dram s') m \<and> sent s' = sent s \<and> length (user_mapping s') = length (user_mapping s) \<and>
     (\<forall>j<length (user_mapping s). j \<noteq> i \<longrightarrow> naddr (user_mapping s' ! j) = naddr (user_mapping s ! j))"

lemma evicted_free:
  "agree p m' m \<Longrightarrow> evicted p i m s (append_free n (s\<lparr>dram := m', user_mapping := (user_mapping s)[i := f]\<rparr>))"
  by (simp add: evicted_def append_free_naddr)

lemma compare_page_in:
  assumes "placed p" "linked p s" "i < 63" "good_flags e" "e AND PTE_A \<noteq> 0"
    and "user_llpt s i = frame_pte (frame p k) OR e"
  shows "compare_page p (of_nat i * 0x1000) (uva2kva (of_nat i * 0x1000)) s c =
    c (memcmp_bytes (phys p s) (frame p k) (image_page i) 0x1000)"
proof -
  note a = page_number [OF assms(3)]
  have "kernel_pa p s True False (of_nat i * 0x1000) = Some (frame p k)"
    using kernel_pa_user [OF assms(1,2) a(2) assms(4,5), of False k] assms(6) a(3,4) by simp
  moreover have "kernel_pa p s True False (uva2kva (of_nat i * 0x1000)) = Some (image_page i)"
    by (rule kernel_pa_kernel [OF assms(1,2) a(2)])
  moreover have "memcmp (phys p s) (frame p k) (image_page i) 0x1000 = Some (memcmp_bytes (phys p s) (frame p k) (image_page i) 0x1000)"
    using memcmp_eq [of "frame p k" "0x1000" "phys p s" "image_page i"] frame_range(2) [of p k] by simp
  ultimately show ?thesis by (simp add: compare_page_def)
qed

lemma copy_page_out:
  assumes "placed p" "linked p s" "i < 63" "good_flags e" "e AND PTE_A \<noteq> 0"
    and "user_llpt s i = frame_pte (frame p k) OR e" and free: "\<not> own_page p (image_page i)"
  shows "copy_page p (uva2kva (of_nat i * 0x1000)) (of_nat i * 0x1000) s c =
    c (s\<lparr>dram := copy_mem (phys p s) (image_page i) (frame p k) 0x1000\<rparr>)"
proof -
  note a = page_number [OF assms(3)]
  have "kernel_pa p s True False (of_nat i * 0x1000) = Some (frame p k)"
    using kernel_pa_user [OF assms(1,2) a(2) assms(4,5), of False k] assms(6) a(3,4) by simp
  moreover have "kernel_pa p s True True (uva2kva (of_nat i * 0x1000)) = Some (image_page i)"
    by (rule kernel_pa_kernel [OF assms(1,2) a(2)])
  moreover have "memcpy (phys p s) (image_page i) (frame p k) 0x1000 =
      Some (image_page i, copy_mem (phys p s) (image_page i) (frame p k) 0x1000)"
    using memcpy_eq [where dest = "image_page i" and len = "0x1000" and src = "frame p k"] page_apart(2) [OF assms(3), of p k]
      page_base [OF assms(3)] assms(3) by simp
  ultimately show ?thesis using free by (simp add: copy_page_def)
qed

lemma in_test_pages_number: "1 \<le> i \<Longrightarrow> i < 63 \<Longrightarrow> in_test_pages (of_nat i * 0x1000)"
  using page_number(1) [of i] by (simp add: in_test_pages_def word_le_nat_alt word_less_nat_alt)

lemma evict_mapped:
  assumes "placed p" "linked p s" "1 \<le> i" "i < 63" "good_flags e" "e AND PTE_A \<noteq> 0"
    and pte: "user_llpt s i = frame_pte (frame p k) OR e" and "naddr (user_mapping s ! i) \<noteq> 0" and free: "\<not> own_page p (image_page i)"
    and dirty: "e AND PTE_D \<noteq> 0 \<or> bytes_at (phys p s) (frame p k) 0x1000 = bytes_at (phys p s) (image_page i) 0x1000"
  shows "\<exists>s'. evict p (of_nat i * 0x1000) s = Some (Go s') \<and> evicted p i (copy_mem (phys p s) (image_page i) (frame p k) 0x1000) s s'"
proof -
  let ?m = "copy_mem (phys p s) (image_page i) (frame p k) 0x1000"
  let ?free = "\<lambda>s. append_free (User_node i) (s\<lparr>user_mapping := (user_mapping s)[i := (user_mapping s ! i)\<lparr>naddr := 0\<rparr>]\<rparr>)"
  let ?r = "memcmp_bytes (phys p s) (frame p k) (image_page i) 0x1000"
  have bits: "user_llpt s i AND PTE_A = e AND PTE_A" "user_llpt s i AND PTE_D = e AND PTE_D"
    unfolding pte by (rule pte_flag, simp add: pte_consts)+
  have pages: "in_test_pages (of_nat i * 0x1000)" "of_nat i * 0x1000 div 0x1000 * 0x1000 = (of_nat i * 0x1000 :: u64)"
    "unat (of_nat i * 0x1000 div 0x1000 :: u64) = i"
    using in_test_pages_number [OF assms(3,4)] page_number(3) [OF assms(4)]
    by (simp_all add: page_index [OF in_test_pages_number [OF assms(3,4)]])
  have eq: "evict p (of_nat i * 0x1000) s =
      (if ?r \<noteq> 0 then assert_c p (e AND PTE_D \<noteq> 0) ''pt[3][addr/(1UL << 12)] & 0x080'' s (\<lambda>s.
         copy_page p (uva2kva (of_nat i * 0x1000)) (of_nat i * 0x1000) s (\<lambda>s. Some (Go (?free s))))
       else Some (Go (?free s)))"
    using pages assms(6,8) bits
    by (simp add: evict_def Let_def compare_page_in [OF assms(1,2,4,5,6) pte])
  show ?thesis
  proof (cases "?r = 0")
    case True
    then have "?m = phys p s" using memcmp_bytes_sign [of "phys p s" "frame p k" "image_page i" "0x1000"] by (intro copy_mem_same) simp
    then have "agree p (dram s) ?m" by (simp add: agree_def phys_dram)
    then have "evicted p i ?m s (?free s)" using evicted_free [of p "dram s" ?m i s "User_node i"] by simp
    with True eq show ?thesis by simp
  next
    case False
    then have "e AND PTE_D \<noteq> 0"
      using dirty memcmp_bytes_sign [of "phys p s" "frame p k" "image_page i" "0x1000"] by auto
    with False eq have "evict p (of_nat i * 0x1000) s = Some (Go (?free (s\<lparr>dram := ?m\<rparr>)))"
      by (simp add: copy_page_out [OF assms(1,2,4,5,6) pte free])
    moreover have "evicted p i ?m s (?free (s\<lparr>dram := ?m\<rparr>))" using evicted_free [of p ?m ?m i s "User_node i"] by (simp add: agree_def)
    ultimately show ?thesis by blast
  qed
qed

lemma byte_of_page:
  assumes "1 \<le> i" "i < 63" "j < 0x1000"
  defines "va \<equiv> of_nat i * 0x1000 + of_nat j :: u64"
  shows "in_test_pages va" "unat (va div 0x1000) = i" "take_bit 12 va = of_nat j"
proof -
  have "va = of_nat (i * 0x1000 + j)" by (simp add: va_def)
  moreover have "i * 0x1000 + j < 2 ^ LENGTH(64)" using assms(2,3) by simp
  ultimately have u: "unat va = i * 0x1000 + j" by (simp only: unat_of_nat_small)
  then show "in_test_pages va" "unat (va div 0x1000) = i"
    using assms(1-3) by (simp_all add: in_test_pages_def word_le_nat_alt word_less_nat_alt unat_div)
  have "unat (take_bit 12 va) = unat (of_nat j :: u64)"
    unfolding unat_take_bit_nat u using assms(3) by (simp add: unat_of_nat_small)
  then show "take_bit 12 va = of_nat j" by (simp add: word_unat_eq_iff)
qed

text \<open>Every page mapped has been accessed.\<close>

definition accessed :: "vm \<Rightarrow> bool" where
  "accessed s \<longleftrightarrow> (\<forall>i. user_llpt s i \<noteq> 0 \<longrightarrow> user_llpt s i AND PTE_A \<noteq> 0)"

lemma place_page:
  assumes "vm_inv p ps s" "placed p" "in_test_pages va" "unat (va div 0x1000) = i"
  shows "place p s va = place p s (of_nat i * 0x1000) + take_bit 12 va"
proof -
  have i: "1 \<le> i" "i < 63" using in_test_pages_page(2,3) [OF assms(3)] assms(4) by simp_all
  note base = in_test_pages_number [OF i] page_number(3,4) [OF i(2)]
  have d: "distinct ps" using assms(1) by (simp add: vm_inv_def)
  have "0x80000000 + va = 0x80000000 + of_nat i * 0x1000 + take_bit 12 va" using page_split [of va] assms(4) by (simp add: add.assoc)
  then show ?thesis
    using place_cases [OF assms(1,2,3)] place_cases [OF assms(1,2) base(1)] base(2,3) assms(4) d
    by (auto simp: nth_eq_iff_index_eq)
qed

lemma evict_page:
  assumes inv: "vm_inv p ps s0" and pl: "placed p" and cl: "clean p s0" and ac: "accessed s0" and i: "1 \<le> i" "i < 63"
    and s: "pt s = pt s0" "length (user_mapping s) = 63" "naddr (user_mapping s ! i) = naddr (user_mapping s0 ! i)"
    and free: "user_llpt s0 i \<noteq> 0 \<Longrightarrow> \<not> own_page p (image_page i)"
    and mem: "\<And>va. program_byte p va \<Longrightarrow> unat (va div 0x1000) = i \<Longrightarrow>
      dram s (place p s0 va) = dram s0 (place p s0 va) \<and> dram s (0x80000000 + va) = dram s0 (0x80000000 + va)"
  shows "\<exists>s'. evict p (of_nat i * 0x1000) s = Some (Go s') \<and>
    evicted p i (copy_mem (phys p s) (image_page i) (place p s0 (of_nat i * 0x1000)) 0x1000) s s'"
proof (cases "i \<in> set ps")
  case True
  then obtain k where k: "k < length ps" "i = ps ! k" by (auto simp: in_set_conv_nth)
  obtain e where e: "good_flags e" "user_llpt s0 i = frame_pte (frame p k) OR e" "naddr (user_mapping s0 ! i) = frame p k"
    using inv k by (auto simp: vm_inv_def mapped_at_def)
  have bits: "user_llpt s0 i AND PTE_A = e AND PTE_A" "user_llpt s0 i AND PTE_D = e AND PTE_D"
    unfolding e(2) by (rule pte_flag, simp add: pte_consts)+
  have a: "e AND PTE_A \<noteq> 0" 
    using ac [unfolded accessed_def, rule_format, of i] bits(1) good_flags_frame(6) [OF e(1)] e(2) by simp
  have pl_i: "place p s0 (of_nat i * 0x1000) = frame p k"
    using seen_mapped(1) [OF inv pl in_test_pages_number [OF i] k(1)] k(2) page_number(3,4) [OF i(2)] by (auto simp: place_def)
  have nz: "user_llpt s0 i \<noteq> 0" unfolding e(2) using good_flags_frame(6) [OF e(1)] .
  have no: "\<not> own p (image_page i + of_nat j)" if "j < 0x1000" for j
    using free [OF nz] that by (simp add: own_page_def list_ex_iff)
  have "phys p s (frame p k + of_nat j) = phys p s (image_page i + of_nat j)" if "e AND PTE_D = 0" "j < 0x1000" for j
  proof -
    let ?va = "of_nat i * 0x1000 + of_nat j :: u64"
    note va = byte_of_page [OF i that(2)]
    have p: "place p s0 ?va = frame p k + of_nat j" using place_page [OF inv pl va(1,2)] pl_i va(3) by simp
    have b: "program_byte p ?va" using va(1) no [OF that(2)] by (simp add: program_byte_def add.assoc)
    have "seen p s0 ?va = dram s0 (0x80000000 + ?va)" using cl b va(2) bits(2) that(1) by (auto simp: clean_def)
    then show ?thesis
      using mem [OF b va(2)] p seen_place [OF inv pl b] no [OF that(2)] frame_not_own [OF that(2), of p k]
      by (simp add: phys_dram add.assoc)
  qed
  then have "e AND PTE_D \<noteq> 0 \<or> bytes_at (phys p s) (frame p k) 0x1000 = bytes_at (phys p s) (image_page i) 0x1000"
    by (auto simp: bytes_at_def)
  moreover have "linked p s" using inv by (intro linked_pt [of s s0]) (simp_all add: vm_inv_def s(1))
  ultimately show ?thesis unfolding pl_i
    using pl i e a frame_nonzero free [OF nz] by (intro evict_mapped) (simp_all add: s(1,3))
next
  case False
  then have "naddr (user_mapping s ! i) = 0" using inv i s(3) by (simp add: vm_inv_def)
  then have "evict p (of_nat i * 0x1000) s = Some (Go s)"
    using in_test_pages_number [OF i] page_number(3) [OF i(2)] by (simp add: evict_def Let_def page_index)
  moreover have "place p s0 (of_nat i * 0x1000) = image_page i"
    using seen_unmapped(1) [OF inv pl in_test_pages_number [OF i]] False page_number(3) [OF i(2)] by (simp add: place_def)
  ultimately show ?thesis by (simp add: copy_mem_self evicted_def agree_def phys_dram)
qed

text \<open>
  The memory while the pages \<open>rest\<close> are still to be evicted: the image holds what the
  program saw of the others, and nothing of \<open>rest\<close> has changed.
\<close>

definition written_back :: "platform \<Rightarrow> vm \<Rightarrow> nat list \<Rightarrow> vm \<Rightarrow> bool" where
  "written_back p s0 rest s \<longleftrightarrow>
     pt s = pt s0 \<and> sent s = sent s0 \<and> length (user_mapping s) = 63 \<and>
     (\<forall>i\<in>set rest. naddr (user_mapping s ! i) = naddr (user_mapping s0 ! i)) \<and>
     (\<forall>va. program_byte p va \<longrightarrow>
        (if unat (va div 0x1000) \<in> set rest
         then dram s (0x80000000 + va) = dram s0 (0x80000000 + va) \<and> dram s (place p s0 va) = dram s0 (place p s0 va)
         else dram s (0x80000000 + va) = dram s0 (place p s0 va)))"

lemma outside_page:
  assumes "i < 63" "unat x < 0x80000000 + i * 0x1000 \<or> 0x80000000 + Suc i * 0x1000 \<le> unat x"
  shows "copy_mem m (image_page i) r 0x1000 x = m x"
  using assms page_base [OF assms(1)] by (intro copy_mem_outside) auto

lemma other_page:
  assumes "in_test_pages va" "unat (va div 0x1000) \<noteq> i"
  shows "unat (0x80000000 + va) < 0x80000000 + i * 0x1000 \<or> 0x80000000 + Suc i * 0x1000 \<le> unat (0x80000000 + va)"
proof -
  have "unat va div 0x1000 \<noteq> i" using assms(2) by (simp add: unat_div)
  then have "unat va < i * 0x1000 \<or> Suc i * 0x1000 \<le> unat va"
    by (metis div_less_iff_less_mult less_eq_div_iff_mult_less_eq linorder_neqE_nat not_less_eq_eq not_less zero_less_numeral)
  then show ?thesis using backing_unat(1) [OF assms(1)] by auto
qed

lemma written_back_step:
  assumes inv: "vm_inv p ps s0" and pl: "placed p" and wb: "written_back p s0 (i # rest) s" and i: "1 \<le> i" "i < 63" "i \<notin> set rest" "set rest \<subseteq> {1..<63}"
    and ev: "evicted p i (copy_mem (phys p s) (image_page i) (place p s0 (of_nat i * 0x1000)) 0x1000) s s'"
  shows "written_back p s0 rest s'"
proof -
  let ?m = "copy_mem (phys p s) (image_page i) (place p s0 (of_nat i * 0x1000)) 0x1000"
  have page: "if unat (va div 0x1000) \<in> set rest
      then ?m (0x80000000 + va) = dram s0 (0x80000000 + va) \<and> ?m (place p s0 va) = dram s0 (place p s0 va)
      else ?m (0x80000000 + va) = dram s0 (place p s0 va)" if byte: "program_byte p va" for va
  proof (cases "unat (va div 0x1000) = i")
    case True
    note va = program_byteD(1) [OF byte]
    have "0x80000000 + va = image_page i + take_bit 12 va" using page_split [of va] True by (simp add: add.assoc)
    then have "?m (0x80000000 + va) = phys p s (place p s0 (of_nat i * 0x1000) + take_bit 12 va)"
      by (simp only: copy_mem_inside [OF offset_less])
    also have "\<dots> = dram s0 (place p s0 va)"
      using wb byte True place_page [OF inv pl va True] place_not_own [OF inv pl byte]
      by (auto simp: written_back_def phys_dram)
    finally show ?thesis using i(3) True by simp
  next
    case False
    note va = program_byteD(1) [OF byte]
    have out: "?m (0x80000000 + va) = dram s (0x80000000 + va)"
      using outside_page [OF i(2) other_page [OF va False]] by (simp add: phys_dram program_byteD(2) [OF byte])
    have "?m (place p s0 va) = phys p s (place p s0 va)"
      using place_cases [OF inv pl va]
    proof (elim disjE exE conjE)
      fix k assume "place p s0 va = frame p k + take_bit 12 va"
      then show ?thesis using frame_range(1) [of p k] i(2) by (intro outside_page) (simp_all add: frame_offset)
    qed (simp add: out phys_dram program_byteD(2) [OF byte])
    with wb byte False out place_not_own [OF inv pl byte] show ?thesis
      by (simp add: written_back_def phys_dram split: if_splits)
  qed
  have "naddr (user_mapping s' ! j) = naddr (user_mapping s0 ! j)" if "j \<in> set rest" for j
  proof -
    have "j < 63" "j \<noteq> i" using that i(3,4) by auto
    with that wb ev show ?thesis by (simp add: written_back_def evicted_def)
  qed
  moreover have "dram s' a = ?m a" if "\<not> own p a" for a using ev that by (simp add: evicted_def agree_def)
  then have "dram s' (0x80000000 + va) = ?m (0x80000000 + va)" "dram s' (place p s0 va) = ?m (place p s0 va)"
    if "program_byte p va" for va using that program_byteD(2) place_not_own [OF inv pl] by blast+
  ultimately show ?thesis unfolding written_back_def
    using wb ev page by (simp add: written_back_def evicted_def)
qed

text \<open>No page that holds a variable of the supervisor is mapped.\<close>

definition apart_pages :: "platform \<Rightarrow> vm \<Rightarrow> bool" where
  "apart_pages p s \<longleftrightarrow> (\<forall>i<MAX_TEST_PAGES. user_llpt s i \<noteq> 0 \<longrightarrow> \<not> own_page p (DRAM_BASE + of_nat i * PGSIZE))"

lemma evict_all_runs:
  assumes inv: "vm_inv p ps s0" and pl: "placed p" and cl: "clean p s0" and ac: "accessed s0" and free: "apart_pages p s0"
  shows "written_back p s0 is s \<Longrightarrow> distinct is \<Longrightarrow> set is \<subseteq> {1..<63} \<Longrightarrow>
    \<exists>s'. evict_all p is s k = k s' \<and> written_back p s0 [] s'"
proof (induction "is" arbitrary: s)
  case (Cons i rest)
  have i: "1 \<le> i" "i < 63" "i \<notin> set rest" "set rest \<subseteq> {1..<63}" using Cons.prems(2,3) by auto
  have "pt s = pt s0" "length (user_mapping s) = 63" "naddr (user_mapping s ! i) = naddr (user_mapping s0 ! i)"
    using Cons.prems(1) by (simp_all add: written_back_def)
  moreover have "\<not> own_page p (image_page i)" if "user_llpt s0 i \<noteq> 0"
    using free that i(2) by (simp add: apart_pages_def)
  ultimately obtain s' where s': "evict p (of_nat i * 0x1000) s = Some (Go s')"
    "evicted p i (copy_mem (phys p s) (image_page i) (place p s0 (of_nat i * 0x1000)) 0x1000) s s'"
    using evict_page [OF inv pl cl ac i(1,2), of s] Cons.prems(1) by (auto simp: written_back_def)
  have "written_back p s0 rest s'" using written_back_step [OF inv pl Cons.prems(1) i s'(2)] .
  then show ?case using Cons.IH [of s'] Cons.prems(2,3) s'(1) by simp
qed auto

lemma ecall_runs:
  assumes "placed p" "host_ok p" "vm_inv p ps s" "clean p s" "accessed s" "apart_pages p s" "trap_filter p tf = (0, tf)" "cause tf = 8"
  shows "\<exists>s'. handle_trap p tf s = Some (Exit (Terminated (ucast (gpr tf ! 10))) s') \<and>
    sent s' = sent s @ [scast (ucast (gpr tf ! 10) :: s32)] \<and> (\<forall>va. program_byte p va \<longrightarrow> dram s' (0x80000000 + va) = seen p s va)"
proof -
  let ?n = "ucast (gpr tf ! 10) :: s32"
  have "written_back p s [1..<63] s"
    using assms(3) in_test_pages_page(2,3) [OF program_byteD(1)] by (auto simp: written_back_def vm_inv_def)
  then obtain s1 where s1: "evict_all p [1..<63] s (terminate p ?n) = terminate p ?n s1" "written_back p s [] s1"
    using evict_all_runs [OF assms(3,1,4,5,6)] by force
  obtain t where "terminate p ?n s1 = Some (Exit (Terminated ?n) (s1\<lparr>clock := t, sent := sent s1 @ [scast ?n]\<rparr>))"
    using terminate_ends [OF assms(2)] by blast
  with s1 show ?thesis
    using assms(7,8) seen_place [OF assms(3,1)] by (auto simp: handle_trap_def CAUSE_USER_ECALL_def written_back_def)
qed

section \<open>A run\<close>

text \<open>
  A platform and an image, and the run that faults and stores once. The tables are at
  page 2, the lists at pages 6 and 7, \<open>tohost\<close> at page 1 and the stack at pages 12 to 15;
  the program stores to page 9.
\<close>

definition demo_platform :: platform where
  "demo_platform =
     \<lparr>busy = (\<lambda>t. t mod 3 \<noteq> 0), pf_filter = (\<lambda>a e c. (0, e, c)), trap_filter = (\<lambda>tf. (0, tf)), pt_addr = 0x80002000,
      trap_entry = 0x80000100, mscratch = 0x80010000, mhartid = 0, satp_read = id, fssr_word = 0x00301073, ENTROPY = 0x1234567,
      own_data = (\<lambda>a. a div 0x1000 \<in> {0x80001, 0x80006, 0x80007, 0x8000C, 0x8000D, 0x8000E, 0x8000F}), own_byte = (\<lambda>s a. 0)\<rparr>"

definition demo_image :: vm where
  "demo_image =
     \<lparr>pt = (\<lambda>_ _. 0), user_mapping = replicate 63 \<lparr>naddr = 0, nnext = Null\<rparr>, freelist_nodes = [], freelist_head = Null,
      freelist_tail = Null, dram = (\<lambda>a. ucast a),
      csr = \<lparr>satp = 0, stvec = 0, sscratch = 0, medeleg = 0, mstatus = 0, mie = 0, pmpaddr0 = 0, pmpcfg0 = 0\<rparr>, clock = 0, sent = []\<rparr>"

lemma demo_ok: "platform_ok demo_platform" "zeroed demo_image"
  by (simp_all add: demo_platform_def demo_image_def platform_ok_def placed_def pf_ok_def zeroed_def)

lemma demo_boots: "\<exists>s. vm_reach demo_platform demo_image [] s \<and> vm_inv demo_platform [] s"
  using vm_boot_starts [OF demo_ok, of "0x80001000"] vm_reach.boot by blast

lemma demo_page_free: "\<not> own_page demo_platform 0x80009000"
proof -
  have "\<not> own demo_platform (0x80009000 + of_nat j)" if j: "j < 0x1000" for j
  proof -
    have u: "unat (0x80009000 + of_nat j :: u64) = 0x80009000 + j"
      using j unat_add_nat [of "0x80009000 :: u64" j] by simp
    then have "(0x80009000 + of_nat j :: u64) div 0x1000 = 0x80009" using j by (simp add: word_unat_eq_iff unat_div)
    moreover have "unat (0x80009000 + of_nat j - 0x80002000 :: u64) = 0x7000 + j"
      using j unat_add_nat [of "0x7000 :: u64" j] by simp
    ultimately show ?thesis
      by (simp add: own_def in_tables_def demo_platform_def word_less_nat_alt)
  qed
  then show ?thesis by (simp add: own_page_def list_ex_iff)
qed

lemma demo_stores:
  "\<exists>s pa. vm_reach demo_platform demo_image [(0x9456, 7)] s \<and> user_pa demo_platform s PTE_W 0x9456 = Some pa \<and>
    vm_inv demo_platform [9] s \<and> accessed s \<and> apart_pages demo_platform s"
proof -
  let ?p = demo_platform and ?va = "0x9456 :: u64"
  have pl: "placed ?p" using demo_ok(1) by (simp add: platform_ok_def)
  have va: "in_test_pages ?va" "unat (?va div 0x1000) = 9" by (simp_all add: in_test_pages_def)
  obtain s where s: "vm_reach ?p demo_image [] s" "vm_inv ?p [] s" using demo_boots by blast
  obtain s1 where s1: "handle_fault ?p ?va CAUSE_STORE_PAGE_FAULT s = Some (Go s1)" "vm_inv ?p [9] s1"
    using fault_served [OF demo_ok(1) s(2) va(1), of CAUSE_STORE_PAGE_FAULT] va(2) by auto
  have r1: "vm_reach ?p demo_image [] s1" using vm_reach.fault [OF s(1) s1(1)] .
  have pa: "user_pa ?p s1 PTE_W ?va = Some (frame ?p 0 + take_bit 12 ?va)"
    using user_pa_mapped [OF pl s1(2) va(1), of 0 PTE_W] va(2) by simp
  let ?s2 = "user_touch ?va (PTE_A OR PTE_D) ((dram s1)(frame ?p 0 + take_bit 12 ?va := 7)) s1"
  have r2: "vm_reach ?p demo_image [(?va, 7)] ?s2" using vm_reach.store [OF r1 pa, of 7] by simp
  have i2: "vm_inv ?p [9] ?s2" using touch_inv [OF s1(2), of ?va "PTE_A OR PTE_D"] by (simp add: pte_consts)
  moreover have "user_pa ?p ?s2 PTE_W ?va = Some (frame ?p 0 + take_bit 12 ?va)"
    using user_pa_mapped [OF pl i2 va(1), of 0 PTE_W] va(2) by simp
  moreover have "accessed ?s2"
    unfolding accessed_def
  proof (intro allI impI)
    fix i assume nz: "user_llpt ?s2 i \<noteq> 0"
    then have "i = 9" using i2 by (cases "i = 9") (simp_all add: vm_inv_def)
    then show "user_llpt ?s2 i AND PTE_A \<noteq> 0"
      by (simp add: touch_llpt bit.conj_disj_distrib2 bit.conj_disj_distrib or_eq_0_iff pte_consts)
  qed
  moreover have "apart_pages ?p ?s2"
    unfolding apart_pages_def
  proof (intro allI impI)
    fix i assume "user_llpt ?s2 i \<noteq> 0"
    then have "i = 9" using i2 by (cases "i = 9") (simp_all add: vm_inv_def)
    then show "\<not> own_page ?p (DRAM_BASE + of_nat i * PGSIZE)" using demo_page_free by simp
  qed
  ultimately show ?thesis using r2 by blast
qed

lemma demo_bytes: "program_byte demo_platform 0x9456" "program_byte demo_platform 0x9457" "program_byte demo_platform 0xA001"
  by (simp_all add: program_byte_def in_test_pages_def own_def in_tables_def in_image_def demo_platform_def)


section \<open>Main results\<close>

text \<open>
  C4: demand paging is invisible to the test program. In every state of a run, whatever
  faults were handled on the way, a byte of the program's pages that is not a variable
  of the supervisor (a table, a list, its stack, \<open>tohost\<close>) is the byte of the loaded image
  with the program's own stores applied to it.\<close>

theorem paging_refines_memory:
  assumes "platform_ok p" "zeroed s0" "vm_reach p s0 w s" "program_byte p va"
  shows "seen p s va = apply_stores w (\<lambda>va. dram s0 (0x80000000 + va)) va"
  using reach_shows [OF assms(1-3)] assms(4) by (auto simp: shows_memory_def)

theorem paging_refines_memory_witness:
  "\<exists>s. vm_reach demo_platform demo_image [(0x9456, 7)] s \<and> seen demo_platform s 0x9456 = 7 \<and>
    seen demo_platform s 0x9457 = 0x57 \<and> seen demo_platform s 0xA001 = 1"
proof -
  obtain s where s: "vm_reach demo_platform demo_image [(0x9456, 7)] s" using demo_stores by blast
  note refines = paging_refines_memory [OF demo_ok s]
  from refines [OF demo_bytes(1)] refines [OF demo_bytes(2)] refines [OF demo_bytes(3)] s show ?thesis
    by (auto simp: apply_stores_def demo_image_def)
qed

text \<open>
  C7: a page fault of the program in its range is always served: in every state of a
  run there is a frame left for a page that is not mapped, no assertion fails, and
  afterwards the program can read and write the byte it asked for.\<close>

theorem page_fault_served:
  assumes "platform_ok p" "zeroed s0" "vm_reach p s0 w s" "in_test_pages va" "user_llpt s (unat (va div PGSIZE)) = 0"
  shows "\<exists>s'. handle_fault p va c s = Some (Go s') \<and> vm_reach p s0 w s' \<and> user_pa p s' PTE_R va \<noteq> None \<and>
    user_pa p s' PTE_W va = user_pa p s' PTE_R va"
proof -
  obtain ps where "vm_inv p ps s" using reach_shows [OF assms(1-3)] by (auto simp: shows_memory_def)
  then show ?thesis using fault_then_access [OF assms(1) _ assms(4), of ps s c] assms(3,5) vm_reach.fault by force
qed

theorem page_fault_served_witness:
  "\<exists>s s'. vm_reach demo_platform demo_image [] s \<and> handle_fault demo_platform 0x9456 CAUSE_LOAD_PAGE_FAULT s = Some (Go s') \<and>
    user_pa demo_platform s' PTE_R 0x9456 \<noteq> None"
proof -
  obtain s where s: "vm_reach demo_platform demo_image [] s" "vm_inv demo_platform [] s" using demo_boots by blast
  then have "user_llpt s (unat (0x9456 div PGSIZE)) = 0" by (simp add: vm_inv_def)
  with page_fault_served [OF demo_ok s(1), of "0x9456" CAUSE_LOAD_PAGE_FAULT] s(1) show ?thesis
    by (auto simp: in_test_pages_def)
qed

text \<open>
  C6: isolation. In every state of a run the program reaches only its own 62 pages, at
  addresses inside the 63 frames behind the image, and two different addresses of the
  program never reach the same byte.\<close>

theorem program_isolated:
  assumes "platform_ok p" "zeroed s0" "vm_reach p s0 w s" "user_pa p s right va = Some pa"
  shows "in_test_pages va \<and> 0x80040000 \<le> pa \<and> pa < 0x8007F000 \<and>
    (\<forall>va'. user_pa p s right va' = Some pa \<longrightarrow> va' = va)"
proof -
  obtain ps where inv: "vm_inv p ps s" using reach_shows [OF assms(1-3)] by (auto simp: shows_memory_def)
  have pl: "placed p" using assms(1) by (simp add: platform_ok_def)
  have at: "in_test_pages v \<and> pa = place p s v" if "user_pa p s right v = Some pa" for v
    using that user_walk(1) [OF inv pl] by (auto simp: user_pa_def place_def split: option.splits if_splits)
  obtain k where k: "pa = frame p k + take_bit 12 va" using user_page [OF inv pl assms(4)] .
  have "0x80040000 \<le> unat pa \<and> unat pa < 0x8007F000"
    using frame_unat [where p = p and k = k] offset_less [of va] by (simp add: k frame_offset)
  then have "0x80040000 \<le> pa" "pa < 0x8007F000" by (simp_all add: word_le_nat_alt word_less_nat_alt)
  moreover have "va' = va" if "user_pa p s right va' = Some pa" for va'
    using at [OF that] at [OF assms(4)] place_inj [OF inv pl, of va' va] by simp
  ultimately show ?thesis using at [OF assms(4)] by blast
qed

theorem program_isolated_witness:
  "\<exists>s pa. vm_reach demo_platform demo_image [(0x9456, 7)] s \<and> user_pa demo_platform s PTE_W 0x9456 = Some pa \<and>
    0x80040000 \<le> pa \<and> pa < 0x8007F000 \<and> (\<forall>va'. user_pa demo_platform s PTE_W va' = Some pa \<longrightarrow> va' = 0x9456)"
proof -
  obtain s pa where s: "vm_reach demo_platform demo_image [(0x9456, 7)] s" "user_pa demo_platform s PTE_W 0x9456 = Some pa"
    using demo_stores by blast
  from program_isolated [OF demo_ok s] s show ?thesis by blast
qed

text \<open>
  C5: exit. When the program makes its environment call in a state of the run in which
  every mapped page has been accessed and none holds a variable of the supervisor, the
  supervisor evicts all pages without a failed assertion and ends the test with the
  program's code; the image then holds, at every address of the program that is not a
  variable of the supervisor, the loaded byte or the program's last store to it.\<close>

theorem ecall_writes_back:
  assumes "platform_ok p" "zeroed s0" "host_ok p" "vm_reach p s0 w s" "accessed s" "apart_pages p s"
    and "trap_filter p tf = (0, tf)" "cause tf = CAUSE_USER_ECALL"
  shows "\<exists>s'. handle_trap p tf s = Some (Exit (Terminated (ucast (gpr tf ! 10))) s') \<and>
    sent s' = sent s @ [scast (ucast (gpr tf ! 10) :: s32)] \<and>
    (\<forall>va. program_byte p va \<longrightarrow>
       phys p s' (DRAM_BASE + va) = apply_stores w (\<lambda>va. dram s0 (DRAM_BASE + va)) va)"
proof -
  obtain ps where ps: "vm_inv p ps s" "clean p s" "\<And>va. program_byte p va \<Longrightarrow> seen p s va = apply_stores w (\<lambda>va. dram s0 (0x80000000 + va)) va"
    using reach_shows [OF assms(1,2,4)] by (auto simp: shows_memory_def)
  have "placed p" using assms(1) by (simp add: platform_ok_def)
  from ecall_runs [OF this assms(3) ps(1,2) assms(5,6,7)] assms(8) ps(3) show ?thesis
    by (auto simp: CAUSE_USER_ECALL_def phys_dram program_byteD)
qed

definition demo_ecall :: trapframe_t where
  "demo_ecall = \<lparr>gpr = (replicate 32 0)[10 := 1], sr = 0, epc = 0x2000, badvaddr = 0, cause = CAUSE_USER_ECALL\<rparr>"

theorem ecall_writes_back_witness:
  "\<exists>s s'. vm_reach demo_platform demo_image [(0x9456, 7)] s \<and>
    handle_trap demo_platform demo_ecall s = Some (Exit (Terminated 1) s') \<and>
    phys demo_platform s' (DRAM_BASE + 0x9456) = 7 \<and> phys demo_platform s' (DRAM_BASE + 0x9457) = 0x57"
proof -
  let ?p = demo_platform
  obtain s where s: "vm_reach ?p demo_image [(0x9456, 7)] s" "accessed s" "apart_pages ?p s" using demo_stores by blast
  have host: "host_ok ?p" unfolding host_ok_def
  proof
    fix t
    show "\<exists>n. \<not> busy ?p (t + n)" by (rule exI [of _ "2 * t"]) (simp add: demo_platform_def)
  qed
  have tf: "trap_filter ?p demo_ecall = (0, demo_ecall)" "cause demo_ecall = CAUSE_USER_ECALL" "gpr demo_ecall ! 10 = 1"
    by (simp_all add: demo_platform_def demo_ecall_def)
  obtain s' where s': "handle_trap ?p demo_ecall s = Some (Exit (Terminated (ucast (gpr demo_ecall ! 10))) s')"
    "\<forall>va. program_byte ?p va \<longrightarrow> phys ?p s' (DRAM_BASE + va) = apply_stores [(0x9456, 7)] (\<lambda>va. dram demo_image (DRAM_BASE + va)) va"
    using ecall_writes_back [OF demo_ok host s tf(1,2)] by blast
  have "phys ?p s' (DRAM_BASE + 0x9456) = 7" "phys ?p s' (DRAM_BASE + 0x9457) = 0x57"
    using s'(2) [rule_format, OF demo_bytes(1)] s'(2) [rule_format, OF demo_bytes(2)]
    by (simp_all add: apply_stores_def demo_image_def)
  with s s'(1) tf(3) show ?thesis by auto
qed

end
