(* ===== verification/Tiny_Malloc.thy ===== *)
theory Tiny_Malloc
  imports Rt_String
begin

text \<open>
  \<open>guests/riscv-tests/debug/programs/tiny-malloc.c\<close>: the allocator of the debug programs,
  for a 64-bit machine and an upward-growing heap.

  The free list lives in the memory it manages: a block begins with a word for its
  size, and a free block has the address of the next one in its second word. A
  pointer to a link is \<open>Head\<close> for \<open>__malloc_freelist\<close> or \<open>Next b\<close> for the second word of
  block \<open>b\<close>; the null pointer is 0. \<open>MALLOC_LIMIT\<close>, the frame address of the caller, is
  an argument. A loop over a list that does not end is \<open>None\<close>.
\<close>

section \<open>Model\<close>

record heap =
  mem :: memory
  malloc_end :: u64
  malloc_freelist :: u64

datatype loc = Head | Next u64

definition link :: "heap \<Rightarrow> loc \<Rightarrow> u64" where
  "link s l = (case l of Head \<Rightarrow> malloc_freelist s | Next b \<Rightarrow> load64 (mem s) (b + 8))"

definition set_link :: "loc \<Rightarrow> u64 \<Rightarrow> heap \<Rightarrow> heap" where
  "set_link l v s =
     (case l of Head \<Rightarrow> s\<lparr>malloc_freelist := v\<rparr> | Next b \<Rightarrow> s\<lparr>mem := store64 (mem s) (b + 8) v\<rparr>)"

definition bsize :: "heap \<Rightarrow> u64 \<Rightarrow> u64" where
  "bsize s b = load64 (mem s) b"

definition set_size :: "u64 \<Rightarrow> u64 \<Rightarrow> heap \<Rightarrow> heap" where
  "set_size b v s = s\<lparr>mem := store64 (mem s) b v\<rparr>"

definition M_ALIGN :: "u64 \<Rightarrow> u64 \<Rightarrow> u64" where
  "M_ALIGN x align = (- x) AND (align - 1)"

definition MALLOC_MINIMUM_GAP :: u64 where
  "MALLOC_MINIMUM_GAP = 32"

definition CAN_ALLOC_P :: "u64 \<Rightarrow> heap \<Rightarrow> u64 \<Rightarrow> bool" where
  "CAN_ALLOC_P limit s required \<longleftrightarrow> required \<le> limit - malloc_end s - MALLOC_MINIMUM_GAP"

definition REAL_SIZE :: "u64 \<Rightarrow> u64" where
  "REAL_SIZE sz = (if sz < 16 - 8 then 16 else sz + 8 + M_ALIGN sz 8)"

subsection \<open>malloc\<close>

text \<open>The label \<open>done\<close>: the block gets its size, its second word is returned.\<close>

definition malloc_done :: "u64 \<Rightarrow> u64 \<Rightarrow> heap \<Rightarrow> heap \<times> u64" where
  "malloc_done block real_size s = (set_size block real_size s, block + 8)"

definition take_block :: "u64 \<Rightarrow> loc \<Rightarrow> u64 \<Rightarrow> heap \<Rightarrow> heap \<times> u64" where
  "take_block real_size nextfree block s =
     (if bsize s block < real_size + 16 then (set_link nextfree (link s (Next block)) s, block + 8)
      else let newsize = bsize s block - real_size; newnext = link s (Next block); new = block + real_size
        in malloc_done block real_size (set_link (Next new) newnext (set_size new newsize (set_link nextfree new s))))"

definition grow_last :: "u64 \<Rightarrow> u64 \<Rightarrow> loc \<Rightarrow> u64 \<Rightarrow> heap \<Rightarrow> heap \<times> u64" where
  "grow_last limit real_size nextfree block s =
     (let moresize = real_size - bsize s block
      in if \<not> CAN_ALLOC_P limit s moresize then (s, 0)
         else malloc_done block real_size ((set_link nextfree 0 s)\<lparr>malloc_end := block + real_size\<rparr>))"

definition take_top :: "u64 \<Rightarrow> u64 \<Rightarrow> heap \<Rightarrow> heap \<times> u64" where
  "take_top limit real_size s =
     (if \<not> CAN_ALLOC_P limit s real_size then (s, 0)
      else malloc_done (malloc_end s) real_size (s\<lparr>malloc_end := malloc_end s + real_size\<rparr>))"

partial_function (option) malloc_loop :: "u64 \<Rightarrow> u64 \<Rightarrow> heap \<Rightarrow> loc \<Rightarrow> (heap \<times> u64) option" where
  "malloc_loop limit real_size s nextfree =
     (let block = link s nextfree
      in if block = 0 then Some (take_top limit real_size s)
         else if real_size \<le> bsize s block then Some (take_block real_size nextfree block s)
         else if link s (Next block) = 0 \<and> malloc_end s = block + bsize s block
         then Some (grow_last limit real_size nextfree block s)
         else malloc_loop limit real_size s (Next block))"

definition malloc :: "u64 \<Rightarrow> u64 \<Rightarrow> heap \<Rightarrow> (heap \<times> u64) option" where
  "malloc limit sz s = malloc_loop limit (REAL_SIZE sz) s Head"

subsection \<open>free\<close>

definition join_after :: "u64 \<Rightarrow> u64 \<Rightarrow> heap \<Rightarrow> heap" where
  "join_after thisblock block s =
     (let s = set_size thisblock (bsize s thisblock + bsize s block) s; nxt = link s (Next thisblock)
      in if nxt \<noteq> 0 \<and> block + bsize s block = nxt
         then let s = set_size thisblock (bsize s thisblock + bsize s nxt) s
              in set_link (Next thisblock) (link s (Next nxt)) s
         else s)"

definition join_before :: "loc \<Rightarrow> u64 \<Rightarrow> u64 \<Rightarrow> heap \<Rightarrow> heap" where
  "join_before nextfree thisblock block s =
     (let s = set_size block (bsize s block + bsize s thisblock) s;
          s = set_link (Next block) (link s (Next thisblock)) s
      in set_link nextfree block s)"

definition put_free :: "loc \<Rightarrow> u64 \<Rightarrow> heap \<Rightarrow> heap" where
  "put_free nextfree block s = set_link nextfree block (set_link (Next block) (link s nextfree) s)"

partial_function (option) free_loop :: "u64 \<Rightarrow> heap \<Rightarrow> loc \<Rightarrow> heap option" where
  "free_loop block s nextfree =
     (let thisblock = link s nextfree
      in if thisblock = 0 then Some (put_free nextfree block s)
         else if thisblock + bsize s thisblock = block then Some (join_after thisblock block s)
         else if thisblock = block + bsize s block then Some (join_before nextfree thisblock block s)
         else if thisblock > block then Some (put_free nextfree block s)
         else free_loop block s (Next thisblock))"

definition free :: "u64 \<Rightarrow> heap \<Rightarrow> heap option" where
  "free block_p s = (if block_p = 0 then Some s else free_loop (block_p - 8) s Head)"

definition cfree :: "u64 \<Rightarrow> heap \<Rightarrow> heap option" where
  "cfree p s = free p s"

subsection \<open>realloc and calloc\<close>

definition realloc :: "u64 \<Rightarrow> u64 \<Rightarrow> u64 \<Rightarrow> heap \<Rightarrow> (heap \<times> u64) option" where
  "realloc limit block_p sz s =
     (let block = block_p - 8; real_size = REAL_SIZE sz
      in if block_p = 0 then malloc limit sz s
         else let old_real_size = bsize s block
           in if old_real_size < real_size then
                let old_size = old_real_size - 8
                in do {
                  (s, result) \<leftarrow> malloc limit sz s;
                  if result = 0 then Some (s, 0)
                  else do {
                    (_, m) \<leftarrow> memcpy (mem s) result block_p (if old_size < sz then old_size else sz);
                    s \<leftarrow> free block_p (s\<lparr>mem := m\<rparr>);
                    Some (s, result)
                  }
                }
              else if old_real_size - real_size \<ge> 16 then
                let newblock = block + real_size;
                    s = set_size newblock (old_real_size - real_size) (set_size block real_size s)
                in do { s \<leftarrow> free (newblock + 8) s; Some (s, block_p) }
              else Some (s, block_p))"

definition calloc :: "u64 \<Rightarrow> u64 \<Rightarrow> u64 \<Rightarrow> heap \<Rightarrow> (heap \<times> u64) option" where
  "calloc limit n elem_size s =
     (let sz = n * elem_size
      in do {
        (s, result) \<leftarrow> malloc limit sz s;
        if result \<noteq> 0 then do { (_, m) \<leftarrow> memset (mem s) result 0 sz; Some (s\<lparr>mem := m\<rparr>, result) }
        else Some (s, result)
      })"

subsection \<open>memalign\<close>

text \<open>The block at a link, new from the top when the link is null; \<open>None\<close> for no space.\<close>

definition align_block :: "u64 \<Rightarrow> u64 \<Rightarrow> u64 \<Rightarrow> loc \<Rightarrow> heap \<Rightarrow> (heap \<times> u64 \<times> u64) option" where
  "align_block limit align real_size nextfree s =
     (if link s nextfree = 0 then
        let block = malloc_end s; old_size = real_size + M_ALIGN (malloc_end s + 8) align
        in if \<not> CAN_ALLOC_P limit s old_size then None
           else let s = s\<lparr>malloc_end := malloc_end s + old_size\<rparr>;
                    s = set_link nextfree block s; s = set_size block old_size s
                in Some (set_link (Next block) 0 s, block, old_size)
      else Some (s, link s nextfree, bsize s (link s nextfree)))"

definition before_size :: "u64 \<Rightarrow> u64 \<Rightarrow> u64" where
  "before_size align block =
     (if M_ALIGN (block + 8) align \<noteq> 0 then 16 + M_ALIGN (block + 16 + 8) align else 0)"

definition align_grow :: "u64 \<Rightarrow> u64 \<Rightarrow> u64 \<Rightarrow> u64 \<Rightarrow> u64 \<Rightarrow> heap \<Rightarrow> (heap \<times> u64) option" where
  "align_grow limit real_size before block old_size s =
     (if link s (Next block) = 0 \<and> old_size < real_size + before \<and> malloc_end s = block + bsize s block then
        if \<not> CAN_ALLOC_P limit s (before + real_size - bsize s block) then None
        else Some (set_size block (before + real_size) (s\<lparr>malloc_end := block + before + real_size\<rparr>), before + real_size)
      else Some (s, old_size))"

definition align_take :: "u64 \<Rightarrow> u64 \<Rightarrow> loc \<Rightarrow> u64 \<Rightarrow> u64 \<Rightarrow> heap \<Rightarrow> heap \<times> u64" where
  "align_take real_size before nextfree block old_size s =
     (if before \<noteq> 0 then
        let old_block = block; s = set_size old_block before s; block = block + before
        in if old_size - before \<le> real_size + 16 then (set_size block (old_size - before) s, block + 8)
           else let new_block = block + real_size;
                    s = set_size new_block (old_size - before - real_size) s;
                    s = set_link (Next new_block) (link s (Next old_block)) s
                in malloc_done block real_size (set_link (Next old_block) new_block s)
      else if old_size \<le> real_size + 16 then (set_link nextfree (link s (Next block)) s, block + 8)
      else let newsize = old_size - real_size; newnext = link s (Next block); new = block + real_size
        in malloc_done block real_size (set_link (Next new) newnext (set_size new newsize (set_link nextfree new s))))"

partial_function (option) memalign_loop :: "u64 \<Rightarrow> u64 \<Rightarrow> u64 \<Rightarrow> heap \<Rightarrow> loc \<Rightarrow> (heap \<times> u64) option" where
  "memalign_loop limit align real_size s nextfree =
     (case align_block limit align real_size nextfree s of None \<Rightarrow> Some (s, 0)
      | Some (s, block, old_size) \<Rightarrow>
          let before = before_size align block
          in (case align_grow limit real_size before block old_size s of None \<Rightarrow> Some (s, 0)
              | Some (s, old_size) \<Rightarrow>
                  if old_size \<ge> real_size + before then Some (align_take real_size before nextfree block old_size s)
                  else memalign_loop limit align real_size s (Next (link s nextfree))))"

definition memalign :: "u64 \<Rightarrow> u64 \<Rightarrow> u64 \<Rightarrow> heap \<Rightarrow> (heap \<times> u64) option" where
  "memalign limit align sz s =
     (if align AND (align - 1) \<noteq> 0 \<or> align = 0 then Some (s, 0)
      else memalign_loop limit align (REAL_SIZE sz) s Head)"

definition valloc :: "u64 \<Rightarrow> u64 \<Rightarrow> heap \<Rightarrow> (heap \<times> u64) option" where
  "valloc limit sz s = memalign limit 128 sz s"

definition pvalloc :: "u64 \<Rightarrow> u64 \<Rightarrow> heap \<Rightarrow> (heap \<times> u64) option" where
  "pvalloc limit sz s = memalign limit 128 (sz + M_ALIGN sz 128) s"

subsection \<open>Statistics\<close>

record mallinfo =
  arena :: u64
  ordblks :: u64
  keepcost :: u64
  uordblks :: u64
  fordblks :: u64

partial_function (option) mallinfo_loop :: "heap \<Rightarrow> u64 \<Rightarrow> u64 \<Rightarrow> u64 \<Rightarrow> u64 \<Rightarrow> (u64 \<times> u64 \<times> u64) option" where
  "mallinfo_loop s fr free_size free_blocks keep =
     (if fr = 0 then Some (free_size, free_blocks, keep)
      else mallinfo_loop s (link s (Next fr)) (free_size + bsize s fr) (free_blocks + 1)
        (if link s (Next fr) = 0 \<and> fr + bsize s fr = malloc_end s then bsize s fr else keep))"

definition mallinfo :: "u64 \<Rightarrow> heap \<Rightarrow> mallinfo option" where
  "mallinfo malloc_start s =
     do {
       (free_size, free_blocks, keep) \<leftarrow> mallinfo_loop s (malloc_freelist s) 0 0 0;
       let total_size = malloc_end s - malloc_start;
       Some \<lparr>arena = total_size, ordblks = free_blocks, keepcost = keep, uordblks = total_size - free_size, fordblks = free_size\<rparr>
     }"

definition malloc_usable_size :: "u64 \<Rightarrow> heap \<Rightarrow> u64" where
  "malloc_usable_size block_p s = bsize s (block_p - 8) - 8"

definition mallopt :: "s32 \<Rightarrow> s32 \<Rightarrow> s32" where
  "mallopt n v = 0"

declare malloc_loop.simps [code] free_loop.simps [code] memalign_loop.simps [code] mallinfo_loop.simps [code]

end
