(* ===== verification/Mem_Words.thy ===== *)
theory Mem_Words
  imports Rt_String
begin

text \<open>
  Words and areas of a memory of bytes: what a store of a word leaves of the others, and
  memories that agree on a set of addresses. Shared by the allocator and the page tables.
\<close>

subsection \<open>Words at addresses\<close>

lemma load64_frame:
  assumes "\<And>i. i < 8 \<Longrightarrow> m' (a + of_nat i) = m (a + of_nat i)"
  shows "load64 m' a = load64 m a"
  by (rule bit_word_eqI) (simp add: load64_bit assms)

lemma load64_store64: "load64 (store64 m a v) a = v"
proof (rule bit_word_eqI)
  fix n assume n: "n < LENGTH(64)"
  then have "unat (of_nat (n div 8) :: u64) = n div 8" by (intro unat_of_nat_small) simp
  with n show "bit (load64 (store64 m a v) a) n \<longleftrightarrow> bit v n"
    by (simp add: load64_bit store64_def bit_simps less_mult_imp_div_less)
qed

lemma store64_outside:
  assumes "a + 8 \<le> 2 ^ 64" "x < 2 ^ 64" "x < a \<or> a + 8 \<le> x"
  shows "store64 m (of_nat a) v (of_nat x) = m (of_nat x)"
proof -
  have u: "unat (of_nat a :: u64) = a" "unat (of_nat x :: u64) = x" using assms(1,2) by (simp_all add: unat_of_nat_small)
  have "unat (of_nat x - of_nat a :: u64) = (if a \<le> x then x - a else x + 2 ^ LENGTH(64) - a)"
    using unat_sub_if' [of "of_nat x :: u64" "of_nat a"] unfolding u .
  then have "8 \<le> unat (of_nat x - of_nat a :: u64)" using assms by auto
  then show ?thesis by (simp add: store64_def)
qed

text \<open>Memories that agree on a set of addresses.\<close>

definition same_on :: "memory \<Rightarrow> memory \<Rightarrow> nat set \<Rightarrow> bool" where
  "same_on m' m S \<longleftrightarrow> (\<forall>x\<in>S. m' (of_nat x) = m (of_nat x))"

lemma same_on_refl [simp]: "same_on m m S"
  by (simp add: same_on_def)

lemma same_on_trans: "same_on m'' m' S \<Longrightarrow> same_on m' m S \<Longrightarrow> same_on m'' m S"
  by (simp add: same_on_def)

lemma same_on_sub: "same_on m' m S \<Longrightarrow> S' \<subseteq> S \<Longrightarrow> same_on m' m S'"
  by (auto simp: same_on_def)

lemma same_on_store:
  assumes "a + 8 \<le> 2 ^ 64" "\<And>x. x \<in> S \<Longrightarrow> x < 2 ^ 64 \<and> (x < a \<or> a + 8 \<le> x)"
  shows "same_on (store64 m (of_nat a) v) m S"
  using assms by (auto simp: same_on_def intro!: store64_outside)

lemma same_on_load:
  assumes "same_on m' m S" "{a..<a + 8} \<subseteq> S"
  shows "load64 m' (of_nat a) = load64 m (of_nat a)"
proof (rule load64_frame)
  fix i :: nat assume "i < 8"
  then have "a + i \<in> S" using assms(2) by auto
  then have "m' (of_nat (a + i)) = m (of_nat (a + i))" using assms(1) unfolding same_on_def by blast
  then show "m' (of_nat a + of_nat i) = m (of_nat a + of_nat i)" by simp
qed

lemma load64_store64_other:
  assumes "a + 8 \<le> 2 ^ 64" "b + 8 \<le> 2 ^ 64" "b + 8 \<le> a \<or> a + 8 \<le> b"
  shows "load64 (store64 m (of_nat a) v) (of_nat b) = load64 m (of_nat b)"
  using assms by (intro same_on_load [OF same_on_store, of a "{b..<b + 8}"]) auto

end
