(* ===== verification/Malloc_Heap.thy ===== *)
theory Malloc_Heap
  imports Tiny_Malloc Mem_Words
begin

text \<open>
  The allocator of \<open>tiny-malloc.c\<close> against a specification on lists of free blocks.

  \<open>malloc_abs\<close> and \<open>free_abs\<close> are first fit with splitting and free with merging, on the
  list of the free blocks by address; \<open>heap_inv\<close> says that the linked list in memory is
  that list and that the free and the allocated blocks tile the heap.
\<close>

subsection \<open>The specification\<close>

type_synonym block = "nat \<times> nat"

text \<open>Free blocks in the order of their addresses from \<open>lo\<close>, never two adjacent ones, up to \<open>hi\<close>.\<close>

fun gaps :: "nat \<Rightarrow> block list \<Rightarrow> nat \<Rightarrow> bool" where
  "gaps lo [] hi \<longleftrightarrow> lo \<le> Suc hi"
| "gaps lo ((a, n) # xs) hi \<longleftrightarrow> lo \<le> a \<and> 16 \<le> n \<and> gaps (Suc (a + n)) xs hi"

fun malloc_abs :: "nat \<Rightarrow> nat \<Rightarrow> nat \<Rightarrow> block list \<Rightarrow> (block \<times> nat \<times> block list) option" where
  "malloc_abs limit r e [] = (if e + 32 + r \<le> limit then Some ((e, r), e + r, []) else None)"
| "malloc_abs limit r e ((a, n) # xs) =
     (if r \<le> n then
        if n < r + 16 then Some ((a, n), e, xs) else Some ((a, r), e, (a + r, n - r) # xs)
      else if xs = [] \<and> e = a + n then
        if e + 32 + (r - n) \<le> limit then Some ((a, r), a + r, []) else None
      else map_option (\<lambda>(b, e', ys). (b, e', (a, n) # ys)) (malloc_abs limit r e xs))"

fun free_abs :: "nat \<Rightarrow> nat \<Rightarrow> block list \<Rightarrow> block list" where
  "free_abs b k [] = [(b, k)]"
| "free_abs b k ((a, n) # xs) =
     (if a + n = b then
        case xs of (a', n') # ys \<Rightarrow> if b + k = a' then (a, n + k + n') # ys else (a, n + k) # xs
        | [] \<Rightarrow> [(a, n + k)]
      else if a = b + k then (b, k + n) # xs
      else if b < a then (b, k) # (a, n) # xs
      else (a, n) # free_abs b k xs)"

text \<open>The bytes of a block and of a list of blocks.\<close>

definition bytes :: "block \<Rightarrow> nat set" where
  "bytes x = {fst x..<fst x + snd x}"

definition region :: "block list \<Rightarrow> nat set" where
  "region xs = (\<Union>x\<in>set xs. bytes x)"

lemma region_simps [simp]: "region [] = {}" "region ((a, n) # xs) = {a..<a + n} \<union> region xs"
  by (simp_all add: region_def bytes_def)

lemma gaps_le: "gaps lo xs hi \<Longrightarrow> lo \<le> Suc hi"
  by (induction xs arbitrary: lo) (auto, fastforce)

lemma gaps_lower: "gaps lo xs hi \<Longrightarrow> lo' \<le> lo \<Longrightarrow> gaps lo' xs hi"
  by (cases xs) auto

lemma gaps_region: "gaps lo xs hi \<Longrightarrow> region xs \<subseteq> {lo..<hi}"
proof (induction xs arbitrary: lo)
  case (Cons x xs)
  obtain a n where x: "x = (a, n)" by (cases x)
  then have "a + n \<le> hi" using gaps_le [of "Suc (a + n)" xs hi] Cons.prems by simp
  then show ?case using Cons.IH [of "Suc (a + n)"] Cons.prems x by auto
qed simp

lemma gaps_upper: "gaps lo xs hi \<Longrightarrow> hi \<le> hi' \<Longrightarrow> gaps lo xs hi'"
  by (induction xs arbitrary: lo) auto

lemma malloc_abs_gaps:
  "gaps lo xs e \<Longrightarrow> 16 \<le> r \<Longrightarrow> malloc_abs limit r e xs = Some ((b, k), e', ys) \<Longrightarrow>
   gaps lo ys e' \<and> r \<le> k \<and> e \<le> e' \<and> (e < e' \<longrightarrow> e' + 32 \<le> limit) \<and> {b..<b + k} \<inter> region ys = {} \<and>
   {b..<b + k} \<union> region ys = region xs \<union> {e..<e'} \<and> lo \<le> Suc b \<and> b + k \<le> e'"
proof (induction xs arbitrary: lo ys)
  case Nil
  then show ?case by (auto split: if_splits)
next
  case (Cons x xs)
  obtain a n where x: "x = (a, n)" by (cases x)
  have g: "lo \<le> a" "16 \<le> n" "gaps (Suc (a + n)) xs e" using Cons.prems(1) x by simp_all
  have an: "a + n \<le> e" using gaps_le [OF g(3)] by simp
  have reg: "region xs \<subseteq> {Suc (a + n)..<e}" using gaps_region [OF g(3)] .
  consider (exact) "r \<le> n" "n < r + 16" | (split) "r + 16 \<le> n" | (grow) "n < r" "xs = []" "e = a + n"
    | (rest) "n < r" "\<not> (xs = [] \<and> e = a + n)" by linarith
  then show ?case
  proof cases
    case exact
    then have [simp]: "b = a" "k = n" "e' = e" "ys = xs" using Cons.prems(3) x by simp_all
    show ?thesis using g an reg exact gaps_lower [OF g(3), of lo] x by auto
  next
    case split
    then have [simp]: "b = a" "k = r" "e' = e" "ys = (a + r, n - r) # xs" using Cons.prems(3) x by auto
    show ?thesis using g an reg split x by auto
  next
    case grow
    then have "malloc_abs limit r e (x # xs) = (if e + 32 + (r - n) \<le> limit then Some ((a, r), a + r, []) else None)"
      using x by simp
    then have "b = a" "k = r" "e' = a + r" "ys = []" "e + 32 + (r - n) \<le> limit" using Cons.prems(3) by (simp_all split: if_splits)
    then show ?thesis using g grow x by auto
  next
    case rest
    then obtain zs where zs: "malloc_abs limit r e xs = Some ((b, k), e', zs)" "ys = (a, n) # zs"
      using Cons.prems(3) x by (auto split: if_splits)
    note ih = Cons.IH [OF g(3) Cons.prems(2) zs(1)]
    then show ?thesis using g zs(2) x by auto
  qed
qed

lemma malloc_abs_none:
  "gaps lo xs e \<Longrightarrow> malloc_abs limit r e xs = None \<Longrightarrow> (\<forall>x\<in>set xs. snd x < r) \<and> limit < e + 32 + r"
proof (induction xs arbitrary: lo)
  case Nil
  then show ?case by (simp split: if_splits)
next
  case (Cons x xs)
  obtain a n where x: "x = (a, n)" by (cases x)
  have g: "gaps (Suc (a + n)) xs e" using Cons.prems(1) x by simp
  show ?case
  proof (cases "xs = [] \<and> e = a + n")
    case True
    then show ?thesis using Cons.prems(2) x by (auto split: if_splits)
  next
    case False
    then show ?thesis using Cons.IH [OF g] Cons.prems(2) x by (auto split: if_splits)
  qed
qed

lemma free_abs_gaps:
  "gaps lo xs e \<Longrightarrow> 16 \<le> k \<Longrightarrow> lo \<le> b \<Longrightarrow> b + k \<le> e \<Longrightarrow> {b..<b + k} \<inter> region xs = {} \<Longrightarrow>
   gaps lo (free_abs b k xs) e \<and> region (free_abs b k xs) = region xs \<union> {b..<b + k}"
proof (induction xs arbitrary: lo)
  case Nil
  then show ?case by auto
next
  case (Cons x xs)
  obtain a n where x: "x = (a, n)" by (cases x)
  have g: "lo \<le> a" "16 \<le> n" "gaps (Suc (a + n)) xs e" using Cons.prems(1) x by simp_all
  have an: "a + n \<le> e" using gaps_le [OF g(3)] by simp
  have disj: "{b..<b + k} \<inter> {a..<a + n} = {}" "{b..<b + k} \<inter> region xs = {}"
    using Cons.prems(5) unfolding x region_simps by blast+
  have apart: "b + k \<le> a \<or> a + n \<le> b"
  proof (rule ccontr)
    assume "\<not> ?thesis"
    then have "max a b \<in> {b..<b + k} \<inter> {a..<a + n}" using g(2) Cons.prems(2) by auto
    with disj(1) show False by blast
  qed
  consider (after) "a + n = b" | (before) "a = b + k" | (less) "b + k < a" | (rest) "a + n < b" using apart by linarith
  then show ?case
  proof cases
    case after
    show ?thesis
    proof (cases xs)
      case Nil
      then show ?thesis using g after Cons.prems x by auto
    next
      case (Cons y ys)
      obtain a' n' where y: "y = (a', n')" by (cases y)
      have "a' \<notin> {b..<b + k}" using disj(2) g(3) Cons y by auto
      then have "b + k \<le> a'" using g(3) Cons y after by auto
      then show ?thesis using g after Cons.prems x Cons y by (auto simp: add.assoc)
    qed
  next
    case before
    then show ?thesis using g Cons.prems(2-4) x by (auto simp: add.assoc)
  next
    case less
    then show ?thesis using g Cons.prems(2-4) x by auto
  next
    case rest
    then show ?thesis using Cons.IH [OF g(3) Cons.prems(2)] Cons.prems(4) disj g x by auto
  qed
qed

subsection \<open>The list in memory\<close>

fun flist :: "memory \<Rightarrow> u64 \<Rightarrow> block list \<Rightarrow> bool" where
  "flist m p [] \<longleftrightarrow> p = 0"
| "flist m p ((a, n) # xs) \<longleftrightarrow>
     p = of_nat a \<and> load64 m (of_nat a) = of_nat n \<and> flist m (load64 m (of_nat a + 8)) xs"

lemma word8: "of_nat a + 8 = (of_nat (a + 8) :: u64)"
  by simp

lemma flist_frame:
  assumes "flist m p xs" "gaps lo xs hi" "same_on m' m (region xs)"
  shows "flist m' p xs"
  using assms
proof (induction xs arbitrary: p lo)
  case (Cons x xs)
  obtain a n where x: "x = (a, n)" by (cases x)
  have g: "16 \<le> n" "gaps (Suc (a + n)) xs hi" using Cons.prems(2) x by simp_all
  have "load64 m' (of_nat c) = load64 m (of_nat c)" if "c = a \<or> c = a + 8" for c
    using g(1) x that by (intro same_on_load [OF Cons.prems(3)]) auto
  from this [of a] this [of "a + 8"]
  have w: "load64 m' (of_nat a) = load64 m (of_nat a)" "load64 m' (of_nat a + 8) = load64 m (of_nat a + 8)" by simp_all
  have "same_on m' m (region xs)" using same_on_sub [OF Cons.prems(3)] x by auto
  then show ?case using Cons.IH [OF _ g(2)] Cons.prems(1) x w by simp
qed simp

text \<open>
  A link before the blocks of a list: the head, or the second word of a block that ends
  before \<open>lo\<close>.
\<close>

definition loc_ok :: "nat \<Rightarrow> loc \<Rightarrow> bool" where
  "loc_ok lo l \<longleftrightarrow> (case l of Head \<Rightarrow> True | Next b \<Rightarrow> unat b + 16 < lo)"

definition locw :: "loc \<Rightarrow> nat set" where
  "locw l = (case l of Head \<Rightarrow> {} | Next b \<Rightarrow> {unat b + 8..<unat b + 16})"

lemma locw_simps [simp]: "locw Head = {}" "a < 2 ^ 64 \<Longrightarrow> locw (Next (of_nat a)) = {a + 8..<a + 16}"
  by (simp_all add: locw_def unat_of_nat_small)

lemma loc_ok_simps [simp]: "loc_ok lo Head" "a < 2 ^ 64 \<Longrightarrow> loc_ok lo (Next (of_nat a)) \<longleftrightarrow> a + 16 < lo"
  by (simp_all add: loc_ok_def unat_of_nat_small)

lemma loc_cases:
  assumes "loc_ok lo l" "lo \<le> 2 ^ 63"
  obtains "l = Head" | a where "l = Next (of_nat a)" "a + 16 < lo" "a < 2 ^ 64" "locw l = {a + 8..<a + 16}"
proof (cases l)
  case (Next b)
  have "b = of_nat (unat b)" by simp
  moreover have "unat b < 2 ^ 64" "unat b + 16 < lo" using assms Next by (simp_all add: loc_ok_def)
  ultimately show ?thesis using that(2) [of "unat b"] Next by (simp add: locw_def)
qed (use that(1) in blast)

lemma set_link_simps [simp]:
  "malloc_end (set_link l v s) = malloc_end s" "malloc_end (set_size b v s) = malloc_end s"
  "malloc_freelist (set_size b v s) = malloc_freelist s" "malloc_freelist (set_link (Next c) v s) = malloc_freelist s"
  by (simp_all add: set_link_def set_size_def split: loc.splits)

lemma mem_set [simp]:
  "mem (set_size b v s) = store64 (mem s) b v" "mem (set_link (Next c) v s) = store64 (mem s) (c + 8) v"
  "mem (set_link Head v s) = mem s"
  by (simp_all add: set_link_def set_size_def)

lemma link_set [simp]: "link (set_link l v s) l = v"
  by (simp add: link_def set_link_def load64_store64 split: loc.splits)

lemma set_link_frame:
  assumes "loc_ok lo l" "lo \<le> 2 ^ 63" "\<And>x. x \<in> S \<Longrightarrow> x < 2 ^ 64 \<and> x \<notin> locw l"
  shows "same_on (mem (set_link l v s)) (mem s) S"
  using assms(1,2)
proof (cases rule: loc_cases)
  case (2 a)
  then have "same_on (store64 (mem s) (of_nat (a + 8)) v) (mem s) S"
    using assms(2,3) by (intro same_on_store) force+
  then show ?thesis using 2 by simp
qed simp

lemma link_frame:
  assumes "loc_ok lo l" "lo \<le> 2 ^ 63" "same_on (mem s') (mem s) (locw l)" "l = Head \<Longrightarrow> malloc_freelist s' = malloc_freelist s"
  shows "link s' l = link s l"
  using assms(1,2)
proof (cases rule: loc_cases)
  case (2 a)
  have "load64 (mem s') (of_nat (a + 8)) = load64 (mem s) (of_nat (a + 8))"
    using 2 by (intro same_on_load [OF assms(3)]) auto
  then show ?thesis using 2 by (simp add: link_def)
qed (simp add: link_def assms(4))

text \<open>The effect of an operation at a link: the new list, and what it leaves alone.\<close>

definition updates :: "loc \<Rightarrow> nat set \<Rightarrow> heap \<Rightarrow> block list \<Rightarrow> heap \<Rightarrow> bool" where
  "updates l S s ys s' \<longleftrightarrow>
     flist (mem s') (link s' l) ys \<and> (l \<noteq> Head \<longrightarrow> malloc_freelist s' = malloc_freelist s) \<and>
     same_on (mem s') (mem s) (S - locw l)"

lemma updates_rest:
  assumes up: "updates (Next (of_nat a)) (S - {a..<a + n} \<union> {a..<a + 16}) s ys s'" and l: "loc_ok lo l" "lo \<le> a" "a + n \<le> e" "e < 2 ^ 63" "16 \<le> n"
    and lw: "locw l \<subseteq> S - {a..<a + n}" and head: "link s l = of_nat a" "load64 (mem s) (of_nat a) = of_nat n"
  shows "updates l (S - {a..<a + n}) s ((a, n) # ys) s'"
proof -
  have a: "a < 2 ^ 64" using l by simp
  have same: "same_on (mem s') (mem s) (S - {a..<a + n} \<union> {a..<a + 8})"
  proof (rule same_on_sub)
    show "same_on (mem s') (mem s) (S - {a..<a + n} \<union> {a..<a + 16} - locw (Next (of_nat a)))" using up by (simp add: updates_def)
  qed (use a l(5) in auto)
  have "same_on (mem s') (mem s) (locw l)" using lw by (intro same_on_sub [OF same]) blast
  moreover have "malloc_freelist s' = malloc_freelist s" using up by (simp add: updates_def)
  ultimately have "link s' l = link s l" using l by (intro link_frame [of lo]) simp_all
  moreover have "load64 (mem s') (of_nat a) = load64 (mem s) (of_nat a)" by (intro same_on_load [OF same]) simp
  moreover have "same_on (mem s') (mem s) (S - {a..<a + n} - locw l)" by (intro same_on_sub [OF same]) blast
  ultimately show ?thesis using up head by (simp add: updates_def link_def)
qed

lemma updates_sub: "updates l S s ys s' \<Longrightarrow> S' \<subseteq> S \<Longrightarrow> updates l S' s ys s'"
  by (auto simp: updates_def intro: same_on_sub)

lemma of_nat_order:
  assumes "a < 2 ^ 64" "b < 2 ^ 64"
  shows "(of_nat a :: u64) \<le> of_nat b \<longleftrightarrow> a \<le> b" "(of_nat a :: u64) < of_nat b \<longleftrightarrow> a < b"
    "(of_nat a :: u64) = of_nat b \<longleftrightarrow> a = b" "(of_nat a :: u64) = 0 \<longleftrightarrow> a = 0"
  using assms unat_of_nat_small [of a, where 'a = 64] unat_of_nat_small [of b, where 'a = 64]
  by (simp_all add: word_le_nat_alt word_less_nat_alt word_unat_eq_iff)

lemma can_alloc:
  assumes "malloc_end s = of_nat e" "e + 32 \<le> unat limit" "q < 2 ^ 64"
  shows "CAN_ALLOC_P limit s (of_nat q) \<longleftrightarrow> e + 32 + q \<le> unat limit"
proof -
  have "unat limit < 2 ^ 64" using unsigned_less [of limit] by simp
  then have e: "unat (of_nat (e + 32) :: u64) = e + 32" using assms(2) by (intro unat_of_nat_small) simp
  then have "(of_nat (e + 32) :: u64) \<le> limit" using assms(2) by (simp add: word_le_nat_alt)
  then have "unat (limit - of_nat (e + 32)) = unat limit - (e + 32)" using e by (simp add: unat_sub)
  moreover have "limit - malloc_end s - 32 = limit - of_nat (e + 32)" using assms(1) by simp
  ultimately have "unat (limit - malloc_end s - 32) = unat limit - (e + 32)" by (simp only:)
  then have "CAN_ALLOC_P limit s (of_nat q) \<longleftrightarrow> q \<le> unat limit - (e + 32)"
    using assms(3) by (simp add: CAN_ALLOC_P_def MALLOC_MINIMUM_GAP_def word_le_nat_alt unat_of_nat_small)
  then show ?thesis using assms(2) by auto
qed

lemma flist_null: "flist m p xs \<Longrightarrow> gaps lo xs e \<Longrightarrow> 0 < lo \<Longrightarrow> e < 2 ^ 63 \<Longrightarrow> p = 0 \<longleftrightarrow> xs = []"
proof (cases xs)
  case (Cons x ys)
  obtain a n where x: "x = (a, n)" by (cases x)
  assume "flist m p xs" "gaps lo xs e" "0 < lo" "e < 2 ^ 63"
  then have "p = of_nat a" "0 < a" "a < 2 ^ 64" using Cons x gaps_le [of "Suc (a + n)" ys e] by auto
  then show ?thesis using of_nat_order(4) [of a a] Cons by simp
qed simp

text \<open>A link of the list: what the loops know of the list behind it.\<close>

definition at_link :: "nat \<Rightarrow> loc \<Rightarrow> heap \<Rightarrow> block list \<Rightarrow> nat \<Rightarrow> bool" where
  "at_link lo l s xs e \<longleftrightarrow>
     flist (mem s) (link s l) xs \<and> gaps lo xs e \<and> 0 < lo \<and> e < 2 ^ 63 \<and> malloc_end s = of_nat e \<and> loc_ok lo l"

lemma at_link_Cons:
  assumes "at_link lo l s ((a, n) # xs) e"
  shows "link s l = of_nat a" "bsize s (of_nat a) = of_nat n" "lo \<le> a" "0 < a" "16 \<le> n" "a + n \<le> e" "e < 2 ^ 63"
    "gaps (Suc (a + n)) xs e" "flist (mem s) (link s (Next (of_nat a))) xs" "at_link (Suc (a + n)) (Next (of_nat a)) s xs e"
    "lo \<le> 2 ^ 63" "loc_ok lo l"
proof -
  note d = assms [unfolded at_link_def]
  show g: "gaps (Suc (a + n)) xs e" "lo \<le> a" "16 \<le> n" "0 < a" using d by auto
  show an: "a + n \<le> e" using gaps_le [OF g(1)] by simp
  show e: "e < 2 ^ 63" using d by simp
  show "link s l = of_nat a" "bsize s (of_nat a) = of_nat n" "flist (mem s) (link s (Next (of_nat a))) xs" "loc_ok lo l" "lo \<le> 2 ^ 63"
    using d g an by (simp_all add: bsize_def link_def)
  then show "at_link (Suc (a + n)) (Next (of_nat a)) s xs e" using d g an unfolding at_link_def by simp
qed

definition malloc_result :: "nat \<Rightarrow> nat \<Rightarrow> nat \<Rightarrow> loc \<Rightarrow> heap \<Rightarrow> block list \<Rightarrow> heap \<times> u64 \<Rightarrow> bool" where
  "malloc_result limit r e l s xs res \<longleftrightarrow>
     (case malloc_abs limit r e xs of
        None \<Rightarrow> res = (s, 0)
      | Some ((b, k), e', ys) \<Rightarrow>
          snd res = of_nat (b + 8) \<and> malloc_end (fst res) = of_nat e' \<and> load64 (mem (fst res)) (of_nat b) = of_nat k \<and>
          updates l ({..<e} - region xs) s ys (fst res))"

lemma locw_below:
  assumes "loc_ok lo l" "lo \<le> 2 ^ 63" "x \<in> locw l"
  shows "Suc x < lo"
  using assms(1,2)
proof (cases rule: loc_cases)
  case (2 a)
  then show ?thesis using assms(3) by auto
qed (use assms(3) in simp)

lemma take_top_result:
  assumes at: "at_link lo l s [] e" and lim: "e + 32 \<le> unat limit" and r: "r < 2 ^ 62"
  shows "malloc_result (unat limit) r e l s [] (take_top limit (of_nat r) s)"
proof (cases "e + 32 + r \<le> unat limit")
  case True
  note d = at [unfolded at_link_def]
  have lo: "lo \<le> 2 ^ 63" using d by simp
  let ?s = "set_size (of_nat e) (of_nat r) (s\<lparr>malloc_end := of_nat e + of_nat r\<rparr>)"
  have low: "x < e" if "x \<in> locw l" for x using locw_below [OF _ lo that] d by simp
  have same: "same_on (mem ?s) (mem s) {..<e}" using d by (auto intro!: same_on_store)
  have "link ?s l = link s l"
    using d lo by (intro link_frame [of lo] same_on_sub [OF same]) (auto dest: low)
  then have "updates l {..<e} s [] ?s" using d same_on_sub [OF same] by (auto simp: updates_def)
  then show ?thesis
    using True can_alloc [of s e limit r] d lim r
    by (simp add: malloc_result_def take_top_def malloc_done_def load64_store64 set_size_def)
next
  case False
  then show ?thesis using can_alloc [of s e limit r] at lim r by (simp add: malloc_result_def take_top_def at_link_def)
qed

lemma take_exact:
  assumes at: "at_link lo l s ((a, n) # xs) e"
  defines "s' \<equiv> set_link l (link s (Next (of_nat a))) s"
  shows "updates l ({..<e} - region ((a, n) # xs)) s xs s'" "load64 (mem s') (of_nat a) = of_nat n"
proof -
  note c = at_link_Cons [OF at]
  have same: "same_on (mem s') (mem s) ({..<e} - locw l)"
    unfolding s'_def using c(7) by (intro set_link_frame [OF c(12,11)]) simp
  have low: "x < lo" if "x \<in> locw l" for x using locw_below [OF c(12,11) that] by simp
  have "region xs \<subseteq> {..<e} - locw l" using gaps_region [OF c(8)] c(3) low by fastforce
  then have "flist (mem s') (link s (Next (of_nat a))) xs" using flist_frame [OF c(9,8)] same_on_sub [OF same] by blast
  moreover have "malloc_freelist s' = malloc_freelist s" if "l \<noteq> Head" using that by (cases l) (simp_all add: s'_def)
  moreover have "same_on (mem s') (mem s) ({..<e} - region ((a, n) # xs) - locw l)" by (rule same_on_sub [OF same]) blast
  ultimately show "updates l ({..<e} - region ((a, n) # xs)) s xs s'" by (simp add: updates_def s'_def)
  have "load64 (mem s') (of_nat a) = load64 (mem s) (of_nat a)"
    using c(3,5,6) by (intro same_on_load [OF same]) (auto dest: low)
  then show "load64 (mem s') (of_nat a) = of_nat n" using c(2) by (simp add: bsize_def)
qed

lemma load_header:
  fixes m :: memory and u v t :: u64
  assumes "a + 8 \<le> b" "b + 16 \<le> 2 ^ 64"
  defines "m' \<equiv> store64 (store64 (store64 m (of_nat b) v) (of_nat (b + 8)) u) (of_nat a) t"
  shows "load64 m' (of_nat b) = v" "load64 m' (of_nat (b + 8)) = u" "load64 m' (of_nat a) = t"
proof -
  have other: "load64 (store64 q (of_nat c) w) (of_nat d) = load64 q (of_nat d)"
    if "c + 8 \<le> 2 ^ 64" "d + 8 \<le> 2 ^ 64" "d + 8 \<le> c \<or> c + 8 \<le> d" for q w c d by (rule load64_store64_other [OF that])
  have 1: "load64 m' (of_nat b) = load64 (store64 (store64 m (of_nat b) v) (of_nat (b + 8)) u) (of_nat b)"
    unfolding m'_def using assms(1,2) by (intro other) auto
  also have "\<dots> = load64 (store64 m (of_nat b) v) (of_nat b)" using assms(2) by (intro other) auto
  finally show "load64 m' (of_nat b) = v" by (simp only: load64_store64)
  have "load64 m' (of_nat (b + 8)) = load64 (store64 (store64 m (of_nat b) v) (of_nat (b + 8)) u) (of_nat (b + 8))"
    unfolding m'_def using assms(1,2) by (intro other) auto
  then show "load64 m' (of_nat (b + 8)) = u" by (simp only: load64_store64)
  show "load64 m' (of_nat a) = t" unfolding m'_def by (rule load64_store64)
qed

lemma take_split:
  assumes at: "at_link lo l s ((a, n) # xs) e" and r: "16 \<le> r" "r + 16 \<le> n"
  defines "new \<equiv> of_nat a + of_nat r"
  defines "s' \<equiv> fst (malloc_done (of_nat a) (of_nat r)
    (set_link (Next new) (link s (Next (of_nat a))) (set_size new (of_nat n - of_nat r) (set_link l new s))))"
  shows "updates l ({..<e} - region ((a, n) # xs)) s ((a + r, n - r) # xs) s'" "load64 (mem s') (of_nat a) = of_nat r"
proof -
  note c = at_link_Cons [OF at]
  have new: "new = of_nat (a + r)" "new + 8 = of_nat (a + r + 8)" by (simp_all add: new_def)
  have low: "Suc x < lo" if "x \<in> locw l" for x using locw_below [OF c(12,11) that] .
  let ?s1 = "set_link l new s" and ?m = "\<lambda>m. store64 (store64 m (of_nat (a + r)) (of_nat n - of_nat r)) (of_nat (a + r + 8)) (link s (Next (of_nat a)))"
  have m': "mem s' = store64 (?m (mem ?s1)) (of_nat a) (of_nat r)"
    by (simp only: s'_def malloc_done_def fst_conv mem_set new(1) word8)
  have s1: "same_on (mem ?s1) (mem s) ({..<e} - locw l)" using c(7) by (intro set_link_frame [OF c(12,11)]) simp
  have m: "same_on (mem s') (mem ?s1) ({..<e} - {a..<a + n})"
    unfolding m' using c(6,7) r by (intro same_on_trans [OF same_on_store same_on_trans [OF same_on_store same_on_store]]) auto
  have same: "same_on (mem s') (mem s) ({..<e} - {a..<a + n} - locw l)"
    by (intro same_on_trans [OF same_on_sub [OF m] same_on_sub [OF s1]]) blast+
  have "region xs \<subseteq> {..<e} - {a..<a + n} - locw l" using gaps_region [OF c(8)] c(3) low by fastforce
  then have xs: "flist (mem s') (link s (Next (of_nat a))) xs" using flist_frame [OF c(9,8)] same_on_sub [OF same] by blast
  have fl: "malloc_freelist s' = malloc_freelist ?s1" by (simp add: s'_def malloc_done_def)
  have "same_on (mem s') (mem ?s1) (locw l)" using c(3,6) low by (intro same_on_sub [OF m]) force
  then have lk: "link s' l = of_nat (a + r)" using link_frame [OF c(12,11), of s' ?s1] fl new(1) by simp
  have hb: "a + 8 \<le> a + r" "a + r + 16 \<le> 2 ^ 64" using c(6,7) r by simp_all
  have nr: "of_nat (n - r) = (of_nat n - of_nat r :: u64)" using r by (simp add: of_nat_diff)
  have w: "load64 (mem s') (of_nat (a + r)) = of_nat (n - r)" "load64 (mem s') (of_nat (a + r + 8)) = link s (Next (of_nat a))"
    "load64 (mem s') (of_nat a) = of_nat r"
    unfolding m' nr by (rule load_header [OF hb])+
  show "load64 (mem s') (of_nat a) = of_nat r" by (rule w(3))
  have "malloc_freelist s' = malloc_freelist s" if "l \<noteq> Head" using that fl by (cases l) simp_all
  moreover have "same_on (mem s') (mem s) ({..<e} - region ((a, n) # xs) - locw l)" by (rule same_on_sub [OF same]) auto
  ultimately show "updates l ({..<e} - region ((a, n) # xs)) s ((a + r, n - r) # xs) s'"
    using lk w(1,2) xs by (simp add: updates_def add.assoc)
qed

lemma take_block_result:
  assumes at: "at_link lo l s ((a, n) # xs) e" and r: "16 \<le> r" "r < 2 ^ 62" "r \<le> n"
  shows "malloc_result limit r e l s ((a, n) # xs) (take_block (of_nat r) l (of_nat a) s)"
proof -
  note c = at_link_Cons [OF at]
  have less: "of_nat n < (of_nat r + 16 :: u64) \<longleftrightarrow> n < r + 16"
    using of_nat_order(2) [of n "r + 16"] c(6,7) r(2) by simp
  show ?thesis
  proof (cases "n < r + 16")
    case True
    then have "take_block (of_nat r) l (of_nat a) s = (set_link l (link s (Next (of_nat a))) s, of_nat a + 8)"
      using less c(2) by (simp add: take_block_def)
    then show ?thesis using take_exact [OF at] True r(3) at by (simp add: malloc_result_def at_link_def)
  next
    case False
    then have "take_block (of_nat r) l (of_nat a) s = malloc_done (of_nat a) (of_nat r)
        (set_link (Next (of_nat a + of_nat r)) (link s (Next (of_nat a)))
          (set_size (of_nat a + of_nat r) (of_nat n - of_nat r) (set_link l (of_nat a + of_nat r) s)))"
      using less c(2) by (simp add: take_block_def Let_def)
    then show ?thesis using take_split [OF at r(1)] False r(3) at by (simp add: malloc_result_def at_link_def malloc_done_def)
  qed
qed

lemma grow_last_result:
  assumes at: "at_link lo l s [(a, n)] e" and lim: "e + 32 \<le> unat limit" and r: "r < 2 ^ 62" "n < r" "e = a + n"
  shows "malloc_result (unat limit) r e l s [(a, n)] (grow_last limit (of_nat r) l (of_nat a) s)"
proof -
  note c = at_link_Cons [OF at]
  have e: "malloc_end s = of_nat e" using at by (simp add: at_link_def)
  have more: "of_nat r - bsize s (of_nat a) = of_nat (r - n)" using c(2) r(2) by (simp add: of_nat_diff)
  have can: "CAN_ALLOC_P limit s (of_nat (r - n)) \<longleftrightarrow> e + 32 + (r - n) \<le> unat limit"
    using r by (intro can_alloc [OF e lim]) simp
  let ?s1 = "set_link l 0 s"
  let ?s = "set_size (of_nat a) (of_nat r) (?s1\<lparr>malloc_end := of_nat a + of_nat r\<rparr>)"
  have m: "mem ?s = store64 (mem ?s1) (of_nat a) (of_nat r)" by simp
  have s1: "same_on (mem ?s1) (mem s) ({..<e} - locw l)" using c(7) by (intro set_link_frame [OF c(12,11)]) simp
  have s2: "same_on (mem ?s) (mem ?s1) ({..<e} - {a..<a + n})" unfolding m using c(5,6,7) by (intro same_on_store) auto
  have same: "same_on (mem ?s) (mem s) ({..<e} - {a..<a + n} - locw l)"
    by (intro same_on_trans [OF same_on_sub [OF s2] same_on_sub [OF s1]]) blast+
  have "same_on (mem ?s) (mem ?s1) (locw l)"
    using c(3,6) locw_below [OF c(12,11)] by (intro same_on_sub [OF s2]) fastforce
  then have "link ?s l = 0" using link_frame [OF c(12,11), of ?s ?s1] by simp
  moreover have "malloc_freelist ?s = malloc_freelist s" if "l \<noteq> Head" using that by (cases l) simp_all
  ultimately have "updates l ({..<e} - region [(a, n)]) s [] ?s" using same by (simp add: updates_def)
  moreover have "load64 (mem ?s) (of_nat a) = of_nat r" unfolding m by (rule load64_store64)
  ultimately show ?thesis
    using can r(2,3) by (simp add: malloc_result_def grow_last_def malloc_done_def more Let_def)
qed

lemma malloc_loop_refines:
  assumes "at_link lo l s xs e" "e + 32 \<le> unat limit" "16 \<le> r" "r < 2 ^ 62"
  shows "\<exists>res. malloc_loop limit (of_nat r) s l = Some res \<and> malloc_result (unat limit) r e l s xs res"
  using assms(1)
proof (induction xs arbitrary: lo l)
  case Nil
  then have "link s l = 0" by (simp add: at_link_def)
  then show ?case using take_top_result [OF Nil assms(2,4)] by (subst malloc_loop.simps) simp
next
  case (Cons x xs)
  obtain a n where x: "x = (a, n)" by (cases x)
  note at = Cons.prems [unfolded x]
  note c = at_link_Cons [OF at]
  have nz: "(of_nat a :: u64) \<noteq> 0" using of_nat_order(4) [of a a] c(4,6,7) by simp
  have fits: "of_nat r \<le> (of_nat n :: u64) \<longleftrightarrow> r \<le> n" using of_nat_order(1) [of r n] c(6,7) assms(4) by simp
  have "link s (Next (of_nat a)) = 0 \<longleftrightarrow> xs = []" using flist_null [OF c(9,8)] c(7) by simp
  moreover have "malloc_end s = of_nat a + of_nat n \<longleftrightarrow> e = a + n"
    using at of_nat_order(3) [of e "a + n"] c(6,7) by (simp add: at_link_def)
  ultimately have step: "malloc_loop limit (of_nat r) s l =
      (if r \<le> n then Some (take_block (of_nat r) l (of_nat a) s)
       else if xs = [] \<and> e = a + n then Some (grow_last limit (of_nat r) l (of_nat a) s)
       else malloc_loop limit (of_nat r) s (Next (of_nat a)))"
    by (subst malloc_loop.simps) (simp add: c(1,2) nz fits Let_def)
  consider "r \<le> n" | "n < r" "xs = [] \<and> e = a + n" | (rest) "n < r" "\<not> (xs = [] \<and> e = a + n)" by linarith
  then show ?case
  proof cases
    case 1
    then show ?thesis using take_block_result [OF at assms(3,4)] step x by simp
  next
    case 2
    then show ?thesis using grow_last_result [OF _ assms(2,4)] at step x by simp
  next
    case rest
    then obtain res where res: "malloc_loop limit (of_nat r) s l = Some res"
      "malloc_result (unat limit) r e (Next (of_nat a)) s xs res" using Cons.IH [OF c(10)] step by auto
    have up: "updates l ({..<e} - region (x # xs)) s ((a, n) # ys) s'"
      if "updates (Next (of_nat a)) ({..<e} - region xs) s ys s'" for ys s'
    proof -
      have "{a..<a + 16} \<subseteq> {..<e} - region xs" using gaps_region [OF c(8)] c(5,6) by fastforce
      then have "updates (Next (of_nat a)) ({..<e} - region xs - {a..<a + n} \<union> {a..<a + 16}) s ys s'"
        by (intro updates_sub [OF that]) blast
      moreover have "locw l \<subseteq> {..<e} - region xs - {a..<a + n}"
        using locw_below [OF c(12,11)] gaps_region [OF c(8)] c(3,6) by fastforce
      ultimately have "updates l ({..<e} - region xs - {a..<a + n}) s ((a, n) # ys) s'"
        using c by (intro updates_rest) (simp_all add: bsize_def)
      moreover have "{..<e} - region (x # xs) = {..<e} - region xs - {a..<a + n}" using x by auto
      ultimately show ?thesis by (simp only:)
    qed
    show ?thesis
    proof (cases "malloc_abs (unat limit) r e xs")
      case None
      then show ?thesis using res rest x by (auto simp: malloc_result_def)
    next
      case (Some t)
      obtain b k e' ys where "t = ((b, k), e', ys)" by (cases t) auto
      with Some show ?thesis using res rest x up by (auto simp: malloc_result_def)
    qed
  qed
qed

subsection \<open>free\<close>

text \<open>A block put at a link whose rest of the list is \<open>xs\<close>, with its size \<open>k\<close> set.\<close>

lemma relink:
  assumes l: "loc_ok lo l" "lo \<le> b" "0 < lo" and b: "16 \<le> k" "b + k \<le> e" "e < 2 ^ 63"
    and same: "same_on (mem s2) (mem s) (S - {b..<b + 16})" and S: "S \<subseteq> {..<e}" "S \<inter> {b..<b + k} = {}" "region xs \<subseteq> S" "region xs \<inter> locw l = {}"
    and fl: "malloc_freelist s2 = malloc_freelist s" and xs: "flist (mem s) p xs" "gaps lo xs e"
    and w: "load64 (mem s2) (of_nat b) = of_nat k" "load64 (mem s2) (of_nat b + 8) = p"
  shows "updates l S s ((b, k) # xs) (set_link l (of_nat b) s2)"
proof -
  let ?s = "set_link l (of_nat b) s2"
  have lo: "lo \<le> 2 ^ 63" using l(2) b by simp
  have low: "Suc x < b" if "x \<in> locw l" for x using locw_below [OF l(1) lo that] l(2) by simp
  have s3: "same_on (mem ?s) (mem s2) ({..<e} - locw l)" using b(3) by (intro set_link_frame [OF l(1) lo]) simp
  have Sb: "S - {b..<b + 16} = S" using S(2) b(1) by fastforce
  have s4: "same_on (mem ?s) (mem s) (S - locw l)"
    using same S(1) unfolding Sb by (intro same_on_trans [OF same_on_sub [OF s3] same_on_sub [OF same]]) (auto simp: Sb)
  have "load64 (mem ?s) (of_nat c) = load64 (mem s2) (of_nat c)" if "c = b \<or> c = b + 8" for c
    using that b(1,2) by (intro same_on_load [OF s3]) (auto dest: low)
  from this [of b] this [of "b + 8"] w have "load64 (mem ?s) (of_nat b) = of_nat k" "load64 (mem ?s) (of_nat b + 8) = p"
    by (simp_all only: word8 simp_thms)
  moreover have "flist (mem ?s) p xs"
    using S(3,4) by (intro flist_frame [OF xs] same_on_sub [OF s4]) blast
  moreover have "malloc_freelist ?s = malloc_freelist s" if "l \<noteq> Head" using that fl by (cases l) simp_all
  ultimately show ?thesis using s4 by (simp add: updates_def)
qed

lemma locw_region: "loc_ok lo l \<Longrightarrow> lo \<le> 2 ^ 63 \<Longrightarrow> gaps lo xs e \<Longrightarrow> region xs \<inter> locw l = {}"
  using locw_below gaps_region by fastforce

lemma put_free_result:
  assumes at: "at_link lo l s xs e" and b: "lo \<le> b" "16 \<le> k" "b + k \<le> e" "load64 (mem s) (of_nat b) = of_nat k"
    and disj: "region xs \<inter> {b..<b + k} = {}"
  shows "updates l ({..<e} - {b..<b + k}) s ((b, k) # xs) (put_free l (of_nat b) s)"
proof -
  note d = at [unfolded at_link_def]
  let ?s = "set_link (Next (of_nat b)) (link s l) s"
  have m: "mem ?s = store64 (mem s) (of_nat (b + 8)) (link s l)" by simp
  have "load64 (mem ?s) (of_nat b) = load64 (mem s) (of_nat b)"
    unfolding m using b(2,3) d by (intro load64_store64_other) simp_all
  moreover have "same_on (mem ?s) (mem s) ({..<e} - {b..<b + k} - {b..<b + 16})" unfolding m using b(3) d by (intro same_on_store) auto
  moreover have "load64 (mem ?s) (of_nat b + 8) = link s l" unfolding m word8 by (rule load64_store64)
  ultimately show ?thesis
    unfolding put_free_def using d b disj gaps_region [of lo xs e] locw_region [of lo l xs e]
    by (intro relink [of lo l b k e ?s s _ xs "link s l"]) auto
qed

lemma join_before_result:
  assumes at: "at_link lo l s ((a, n) # xs) e" and b: "lo \<le> b" "16 \<le> k" "a = b + k" "load64 (mem s) (of_nat b) = of_nat k"
  shows "updates l ({..<e} - {b..<b + k} - {a..<a + n}) s ((b, k + n) # xs) (join_before l (of_nat a) (of_nat b) s)"
proof -
  note c = at_link_Cons [OF at]
  let ?s1 = "set_size (of_nat b) (of_nat k + of_nat n) s"
  let ?s = "set_link (Next (of_nat b)) (link ?s1 (Next (of_nat a))) ?s1"
  have m1: "mem ?s1 = store64 (mem s) (of_nat b) (of_nat (k + n))" by simp
  have "load64 (mem ?s1) (of_nat (a + 8)) = load64 (mem s) (of_nat (a + 8))"
    unfolding m1 using b c(5,6,7) by (intro load64_store64_other) simp_all
  then have nx: "link ?s1 (Next (of_nat a)) = link s (Next (of_nat a))" by (simp add: link_def)
  have m: "mem ?s = store64 (mem ?s1) (of_nat (b + 8)) (link s (Next (of_nat a)))" unfolding nx by simp
  have s1: "same_on (mem ?s1) (mem s) ({..<e} - {b..<b + 16})" unfolding m1 using b c(6,7) by (intro same_on_store) auto
  have s2: "same_on (mem ?s) (mem ?s1) ({..<e} - {b..<b + 16})" unfolding m using b c(6,7) by (intro same_on_store) auto
  have same: "same_on (mem ?s) (mem s) ({..<e} - {b..<b + 16})" using same_on_trans [OF s2 s1] .
  have "load64 (mem ?s) (of_nat b) = load64 (mem ?s1) (of_nat b)"
    unfolding m using b(3) c(6,7) by (intro load64_store64_other) simp_all
  then have w: "load64 (mem ?s) (of_nat b) = of_nat (k + n)" unfolding m1 by (simp only: load64_store64)
  have "load64 (mem ?s) (of_nat b + 8) = link s (Next (of_nat a))" unfolding m word8 by (rule load64_store64)
  moreover have "bsize s (of_nat b) = of_nat k" using b(4) by (simp add: bsize_def)
  moreover have "region xs \<subseteq> {..<e} - {b..<b + k} - {a..<a + n}" using gaps_region [OF c(8)] b(3) by fastforce
  moreover have g: "gaps lo xs e" using gaps_lower [OF c(8)] c(3) by simp
  moreover have "same_on (mem ?s) (mem s) ({..<e} - {b..<b + k} - {a..<a + n} - {b..<b + 16})"
    by (rule same_on_sub [OF same]) blast
  moreover have "({..<e} - {b..<b + k} - {a..<a + n}) \<inter> {b..<b + (k + n)} = {}" using b(3) by auto
  ultimately have "updates l ({..<e} - {b..<b + k} - {a..<a + n}) s ((b, k + n) # xs) (set_link l (of_nat b) ?s)"
    using b c(3,5,6) w at locw_region [OF c(12,11) g]
    by (intro relink [OF c(12) b(1) _ _ _ c(7) _ _ _ _ _ _ c(9)]) (auto simp: at_link_def simp del: mem_set)
  then show ?thesis using c(2) b(4) by (simp only: join_before_def Let_def bsize_def)
qed

lemma rehead:
  assumes "loc_ok lo l" "lo \<le> a" "a + 16 \<le> e" "e < 2 ^ 63" "link s l = of_nat a" "malloc_freelist s' = malloc_freelist s"
    and same: "same_on (mem s') (mem s) ({..<e} - {a..<a + 16})" and S: "S \<subseteq> {..<e} - {a..<a + 16}"
    and w: "load64 (mem s') (of_nat a) = of_nat n" "flist (mem s') (load64 (mem s') (of_nat a + 8)) ys"
  shows "updates l S s ((a, n) # ys) s'"
proof -
  have lo: "lo \<le> 2 ^ 63" using assms(2-4) by simp
  have "locw l \<subseteq> {..<e} - {a..<a + 16}" using locw_below [OF assms(1) lo] assms(2,3) by fastforce
  then have "link s' l = link s l" using assms(6) by (intro link_frame [OF assms(1) lo] same_on_sub [OF same])
  moreover have "same_on (mem s') (mem s) (S - locw l)" using S by (intro same_on_sub [OF same]) blast
  ultimately show ?thesis using assms(5,6) w by (simp add: updates_def)
qed

text \<open>
  A block merged into the free block before it: alone, and with the block behind both.
\<close>

lemma join_after_sized:
  assumes at: "at_link lo l s ((a, n) # xs) e" and b: "16 \<le> k" "b = a + n" "b + k \<le> e" "load64 (mem s) (of_nat b) = of_nat k"
  defines "s1 \<equiv> set_size (of_nat a) (of_nat n + of_nat k) s"
  shows "same_on (mem s1) (mem s) ({..<e} - {a..<a + 8})" "load64 (mem s1) (of_nat a) = of_nat (n + k)"
    "join_after (of_nat a) (of_nat b) s =
      (let nxt = link s (Next (of_nat a))
       in if nxt \<noteq> 0 \<and> of_nat b + of_nat k = nxt
          then let s = set_size (of_nat a) (of_nat (n + k) + bsize s1 nxt) s1 in set_link (Next (of_nat a)) (link s (Next nxt)) s
          else s1)"
proof -
  note c = at_link_Cons [OF at]
  have m1: "mem s1 = store64 (mem s) (of_nat a) (of_nat (n + k))" by (simp add: s1_def)
  show same: "same_on (mem s1) (mem s) ({..<e} - {a..<a + 8})" unfolding m1 using c(6,7) by (intro same_on_store) auto
  show w1: "load64 (mem s1) (of_nat a) = of_nat (n + k)" unfolding m1 by (rule load64_store64)
  have other: "load64 (mem s1) (of_nat q) = load64 (mem s) (of_nat q)" if "a + 8 \<le> q" "q + 8 \<le> e" for q
    using that by (intro same_on_load [OF same]) auto
  have "link s1 (Next (of_nat a)) = link s (Next (of_nat a))" using other [of "a + 8"] c(5,6) by (simp add: link_def)
  moreover have "bsize s1 (of_nat b) = of_nat k" using other [of b] b c(5) by (simp add: bsize_def)
  moreover have "bsize s (of_nat b) = of_nat k" using b(4) by (simp add: bsize_def)
  moreover have "bsize s1 (of_nat a) = of_nat (n + k)" using w1 by (simp add: bsize_def)
  ultimately show "join_after (of_nat a) (of_nat b) s =
      (let nxt = link s (Next (of_nat a))
       in if nxt \<noteq> 0 \<and> of_nat b + of_nat k = nxt
          then let s = set_size (of_nat a) (of_nat (n + k) + bsize s1 nxt) s1 in set_link (Next (of_nat a)) (link s (Next nxt)) s
          else s1)"
    using c(2) unfolding join_after_def Let_def s1_def by simp
qed

lemma join_after_alone:
  assumes at: "at_link lo l s ((a, n) # xs) e" and b: "16 \<le> k" "b = a + n" "b + k \<le> e" "load64 (mem s) (of_nat b) = of_nat k"
    and alone: "\<nexists>n' ys. xs = (b + k, n') # ys"
  shows "updates l ({..<e} - region ((a, n) # xs)) s ((a, n + k) # xs) (join_after (of_nat a) (of_nat b) s)"
proof -
  note c = at_link_Cons [OF at] and j = join_after_sized [OF at b]
  let ?s1 = "set_size (of_nat a) (of_nat n + of_nat k) s"
  have "of_nat b + of_nat k \<noteq> link s (Next (of_nat a))" if "link s (Next (of_nat a)) \<noteq> 0"
  proof -
    have "xs \<noteq> []" using that c(9) by auto
    then obtain a' n' ys where xs: "xs = (a', n') # ys" by (cases xs) auto
    have "a' + n' \<le> e" using gaps_le [of "Suc (a' + n')" ys e] c(8) xs by simp
    moreover have "a' \<noteq> b + k" using alone xs by blast
    ultimately have "(of_nat a' :: u64) \<noteq> of_nat (b + k)" using of_nat_order(3) [of a' "b + k"] b(3) c(7) by simp
    then show ?thesis using c(9) xs by simp
  qed
  then have "join_after (of_nat a) (of_nat b) s = ?s1" unfolding j(3) by (auto simp: Let_def)
  moreover have "load64 (mem ?s1) (of_nat (a + 8)) = load64 (mem s) (of_nat (a + 8))"
    using c(5,6) by (intro same_on_load [OF j(1)]) auto
  moreover have "flist (mem ?s1) (link s (Next (of_nat a))) xs"
    using gaps_region [OF c(8)] c(5) by (intro flist_frame [OF c(9,8)] same_on_sub [OF j(1)]) fastforce
  moreover have "same_on (mem ?s1) (mem s) ({..<e} - {a..<a + 16})" by (rule same_on_sub [OF j(1)]) auto
  moreover have "{..<e} - region ((a, n) # xs) \<subseteq> {..<e} - {a..<a + 16}" using c(5) by auto
  ultimately show ?thesis using j(2) c(5,6)
    by (simp only:) (intro rehead [OF c(12,3) _ c(7,1)], simp_all add: link_def del: mem_set)
qed

lemma join_after_both:
  assumes at: "at_link lo l s ((a, n) # (b + k, n') # ys) e" and b: "16 \<le> k" "b = a + n" "b + k \<le> e" "load64 (mem s) (of_nat b) = of_nat k"
  shows "updates l ({..<e} - region ((a, n) # (b + k, n') # ys)) s ((a, n + k + n') # ys) (join_after (of_nat a) (of_nat b) s)"
proof -
  note c = at_link_Cons [OF at] and c' = at_link_Cons [OF at_link_Cons(10) [OF at]] and j = join_after_sized [OF at b]
  let ?s1 = "set_size (of_nat a) (of_nat n + of_nat k) s"
  let ?s2 = "set_size (of_nat a) (of_nat (n + k + n')) ?s1"
  let ?v = "link ?s2 (Next (of_nat (b + k)))"
  let ?s3 = "set_link (Next (of_nat a)) ?v ?s2"
  have nz: "(of_nat (b + k) :: u64) \<noteq> 0" using of_nat_order(4) [of "b + k" 0] b c(7) by simp
  have m2: "mem ?s2 = store64 (mem ?s1) (of_nat a) (of_nat (n + k + n'))" by simp
  have m3: "mem ?s3 = store64 (mem ?s2) (of_nat (a + 8)) ?v" by simp
  have s2: "same_on (mem ?s2) (mem ?s1) ({..<e} - {a..<a + 8})" unfolding m2 using c(6,7) by (intro same_on_store) auto
  have s3: "same_on (mem ?s3) (mem ?s2) ({..<e} - {a..<a + 16})" unfolding m3 using c(5,6,7) by (intro same_on_store) auto
  have s12: "same_on (mem ?s2) (mem s) ({..<e} - {a..<a + 8})" using same_on_trans [OF s2 j(1)] .
  have same: "same_on (mem ?s3) (mem s) ({..<e} - {a..<a + 16})" by (rule same_on_trans [OF s3 same_on_sub [OF s12]]) auto
  have "load64 (mem ?s1) (of_nat (b + k)) = load64 (mem s) (of_nat (b + k))"
    using c'(5,6) b(2) c(5) by (intro same_on_load [OF j(1)]) auto
  then have "bsize ?s1 (of_nat (b + k)) = of_nat n'" using c'(2) by (simp add: bsize_def)
  then have eq: "join_after (of_nat a) (of_nat b) s = ?s3" unfolding j(3) c'(1) using nz by (simp add: Let_def add.assoc)
  have "load64 (mem ?s2) (of_nat (b + k + 8)) = load64 (mem s) (of_nat (b + k + 8))"
    using c'(5,6) b(2) c(5) by (intro same_on_load [OF s12]) auto
  then have v: "?v = link s (Next (of_nat (b + k)))" by (simp add: link_def add.assoc)
  have "flist (mem s) ?v ys" using c'(9) v by (simp only:)
  moreover have "region ys \<subseteq> {..<e} - {a..<a + 16}" using gaps_region [OF c'(8)] c'(5) b(1,2) c(5) by fastforce
  ultimately have "flist (mem ?s3) ?v ys" using flist_frame [OF _ c'(8) same_on_sub [OF same]] by blast
  moreover have "load64 (mem ?s3) (of_nat a + 8) = ?v" unfolding m3 word8 by (rule load64_store64)
  moreover have "load64 (mem ?s3) (of_nat a) = load64 (mem ?s2) (of_nat a)" unfolding m3 using c(6,7) by (intro load64_store64_other) simp_all
  moreover have "load64 (mem ?s2) (of_nat a) = of_nat (n + k + n')" unfolding m2 by (rule load64_store64)
  moreover have "{..<e} - region ((a, n) # (b + k, n') # ys) \<subseteq> {..<e} - {a..<a + 16}" using c(5) by auto
  ultimately show ?thesis using c(5,6) unfolding eq
    by (intro rehead [OF c(12,3) _ c(7,1) _ same]) (simp_all del: mem_set)
qed

lemma join_after_result:
  assumes "at_link lo l s ((a, n) # xs) e" "16 \<le> k" "b = a + n" "b + k \<le> e" "load64 (mem s) (of_nat b) = of_nat k"
  shows "updates l ({..<e} - region ((a, n) # xs)) s (free_abs b k ((a, n) # xs)) (join_after (of_nat a) (of_nat b) s)"
proof (cases "\<exists>n' ys. xs = (b + k, n') # ys")
  case True
  then obtain n' ys where xs: "xs = (b + k, n') # ys" by blast
  then have "free_abs b k ((a, n) # xs) = (a, n + k + n') # ys" using assms(3) by simp
  then show ?thesis using join_after_both [of lo l s a n b k n' ys e] assms xs by simp
next
  case False
  then have "free_abs b k ((a, n) # xs) = (a, n + k) # xs" using assms(3) by (auto split: list.splits)
  then show ?thesis using join_after_alone [OF assms] False by simp
qed

lemma free_loop_refines:
  assumes "at_link lo l s xs e" "lo \<le> b" "16 \<le> k" "b + k \<le> e" "load64 (mem s) (of_nat b) = of_nat k"
    and "region xs \<inter> {b..<b + k} = {}"
  shows "\<exists>s'. free_loop (of_nat b) s l = Some s' \<and> malloc_end s' = malloc_end s \<and>
    updates l ({..<e} - region xs - {b..<b + k}) s (free_abs b k xs) s'"
  using assms
proof (induction xs arbitrary: lo l)
  case Nil
  then have "link s l = 0" by (simp add: at_link_def)
  then show ?case using put_free_result [OF Nil] by (subst free_loop.simps) (simp add: put_free_def)
next
  case (Cons x xs)
  obtain a n where x: "x = (a, n)" by (cases x)
  note at = Cons.prems(1) [unfolded x]
  note c = at_link_Cons [OF at] and b = Cons.prems(2-5)
  have disj: "region xs \<inter> {b..<b + k} = {}" "{a..<a + n} \<inter> {b..<b + k} = {}" using Cons.prems(6) unfolding x region_simps by blast+
  have apart: "b + k \<le> a \<or> a + n \<le> b"
  proof (rule ccontr)
    assume "\<not> ?thesis"
    then have "max a b \<in> {a..<a + n} \<inter> {b..<b + k}" using c(5) b(2) by auto
    with disj(2) show False by blast
  qed
  have nz: "(of_nat a :: u64) \<noteq> 0" using of_nat_order(4) [of a a] c(4,6,7) by simp
  have "of_nat a + of_nat n = (of_nat b :: u64) \<longleftrightarrow> a + n = b" using of_nat_order(3) [of "a + n" b] b c(6,7) by simp
  moreover have "of_nat a = (of_nat b + of_nat k :: u64) \<longleftrightarrow> a = b + k" using of_nat_order(3) [of a "b + k"] b c(6,7) by simp
  moreover have "(of_nat b :: u64) < of_nat a \<longleftrightarrow> b < a" using of_nat_order(2) [of b a] b c(6,7) by simp
  moreover have "bsize s (of_nat b) = of_nat k" using b(4) by (simp add: bsize_def)
  ultimately have step: "free_loop (of_nat b) s l =
      (if a + n = b then Some (join_after (of_nat a) (of_nat b) s)
       else if a = b + k then Some (join_before l (of_nat a) (of_nat b) s)
       else if b < a then Some (put_free l (of_nat b) s)
       else free_loop (of_nat b) s (Next (of_nat a)))"
    by (subst free_loop.simps) (simp add: c(1,2) nz Let_def)
  consider (after) "a + n = b" | (before) "a = b + k" | (less) "b + k < a" | (rest) "a + n < b" using apart by linarith
  then show ?case
  proof cases
    case after
    have "updates l ({..<e} - region (x # xs) - {b..<b + k}) s (free_abs b k (x # xs)) (join_after (of_nat a) (of_nat b) s)"
      using join_after_result [OF at b(2) after [symmetric] b(3,4)] x by (blast intro: updates_sub)
    moreover have "malloc_end (join_after (of_nat a) (of_nat b) s) = malloc_end s" by (simp add: join_after_def Let_def)
    ultimately show ?thesis using step after by simp
  next
    case before
    have "updates l ({..<e} - region (x # xs) - {b..<b + k}) s ((b, k + n) # xs) (join_before l (of_nat a) (of_nat b) s)"
      using join_before_result [OF at b(1,2) before b(4)] x by (auto intro: updates_sub)
    moreover have "malloc_end (join_before l (of_nat a) (of_nat b) s) = malloc_end s" by (simp add: join_before_def Let_def)
    ultimately show ?thesis using step before x b(2) c(5) by simp
  next
    case less
    have "updates l ({..<e} - region (x # xs) - {b..<b + k}) s ((b, k) # x # xs) (put_free l (of_nat b) s)"
      using put_free_result [OF Cons.prems(1-5) Cons.prems(6)] by (auto intro: updates_sub)
    then show ?thesis using step less x b(2) c(5) by (simp add: put_free_def)
  next
    case rest
    obtain s' where s': "free_loop (of_nat b) s (Next (of_nat a)) = Some s'" "malloc_end s' = malloc_end s"
      "updates (Next (of_nat a)) ({..<e} - region xs - {b..<b + k}) s (free_abs b k xs) s'"
      using Cons.IH [OF c(10) _ b(2-4) disj(1)] rest by auto
    have "{a..<a + 16} \<subseteq> {..<e} - region xs - {b..<b + k}" using gaps_region [OF c(8)] c(5,6) rest by fastforce
    then have "updates (Next (of_nat a)) ({..<e} - region xs - {b..<b + k} - {a..<a + n} \<union> {a..<a + 16}) s (free_abs b k xs) s'"
      by (intro updates_sub [OF s'(3)]) blast
    moreover have "locw l \<subseteq> {..<e} - region xs - {b..<b + k} - {a..<a + n}"
      using locw_below [OF c(12,11)] gaps_region [OF c(8)] c(3,6) rest by fastforce
    ultimately have "updates l ({..<e} - region xs - {b..<b + k} - {a..<a + n}) s ((a, n) # free_abs b k xs) s'"
      using c by (intro updates_rest) (simp_all add: bsize_def)
    moreover have "{..<e} - region (x # xs) - {b..<b + k} = {..<e} - region xs - {b..<b + k} - {a..<a + n}" using x by auto
    ultimately show ?thesis using s' step rest x b(2) by simp
  qed
qed

subsection \<open>The heap\<close>

text \<open>
  The heap from \<open>st\<close> to its end is tiled by the free blocks \<open>F\<close> and the allocated blocks
  \<open>A\<close>, and every allocated block has its size in its first word.
\<close>

definition heap_inv :: "nat \<Rightarrow> heap \<Rightarrow> block list \<Rightarrow> block set \<Rightarrow> bool" where
  "heap_inv st s F A \<longleftrightarrow>
     at_link st Head s F (unat (malloc_end s)) \<and> st \<le> unat (malloc_end s) \<and>
     (\<forall>x\<in>A. 16 \<le> snd x \<and> load64 (mem s) (of_nat (fst x)) = of_nat (snd x)) \<and>
     (\<forall>x\<in>A. \<forall>y\<in>A. x \<noteq> y \<longrightarrow> bytes x \<inter> bytes y = {}) \<and>
     region F \<inter> \<Union> (bytes ` A) = {} \<and> region F \<union> \<Union> (bytes ` A) = {st..<unat (malloc_end s)}"

lemma heap_inv_bytes:
  assumes "heap_inv st s F A" "x \<in> A"
  shows "bytes x \<subseteq> {..<unat (malloc_end s)} - region F" "{fst x..<fst x + 8} \<subseteq> bytes x" "bytes x \<noteq> {}"
    "fst x + snd x \<le> unat (malloc_end s)" "st \<le> fst x"
proof -
  have "bytes x \<subseteq> \<Union> (bytes ` A)" using assms(2) by blast
  then show sub: "bytes x \<subseteq> {..<unat (malloc_end s)} - region F" using assms(1) unfolding heap_inv_def by fastforce
  have k: "16 \<le> snd x" using assms by (simp add: heap_inv_def)
  then show "{fst x..<fst x + 8} \<subseteq> bytes x" "bytes x \<noteq> {}" by (auto simp: bytes_def)
  have "fst x \<in> bytes x" "fst x + snd x - 1 \<in> bytes x" using k by (auto simp: bytes_def)
  then have "fst x \<in> {st..<unat (malloc_end s)}" "fst x + snd x - 1 \<in> {st..<unat (malloc_end s)}"
    using assms unfolding heap_inv_def by blast+
  then show "fst x + snd x \<le> unat (malloc_end s)" "st \<le> fst x" using k by auto
qed

lemma REAL_SIZE_bounds:
  assumes "unat sz \<le> 2 ^ 61"
  shows "16 \<le> unat (REAL_SIZE sz)" "unat (REAL_SIZE sz) < 2 ^ 62" "unat sz + 8 \<le> unat (REAL_SIZE sz)"
proof -
  have a: "unat (M_ALIGN sz 8) \<le> 7" using unat_and_le [of "- sz" 7] by (simp add: M_ALIGN_def)
  have u: "unat (sz + 8 + M_ALIGN sz 8) = unat sz + 8 + unat (M_ALIGN sz 8)"
    using assms a by (simp add: unat_word_ariths)
  show "16 \<le> unat (REAL_SIZE sz)" "unat (REAL_SIZE sz) < 2 ^ 62" "unat sz + 8 \<le> unat (REAL_SIZE sz)"
    using assms a u by (auto simp: REAL_SIZE_def word_less_nat_alt)
qed

text \<open>An allocated block keeps its header where its bytes are untouched.\<close>

lemma kept_blocks:
  assumes "heap_inv st s F A" "x \<in> A" "same_on (mem s') (mem s) (bytes x)"
  shows "load64 (mem s') (of_nat (fst x)) = of_nat (snd x)"
proof -
  have "load64 (mem s') (of_nat (fst x)) = load64 (mem s) (of_nat (fst x))"
    using heap_inv_bytes(2) [OF assms(1,2)] by (rule same_on_load [OF assms(3)])
  then show ?thesis using assms(1,2) by (simp add: heap_inv_def)
qed

lemma malloc_keeps_inv:
  assumes inv: "heap_inv st s F A" and r: "16 \<le> r" and lim: "limit < 2 ^ 63"
    and abs: "malloc_abs limit r (unat (malloc_end s)) F = Some ((b, k), e', ys)"
    and s': "malloc_end s' = of_nat e'" "load64 (mem s') (of_nat b) = of_nat k"
      "updates Head ({..<unat (malloc_end s)} - region F) s ys s'"
  shows "heap_inv st s' ys (insert (b, k) A)" "(b, k) \<notin> A" "\<forall>x\<in>A. same_on (mem s') (mem s) (bytes x)"
proof -
  let ?e = "unat (malloc_end s)"
  have at: "at_link st Head s F ?e" using inv by (simp add: heap_inv_def)
  have g: "gaps st F ?e" "?e < 2 ^ 63" "0 < st" using at by (simp_all add: at_link_def)
  note m = malloc_abs_gaps [OF g(1) r abs]
  have e': "e' < 2 ^ 63" using m g(2) lim by (cases "?e < e'") auto
  then have ue: "unat (malloc_end s') = e'" using s'(1) by (simp add: unat_of_nat_small)
  show same: "\<forall>x\<in>A. same_on (mem s') (mem s) (bytes x)"
    using s'(3) heap_inv_bytes(1) [OF inv] by (auto simp: updates_def intro: same_on_sub)
  have sep: "bytes (b, k) \<inter> bytes x = {}" if "x \<in> A" for x
  proof -
    have "bytes (b, k) \<subseteq> region F \<union> {?e..<e'}" using m by (auto simp: bytes_def)
    then show ?thesis using heap_inv_bytes(1) [OF inv that] by fastforce
  qed
  then show new: "(b, k) \<notin> A" using heap_inv_bytes(3) [OF inv] by blast
  have un: "region F \<union> \<Union> (bytes ` A) = {st..<?e}" "region F \<inter> \<Union> (bytes ` A) = {}" "st \<le> ?e"
    using inv by (simp_all add: heap_inv_def)
  have "region ys \<union> \<Union> (bytes ` insert (b, k) A) = ({b..<b + k} \<union> region ys) \<union> \<Union> (bytes ` A)" by (auto simp: bytes_def)
  also have "\<dots> = {st..<?e} \<union> {?e..<e'}" using m un(1) by blast
  also have "\<dots> = {st..<e'}" using un(3) m by (simp add: ivl_disj_un)
  finally have tile: "region ys \<union> \<Union> (bytes ` insert (b, k) A) = {st..<e'}" .
  have "region ys \<inter> \<Union> (bytes ` A) = {}"
  proof -
    have "region ys \<subseteq> region F \<union> {?e..<e'}" using m by blast
    moreover have "\<Union> (bytes ` A) \<subseteq> {st..<?e}" using un(1) by blast
    ultimately show ?thesis using un(2) by fastforce
  qed
  then have disj: "region ys \<inter> \<Union> (bytes ` insert (b, k) A) = {}" using m by (auto simp: bytes_def)
  have "at_link st Head s' ys e'" using m e' g(3) s'(1,3) by (simp add: at_link_def updates_def)
  moreover have "16 \<le> snd x \<and> load64 (mem s') (of_nat (fst x)) = of_nat (snd x)" if "x \<in> insert (b, k) A" for x
    using that m r s'(2) kept_blocks [OF inv _ same [rule_format]] inv by (auto simp: heap_inv_def)
  moreover have "bytes x \<inter> bytes y = {}" if "x \<in> insert (b, k) A" "y \<in> insert (b, k) A" "x \<noteq> y" for x y
    using that sep inv unfolding heap_inv_def by blast
  ultimately show "heap_inv st s' ys (insert (b, k) A)"
    using tile disj un(3) m unfolding heap_inv_def ue by auto
qed

lemma malloc_runs:
  assumes inv: "heap_inv st s F A" and sz: "unat sz \<le> 2 ^ 61" and lim: "unat (malloc_end s) + 32 \<le> unat limit" "unat limit < 2 ^ 63"
  shows "\<exists>s' p. malloc limit sz s = Some (s', p) \<and>
    (p = 0 \<and> s' = s \<and> (\<forall>x\<in>set F. snd x < unat (REAL_SIZE sz)) \<and>
       unat limit < unat (malloc_end s) + 32 + unat (REAL_SIZE sz) \<or>
     (\<exists>b k F'. p = of_nat (b + 8) \<and> unat sz + 8 \<le> k \<and> (b, k) \<notin> A \<and> heap_inv st s' F' (insert (b, k) A) \<and>
       unat (malloc_end s') + 32 \<le> unat limit \<and> (\<forall>x\<in>A. same_on (mem s') (mem s) (bytes x))))"
proof -
  let ?e = "unat (malloc_end s)" and ?r = "unat (REAL_SIZE sz)"
  note r = REAL_SIZE_bounds [OF sz]
  have at: "at_link st Head s F ?e" using inv by (simp add: heap_inv_def)
  have g: "gaps st F ?e" using at by (simp add: at_link_def)
  obtain s' p where run: "malloc limit sz s = Some (s', p)" and res: "malloc_result (unat limit) ?r ?e Head s F (s', p)"
    using malloc_loop_refines [OF at lim(1) r(1,2)] by (auto simp: malloc_def)
  show ?thesis
  proof (cases "malloc_abs (unat limit) ?r ?e F")
    case None
    then show ?thesis using run res malloc_abs_none [OF g None] by (auto simp: malloc_result_def)
  next
    case (Some t)
    obtain b k e' ys where t: "t = ((b, k), e', ys)" by (cases t) auto
    then have s': "p = of_nat (b + 8)" "malloc_end s' = of_nat e'" "load64 (mem s') (of_nat b) = of_nat k"
      "updates Head ({..<?e} - region F) s ys s'" using res Some by (simp_all add: malloc_result_def)
    note keep = malloc_keeps_inv [OF inv r(1) lim(2) Some [unfolded t] s'(2-4)]
    note m = malloc_abs_gaps [OF g r(1) Some [unfolded t]]
    then have "unat sz + 8 \<le> k" "e' + 32 \<le> unat limit" using r(3) lim(1) by auto
    moreover from this lim(2) have "unat (malloc_end s') = e'" using s'(2) by (simp add: unat_of_nat_small)
    ultimately show ?thesis using run s'(1) keep by force
  qed
qed

lemma free_keeps_inv:
  assumes inv: "heap_inv st s F A" and b: "(b, k) \<in> A"
    and s': "malloc_end s' = malloc_end s" "updates Head ({..<unat (malloc_end s)} - region F - bytes (b, k)) s F' s'"
    and F': "gaps st F' (unat (malloc_end s))" "region F' = region F \<union> bytes (b, k)"
  shows "heap_inv st s' F' (A - {(b, k)})" "\<forall>x\<in>A - {(b, k)}. same_on (mem s') (mem s) (bytes x)"
proof -
  let ?e = "unat (malloc_end s)" and ?A = "A - {(b, k)}"
  have sep: "bytes x \<inter> bytes (b, k) = {}" if "x \<in> ?A" for x using inv b that unfolding heap_inv_def by blast
  show same: "\<forall>x\<in>?A. same_on (mem s') (mem s) (bytes x)"
  proof
    fix x assume x: "x \<in> ?A"
    then have "bytes x \<subseteq> {..<?e} - region F" using heap_inv_bytes(1) [OF inv, of x] by blast
    then have "bytes x \<subseteq> {..<?e} - region F - bytes (b, k)" using sep [OF x] by blast
    moreover have "same_on (mem s') (mem s) ({..<?e} - region F - bytes (b, k))" using s'(2) by (simp add: updates_def)
    ultimately show "same_on (mem s') (mem s) (bytes x)" using same_on_sub by blast
  qed
  have "at_link st Head s' F' ?e" using F'(1) s' inv by (simp add: heap_inv_def at_link_def updates_def)
  moreover have "16 \<le> snd x \<and> load64 (mem s') (of_nat (fst x)) = of_nat (snd x)" if "x \<in> ?A" for x
    using that kept_blocks [OF inv _ same [rule_format, OF that]] inv by (simp add: heap_inv_def)
  moreover have U: "\<Union> (bytes ` A) = bytes (b, k) \<union> \<Union> (bytes ` ?A)" "bytes (b, k) \<inter> \<Union> (bytes ` ?A) = {}"
    using b sep by blast+
  have R: "region F \<inter> (bytes (b, k) \<union> \<Union> (bytes ` ?A)) = {}" "region F \<union> (bytes (b, k) \<union> \<Union> (bytes ` ?A)) = {st..<?e}"
    using inv unfolding U(1) [symmetric] by (simp_all add: heap_inv_def)
  then have "region F' \<inter> \<Union> (bytes ` ?A) = {}" unfolding F'(2) using U(2) by blast
  moreover have "region F' \<union> \<Union> (bytes ` ?A) = {st..<?e}" unfolding F'(2) using R(2) by (simp only: Un_assoc)
  moreover have "\<forall>x\<in>?A. \<forall>y\<in>?A. x \<noteq> y \<longrightarrow> bytes x \<inter> bytes y = {}" "st \<le> ?e" using inv by (simp_all add: heap_inv_def)
  ultimately show "heap_inv st s' F' ?A" unfolding heap_inv_def s'(1) by (intro conjI ballI) simp_all
qed

lemma free_runs:
  assumes inv: "heap_inv st s F A" and b: "(b, k) \<in> A"
  shows "\<exists>s'. free (of_nat (b + 8)) s = Some s' \<and> malloc_end s' = malloc_end s \<and> heap_inv st s' (free_abs b k F) (A - {(b, k)}) \<and>
    (\<forall>x\<in>A - {(b, k)}. same_on (mem s') (mem s) (bytes x))"
proof -
  let ?e = "unat (malloc_end s)"
  have at: "at_link st Head s F ?e" using inv by (simp add: heap_inv_def)
  have g: "gaps st F ?e" "?e < 2 ^ 63" using at by (simp_all add: at_link_def)
  have bb: "b + k \<le> ?e" "st \<le> b" using heap_inv_bytes(4,5) [OF inv b] by simp_all
  have "\<forall>x\<in>A. 16 \<le> snd x \<and> load64 (mem s) (of_nat (fst x)) = of_nat (snd x)"
    using inv unfolding heap_inv_def by (elim conjE)
  from bspec [OF this b]
  have "16 \<le> snd (b, k)" "load64 (mem s) (of_nat (fst (b, k))) = of_nat (snd (b, k))" by blast+
  then have k: "16 \<le> k" "load64 (mem s) (of_nat b) = of_nat k" by simp_all
  have B: "bytes (b, k) = {b..<b + k}" by (simp add: bytes_def)
  have disj: "region F \<inter> {b..<b + k} = {}" using heap_inv_bytes(1) [OF inv b] unfolding B by blast
  obtain s' where s': "free_loop (of_nat b) s Head = Some s'" "malloc_end s' = malloc_end s"
    "updates Head ({..<?e} - region F - {b..<b + k}) s (free_abs b k F) s'"
    using free_loop_refines [OF at bb(2) k(1) bb(1) k(2) disj] by blast
  have "(of_nat (b + 8) :: u64) \<noteq> 0" using of_nat_order(4) [of "b + 8" 0] bb(1) g(2) by simp
  then have run: "free (of_nat (b + 8)) s = Some s'" using s'(1) by (simp add: free_def)
  have "{b..<b + k} \<inter> region F = {}" using disj by blast
  from free_abs_gaps [OF g(1) k(1) bb(2,1) this]
  have "gaps st (free_abs b k F) ?e" "region (free_abs b k F) = region F \<union> bytes (b, k)" unfolding B by blast+
  from free_keeps_inv [OF inv b s'(2) _ this] s'(2,3) run show ?thesis unfolding B by blast
qed

section \<open>The interface\<close>

text \<open>
  What a client of an allocator relies on: the blocks it holds do not overlap, a request
  that is not refused adds a block and leaves the others alone, a release takes its
  block back, and the client may write into the payload of a block it holds.
\<close>

locale allocator =
  fixes inv :: "'s \<Rightarrow> block set \<Rightarrow> bool"
    and memory_of :: "'s \<Rightarrow> memory"
    and put_memory :: "memory \<Rightarrow> 's \<Rightarrow> 's"
    and alloc :: "u64 \<Rightarrow> 's \<Rightarrow> ('s \<times> u64) option"
    and release :: "u64 \<Rightarrow> 's \<Rightarrow> 's option"
  assumes block_apart: "inv s A \<Longrightarrow> x \<in> A \<Longrightarrow> y \<in> A \<Longrightarrow> x \<noteq> y \<Longrightarrow> bytes x \<inter> bytes y = {}"
    and block_range: "inv s A \<Longrightarrow> x \<in> A \<Longrightarrow> fst x + snd x < 2 ^ 63"
    and alloc_returns: "inv s A \<Longrightarrow> unat sz \<le> 2 ^ 61 \<Longrightarrow> \<exists>s' p. alloc sz s = Some (s', p)"
    and alloc_block: "inv s A \<Longrightarrow> unat sz \<le> 2 ^ 61 \<Longrightarrow> alloc sz s = Some (s', p) \<Longrightarrow> p \<noteq> 0 \<Longrightarrow>
      \<exists>b k. p = of_nat (b + 8) \<and> unat sz + 8 \<le> k \<and> (b, k) \<notin> A \<and> inv s' (insert (b, k) A) \<and>
        (\<forall>x\<in>A. same_on (memory_of s') (memory_of s) (bytes x))"
    and alloc_refused: "inv s A \<Longrightarrow> unat sz \<le> 2 ^ 61 \<Longrightarrow> alloc sz s = Some (s', 0) \<Longrightarrow> s' = s"
    and release_block: "inv s A \<Longrightarrow> (b, k) \<in> A \<Longrightarrow>
      \<exists>s'. release (of_nat (b + 8)) s = Some s' \<and> inv s' (A - {(b, k)}) \<and>
        (\<forall>x\<in>A - {(b, k)}. same_on (memory_of s') (memory_of s) (bytes x))"
    and put_block: "inv s A \<Longrightarrow> (b, k) \<in> A \<Longrightarrow> same_on m (memory_of s) ({..<2 ^ 64} - {b + 8..<b + k}) \<Longrightarrow>
      inv (put_memory m s) A"
    and put_memory_of: "memory_of (put_memory m s) = m"
begin

text \<open>A block taken and given back leaves the other blocks as they were.\<close>

lemma alloc_release:
  assumes "inv s A" "unat sz \<le> 2 ^ 61" "alloc sz s = Some (s', p)" "p \<noteq> 0"
  shows "\<exists>s''. release p s' = Some s'' \<and> inv s'' A \<and> (\<forall>x\<in>A. same_on (memory_of s'') (memory_of s) (bytes x))"
proof -
  obtain b k where b: "p = of_nat (b + 8)" "(b, k) \<notin> A" "inv s' (insert (b, k) A)" "\<forall>x\<in>A. same_on (memory_of s') (memory_of s) (bytes x)"
    using alloc_block [OF assms] by blast
  obtain s'' where s'': "release p s' = Some s''" "inv s'' (insert (b, k) A - {(b, k)})"
    "\<forall>x\<in>insert (b, k) A - {(b, k)}. same_on (memory_of s'') (memory_of s') (bytes x)"
    using release_block [OF b(3), of b k] b(1) by auto
  have "insert (b, k) A - {(b, k)} = A" using b(2) by blast
  then show ?thesis using s'' b(4) same_on_trans by (metis (no_types, lifting))
qed

text \<open>A block taken and filled with a byte.\<close>

lemma alloc_fill:
  assumes "inv s A" "unat sz \<le> 2 ^ 61" "alloc sz s = Some (s', p)" "p \<noteq> 0"
  shows "\<exists>b k m. p = of_nat (b + 8) \<and> unat sz + 8 \<le> k \<and> (b, k) \<notin> A \<and> memset (memory_of s') p c sz = Some (p, m) \<and>
    inv (put_memory m s') (insert (b, k) A) \<and> (\<forall>i<unat sz. m (p + of_nat i) = ucast c) \<and>
    (\<forall>x\<in>A. same_on m (memory_of s) (bytes x))"
proof -
  obtain b k where b: "p = of_nat (b + 8)" "unat sz + 8 \<le> k" "(b, k) \<notin> A" "inv s' (insert (b, k) A)"
    "\<forall>x\<in>A. same_on (memory_of s') (memory_of s) (bytes x)"
    using alloc_block [OF assms] by blast
  have range: "b + k < 2 ^ 63" using block_range [OF b(4), of "(b, k)"] by simp
  then have up: "unat p = b + 8" unfolding b(1) using b(2) by (intro unat_of_nat_small) simp
  let ?m = "fill_mem (memory_of s') p (ucast c) (unat sz)"
  have set: "memset (memory_of s') p c sz = Some (p, ?m)" using up range b(2) by (intro memset_eq) simp
  have out: "same_on ?m (memory_of s') ({..<2 ^ 64} - {b + 8..<b + k})"
    unfolding same_on_def
  proof
    fix x assume "x \<in> {..<2 ^ 64} - {b + 8..<b + k}"
    then have x: "x < b + 8 \<or> b + k \<le> x" "unat (of_nat x :: u64) = x" by (auto simp: unat_of_nat_small)
    have "unat (of_nat x - p) = (if unat p \<le> x then x - unat p else x + 2 ^ LENGTH(64) - unat p)"
      using unat_sub_if' [of "of_nat x :: u64" p] x(2) by (simp only:)
    then have "unat sz \<le> unat (of_nat x - p)" using x(1) up b(2) range by auto
    then show "?m (of_nat x) = memory_of s' (of_nat x)" by (simp add: fill_mem_def)
  qed
  have filled: "\<forall>i<unat sz. ?m (p + of_nat i) = ucast c"
  proof (intro allI impI)
    fix i assume "i < unat sz"
    then have "unat (of_nat i :: u64) = i" using range b(2) by (intro unat_of_nat_small) simp
    then show "?m (p + of_nat i) = ucast c" using \<open>i < unat sz\<close> by (simp add: fill_mem_def)
  qed
  have "same_on ?m (memory_of s) (bytes x)" if "x \<in> A" for x
  proof -
    have "bytes x \<inter> bytes (b, k) = {}" using block_apart [OF b(4), of x "(b, k)"] that b(3) by auto
    then have "bytes x \<subseteq> {..<2 ^ 64} - {b + 8..<b + k}"
      using block_range [OF b(4), of x] that by (auto simp: bytes_def)
    then show ?thesis using same_on_trans [OF same_on_sub [OF out]] b(5) that by blast
  qed
  then show ?thesis using b(1,2,3) set filled put_block [OF b(4) _ out] by blast
qed

end

text \<open>The allocator of \<open>tiny-malloc.c\<close> below a limit, for any heap start.\<close>

definition heap_ok :: "nat \<Rightarrow> u64 \<Rightarrow> heap \<Rightarrow> block set \<Rightarrow> bool" where
  "heap_ok st limit s A \<longleftrightarrow> (\<exists>F. heap_inv st s F A) \<and> unat (malloc_end s) + 32 \<le> unat limit \<and> unat limit < 2 ^ 63"

lemma heap_ok_put:
  assumes "heap_ok st limit s A" "(b, k) \<in> A" "same_on m (mem s) ({..<2 ^ 64} - {b + 8..<b + k})"
  shows "heap_ok st limit (s\<lparr>mem := m\<rparr>) A"
proof -
  obtain F where inv: "heap_inv st s F A" and lim: "unat (malloc_end s) + 32 \<le> unat limit" "unat limit < 2 ^ 63"
    using assms(1) by (auto simp: heap_ok_def)
  let ?O = "{..<2 ^ 64 :: nat} - {b + 8..<b + k}"
  note al = inv [unfolded heap_inv_def at_link_def]
  have "region F \<subseteq> ?O"
  proof
    fix x assume x: "x \<in> region F"
    then have "x < unat (malloc_end s)" using al by auto
    moreover have "x \<notin> bytes (b, k)" using x al assms(2) by blast
    ultimately show "x \<in> ?O" using lim by (auto simp: bytes_def)
  qed
  then have "flist m (malloc_freelist s) F"
    using al flist_frame [of "mem s" "malloc_freelist s" F] same_on_sub [OF assms(3)] by (auto simp: link_def)
  then have "at_link st Head (s\<lparr>mem := m\<rparr>) F (unat (malloc_end s))"
    using al by (simp add: at_link_def link_def)
  moreover have "load64 m (of_nat (fst x)) = of_nat (snd x)" if x: "x \<in> A" for x
  proof -
    have "{fst x..<fst x + 8} \<subseteq> ?O"
    proof (cases "x = (b, k)")
      case True
      then show ?thesis using heap_inv_bytes(4) [OF inv x] heap_inv_bytes(2) [OF inv x] lim by auto
    next
      case False
      then have "bytes x \<inter> bytes (b, k) = {}" using al x assms(2) by blast
      then show ?thesis using heap_inv_bytes(2,4) [OF inv x] lim al x by (fastforce simp: bytes_def)
    qed
    then show ?thesis using same_on_load [OF assms(3)] al x by simp
  qed
  ultimately have "heap_inv st (s\<lparr>mem := m\<rparr>) F A" using al by (simp add: heap_inv_def)
  then show ?thesis using lim by (auto simp: heap_ok_def)
qed

interpretation tiny: allocator "heap_ok st limit" mem "\<lambda>m s. s\<lparr>mem := m\<rparr>" "malloc limit" free
  for st limit
proof unfold_locales
  fix s A and x y :: block
  assume ok: "heap_ok st limit s A" and x: "x \<in> A"
  obtain F where inv: "heap_inv st s F A" and lim: "unat (malloc_end s) + 32 \<le> unat limit" "unat limit < 2 ^ 63"
    using ok by (auto simp: heap_ok_def)
  show "fst x + snd x < 2 ^ 63" using heap_inv_bytes(4) [OF inv x] lim by simp
  show "bytes x \<inter> bytes y = {}" if "y \<in> A" "x \<noteq> y" using inv x that unfolding heap_inv_def by blast
next
  fix s A and sz :: u64
  assume ok: "heap_ok st limit s A" and sz: "unat sz \<le> 2 ^ 61"
  obtain F where inv: "heap_inv st s F A" and lim: "unat (malloc_end s) + 32 \<le> unat limit" "unat limit < 2 ^ 63"
    using ok by (auto simp: heap_ok_def)
  note run = malloc_runs [OF inv sz lim]
  show "\<exists>s' p. malloc limit sz s = Some (s', p)" using run by blast
  show "\<exists>b k. p = of_nat (b + 8) \<and> unat sz + 8 \<le> k \<and> (b, k) \<notin> A \<and> heap_ok st limit s' (insert (b, k) A) \<and>
      (\<forall>x\<in>A. same_on (mem s') (mem s) (bytes x))" if "malloc limit sz s = Some (s', p)" "p \<noteq> 0" for s' p
    using run that lim(2) unfolding heap_ok_def by fastforce
  show "s' = s" if "malloc limit sz s = Some (s', 0)" for s'
  proof -
    have "(of_nat (b + 8) :: u64) \<noteq> 0" if "heap_inv st s'' F' (insert (b, k) A)" "unat sz + 8 \<le> k"
        "unat (malloc_end s'') + 32 \<le> unat limit" for s'' F' b k
      using heap_inv_bytes(4) [OF that(1), of "(b, k)"] that(2,3) lim(2) of_nat_order(4) [of "b + 8" 0] by simp
    then show ?thesis using run that by (metis option.inject prod.inject)
  qed
next
  fix s A b k
  assume ok: "heap_ok st limit s A" and bk: "(b, k) \<in> A"
  obtain F where inv: "heap_inv st s F A" and lim: "unat (malloc_end s) + 32 \<le> unat limit" "unat limit < 2 ^ 63"
    using ok by (auto simp: heap_ok_def)
  show "\<exists>s'. free (of_nat (b + 8)) s = Some s' \<and> heap_ok st limit s' (A - {(b, k)}) \<and>
      (\<forall>x\<in>A - {(b, k)}. same_on (mem s') (mem s) (bytes x))"
    using free_runs [OF inv bk] lim unfolding heap_ok_def by fastforce
next
  show "heap_ok st limit (s\<lparr>mem := m\<rparr>) A"
    if "heap_ok st limit s A" "(b, k) \<in> A" "same_on m (mem s) ({..<2 ^ 64} - {b + 8..<b + k})" for s A b k m
    using that by (rule heap_ok_put)
qed simp

text \<open>A heap nothing has been taken from, and one with a block in use.\<close>

definition empty_heap :: "nat \<Rightarrow> heap" where
  "empty_heap st = \<lparr>mem = (\<lambda>_. 0), malloc_end = of_nat st, malloc_freelist = 0\<rparr>"

definition one_block :: heap where
  "one_block = \<lparr>mem = store64 (\<lambda>_. 0) 0x1000 32, malloc_end = 0x1020, malloc_freelist = 0\<rparr>"

lemma empty_heap_inv: "0 < st \<Longrightarrow> st < 2 ^ 63 \<Longrightarrow> heap_inv st (empty_heap st) [] {}"
  by (simp add: heap_inv_def at_link_def link_def empty_heap_def loc_ok_def region_def unat_of_nat_small)

lemma one_block_inv: "heap_inv 0x1000 one_block [] {(0x1000, 32)}"
  by (simp add: heap_inv_def at_link_def link_def one_block_def loc_ok_def region_def bytes_def load64_store64)

lemma empty_heap_ok: "0 < st \<Longrightarrow> st + 32 \<le> unat limit \<Longrightarrow> unat limit < 2 ^ 63 \<Longrightarrow> heap_ok st limit (empty_heap st) {}"
  using empty_heap_inv [of st] by (auto simp: heap_ok_def empty_heap_def unat_of_nat_small)

section \<open>Properties\<close>

text \<open>
  C11: on a heap that satisfies the invariant and ends at least the minimum gap of 32
  bytes below the limit (itself below \<open>2 ^ 63\<close>), \<open>malloc\<close> of at most \<open>2 ^ 61\<close> bytes returns:
  either the null pointer with the heap as it was, when no free block is large enough
  and the top has no room, or a pointer to the payload of a new block of at least the
  requested size, which overlaps no block in use, with the contents of those blocks
  unchanged and the end of the heap still the gap below the limit.\<close>

theorem malloc_allocates:
  assumes "heap_inv st s F A" "unat sz \<le> 2 ^ 61" "unat (malloc_end s) + 32 \<le> unat limit" "unat limit < 2 ^ 63"
  shows "\<exists>s' p. malloc limit sz s = Some (s', p) \<and>
    (p = 0 \<and> s' = s \<and> (\<forall>x\<in>set F. snd x < unat (REAL_SIZE sz)) \<and>
       unat limit < unat (malloc_end s) + 32 + unat (REAL_SIZE sz) \<or>
     (\<exists>b k F'. p = of_nat (b + 8) \<and> unat sz + 8 \<le> k \<and> (b, k) \<notin> A \<and> heap_inv st s' F' (insert (b, k) A) \<and>
       unat (malloc_end s') + 32 \<le> unat limit \<and> (\<forall>x\<in>A. same_on (mem s') (mem s) (bytes x))))"
  using assms by (rule malloc_runs)

theorem malloc_allocates_witness:
  "heap_inv 0x1000 one_block [] {(0x1000, 32)} \<and>
    (\<exists>s' b k F. malloc 0x2000 24 one_block = Some (s', of_nat (b + 8)) \<and> 32 \<le> k \<and>
      heap_inv 0x1000 s' F {(b, k), (0x1000, 32)} \<and> unat (malloc_end s') + 32 \<le> 0x2000)"
proof -
  have e: "unat (malloc_end one_block) = 0x1020" "unat (REAL_SIZE 24) = 32" by (simp_all add: one_block_def REAL_SIZE_def M_ALIGN_def)
  then have "unat (malloc_end one_block) + 32 \<le> unat (0x2000 :: u64)" by simp
  from malloc_allocates [OF one_block_inv _ this, of 24] show ?thesis using one_block_inv e by fastforce
qed

text \<open>
  C12: \<open>free\<close> of a block in use returns, puts the block into the address-ordered free list
  joined with the free blocks it touches, and leaves the other blocks in use and their
  contents as they were.\<close>

theorem free_releases:
  assumes "heap_inv st s F A" "(b, k) \<in> A"
  shows "\<exists>s'. free (of_nat (b + 8)) s = Some s' \<and> malloc_end s' = malloc_end s \<and>
    heap_inv st s' (free_abs b k F) (A - {(b, k)}) \<and> (\<forall>x\<in>A - {(b, k)}. same_on (mem s') (mem s) (bytes x))"
  using assms by (rule free_runs)

theorem free_releases_witness: "\<exists>s'. free 0x1008 one_block = Some s' \<and> heap_inv 0x1000 s' [(0x1000, 32)] {}"
  using free_releases [OF one_block_inv, of "0x1000" 32] by auto

text \<open>
  C19: on such a heap, \<open>calloc\<close> of a product of at most \<open>2 ^ 61\<close> bytes gives a block in use of its own with
  the requested bytes all zero, the other blocks unchanged, or the null pointer and
  the heap as it was.\<close>

theorem calloc_zeroes:
  assumes "heap_ok st limit s A" "unat n * unat elem_size \<le> 2 ^ 61"
  shows "\<exists>s' p. calloc limit n elem_size s = Some (s', p) \<and>
    (p = 0 \<and> s' = s \<or>
     (\<exists>b k. p = of_nat (b + 8) \<and> unat n * unat elem_size + 8 \<le> k \<and> (b, k) \<notin> A \<and> heap_ok st limit s' (insert (b, k) A) \<and>
       (\<forall>i<unat n * unat elem_size. mem s' (p + of_nat i) = 0) \<and> (\<forall>x\<in>A. same_on (mem s') (mem s) (bytes x))))"
proof -
  have sz: "unat (n * elem_size) = unat n * unat elem_size"
    using assms(2) by (intro unat_mult_lem [THEN iffD1]) simp
  then have bound: "unat (n * elem_size) \<le> 2 ^ 61" using assms(2) by simp
  obtain s' p where run: "malloc limit (n * elem_size) s = Some (s', p)"
    using tiny.alloc_returns [OF assms(1) bound] by blast
  show ?thesis
  proof (cases "p = 0")
    case True
    then show ?thesis using run tiny.alloc_refused [OF assms(1) bound] by (simp add: calloc_def)
  next
    case False
    from tiny.alloc_fill [OF assms(1) bound run False, of 0]
    obtain b k m where m: "memset (mem s') p 0 (n * elem_size) = Some (p, m)"
      and res: "p = of_nat (b + 8)" "unat n * unat elem_size + 8 \<le> k" "(b, k) \<notin> A" "heap_ok st limit (s'\<lparr>mem := m\<rparr>) (insert (b, k) A)"
        "\<forall>i<unat n * unat elem_size. m (p + of_nat i) = 0" "\<forall>x\<in>A. same_on m (mem s) (bytes x)"
      unfolding sz by auto
    have "calloc limit n elem_size s = Some (s'\<lparr>mem := m\<rparr>, p)" using run m False by (simp add: calloc_def)
    then show ?thesis using res by force
  qed
qed

theorem calloc_zeroes_witness:
  "heap_ok 0x1000 0x2000 (empty_heap 0x1000) {} \<and> calloc 0x2000 4 8 (empty_heap 0x1000) \<noteq> None"
proof -
  have "heap_ok 0x1000 0x2000 (empty_heap 0x1000) {}" by (rule empty_heap_ok) simp_all
  with calloc_zeroes [OF this, of 4 8] show ?thesis by auto
qed

end
