(* ===== verification/Dhrystone.thy ===== *)
theory Dhrystone
  imports Prelude "HOL-Library.Char_ord"
begin

text \<open>
  \<open>guests/coremark/dry.c\<close>: the Dhrystone benchmark, both passes of the file.

  The records are a store from addresses to \<open>Rec_Type\<close>; a null or dangling dereference,
  an index out of an array, a division by zero and a read of a local that has no value
  are \<open>None\<close>, and so is a loop that does not end. Of the union \<open>variant\<close> the program only
  uses \<open>var_1\<close>. A string is the characters before its NUL. The addresses that the two
  calls of \<open>malloc\<close> return, the clock and \<open>HZ\<close> are arguments.
\<close>

section \<open>Model\<close>

subsection \<open>Types and variables\<close>

datatype Enumeration = Ident_1 | Ident_2 | Ident_3 | Ident_4 | Ident_5

record Rec_Type =
  Ptr_Comp :: u64
  Discr :: Enumeration
  Enum_Comp :: Enumeration
  Int_Comp :: s32
  Str_Comp :: string

record globals =
  Ptr_Glob :: u64
  Next_Ptr_Glob :: u64
  Int_Glob :: s32
  Bool_Glob :: s32
  Ch_1_Glob :: char
  Ch_2_Glob :: char
  Arr_1_Glob :: "s32 list"
  Arr_2_Glob :: "s32 list list"
  recs :: "u64 \<Rightarrow> Rec_Type option"

record main_locals =
  Int_1_Loc :: s32
  Int_2_Loc :: s32
  Int_3_Loc :: s32
  Enum_Loc :: Enumeration
  Str_1_Loc :: string
  Str_2_Loc :: string

definition deref :: "u64 \<Rightarrow> globals \<Rightarrow> Rec_Type option" where
  "deref p g = (if p = 0 then None else recs g p)"

definition assign :: "u64 \<Rightarrow> (Rec_Type \<Rightarrow> Rec_Type) \<Rightarrow> globals \<Rightarrow> globals option" where
  "assign p f g = do { r \<leftarrow> deref p g; Some (g\<lparr>recs := (recs g)(p := Some (f r))\<rparr>) }"

definition char_at :: "string \<Rightarrow> s32 \<Rightarrow> char option" where
  "char_at s i =
     (if sint i < 0 \<or> length s < nat (sint i) then None
      else if nat (sint i) = length s then Some (CHR 0x00) else Some (s ! nat (sint i)))"

text \<open>Elements of the arrays of 50 numbers and of 50 by 50.\<close>

definition get_1 :: "s32 list \<Rightarrow> s32 \<Rightarrow> s32 option" where
  "get_1 a i = (if 0 \<le> sint i \<and> nat (sint i) < length a then Some (a ! nat (sint i)) else None)"

definition set_1 :: "s32 list \<Rightarrow> s32 \<Rightarrow> s32 \<Rightarrow> s32 list option" where
  "set_1 a i v = (if 0 \<le> sint i \<and> nat (sint i) < length a then Some (a[nat (sint i) := v]) else None)"

definition get_2 :: "s32 list list \<Rightarrow> s32 \<Rightarrow> s32 \<Rightarrow> s32 option" where
  "get_2 a i j = (if 0 \<le> sint i \<and> nat (sint i) < length a then get_1 (a ! nat (sint i)) j else None)"

definition set_2 :: "s32 list list \<Rightarrow> s32 \<Rightarrow> s32 \<Rightarrow> s32 \<Rightarrow> s32 list list option" where
  "set_2 a i j v =
     (if 0 \<le> sint i \<and> nat (sint i) < length a
      then do { row \<leftarrow> set_1 (a ! nat (sint i)) j v; Some (a[nat (sint i) := row]) } else None)"

text \<open>What the program uses of the C library: \<open>strcmp\<close>, \<open>atoi\<close> and the quotient of two numbers.\<close>

fun str_compare :: "string \<Rightarrow> string \<Rightarrow> int" where
  "str_compare [] [] = 0"
| "str_compare [] (d # _) = - of_char d"
| "str_compare (c # _) [] = of_char c"
| "str_compare (c # cs) (d # ds) = (if c = d then str_compare cs ds else of_char c - of_char d)"

definition atoi_digits :: "string \<Rightarrow> int" where
  "atoi_digits s = foldl (\<lambda>n c. n * 10 + (of_char c - 48)) 0 (takeWhile (\<lambda>c. CHR ''0'' \<le> c \<and> c \<le> CHR ''9'') s)"

definition atoi :: "string \<Rightarrow> s32" where
  "atoi s =
     (let t = dropWhile (\<lambda>c. c = CHR '' '' \<or> CHR 0x09 \<le> c \<and> c \<le> CHR 0x0D) s
      in of_int (case t of CHR ''-'' # ds \<Rightarrow> - atoi_digits ds | CHR ''+'' # ds \<Rightarrow> atoi_digits ds | ds \<Rightarrow> atoi_digits ds))"

definition c_quot :: "s32 \<Rightarrow> s32 \<Rightarrow> s32 option" where
  "c_quot a b =
     (if b = 0 then None else Some (of_int (sgn (sint a) * sgn (sint b) * (\<bar>sint a\<bar> div \<bar>sint b\<bar>))))"

subsection \<open>Functions\<close>

definition Func_1 :: "char \<Rightarrow> char \<Rightarrow> globals \<Rightarrow> globals \<times> Enumeration" where
  "Func_1 Ch_1_Par_Val Ch_2_Par_Val g =
     (let Ch_1_Loc = Ch_1_Par_Val; Ch_2_Loc = Ch_1_Loc
      in if Ch_2_Loc \<noteq> Ch_2_Par_Val then (g, Ident_1) else (g\<lparr>Ch_1_Glob := Ch_1_Loc\<rparr>, Ident_2))"

text \<open>The loop of \<open>Func_2\<close>; \<open>Ch_Loc\<close> has no value before its first assignment.\<close>

partial_function (option) Func_2_loop ::
    "string \<Rightarrow> string \<Rightarrow> globals \<Rightarrow> s32 \<Rightarrow> char option \<Rightarrow> (globals \<times> s32 \<times> char option) option" where
  "Func_2_loop s1 s2 g Int_Loc Ch_Loc =
     (if sint Int_Loc \<le> 2 then do {
        c1 \<leftarrow> char_at s1 Int_Loc;
        c2 \<leftarrow> char_at s2 (Int_Loc + 1);
        let (g, e) = Func_1 c1 c2 g;
        if e = Ident_1 then Func_2_loop s1 s2 g (Int_Loc + 1) (Some (CHR ''A''))
        else Func_2_loop s1 s2 g Int_Loc Ch_Loc
      }
      else Some (g, Int_Loc, Ch_Loc))"

definition Func_2 :: "string \<Rightarrow> string \<Rightarrow> globals \<Rightarrow> (globals \<times> s32) option" where
  "Func_2 Str_1_Par_Ref Str_2_Par_Ref g =
     do {
       (g, Int_Loc, Ch_Loc) \<leftarrow> Func_2_loop Str_1_Par_Ref Str_2_Par_Ref g 2 None;
       Ch_Loc \<leftarrow> Ch_Loc;
       let Int_Loc = (if Ch_Loc \<ge> CHR ''W'' \<and> Ch_Loc < CHR ''Z'' then 7 else Int_Loc);
       if Ch_Loc = CHR ''R'' then Some (g, 1)
       else if str_compare Str_1_Par_Ref Str_2_Par_Ref > 0
       then let Int_Loc = Int_Loc + 7 in Some (g\<lparr>Int_Glob := Int_Loc\<rparr>, 1)
       else Some (g, 0)
     }"

definition Func_3 :: "Enumeration \<Rightarrow> bool" where
  "Func_3 Enum_Par_Val = (let Enum_Loc = Enum_Par_Val in if Enum_Loc = Ident_3 then True else False)"

subsection \<open>Procedures\<close>

text \<open>A reference parameter is the value it has on return.\<close>

definition Proc_7 :: "s32 \<Rightarrow> s32 \<Rightarrow> s32" where
  "Proc_7 Int_1_Par_Val Int_2_Par_Val = (let Int_Loc = Int_1_Par_Val + 2 in Int_2_Par_Val + Int_Loc)"

definition Proc_6 :: "Enumeration \<Rightarrow> globals \<Rightarrow> Enumeration" where
  "Proc_6 Enum_Val_Par g =
     (let Enum_Ref_Par = Enum_Val_Par;
          Enum_Ref_Par = (if \<not> Func_3 Enum_Val_Par then Ident_4 else Enum_Ref_Par)
      in case Enum_Val_Par of
           Ident_1 \<Rightarrow> Ident_1
         | Ident_2 \<Rightarrow> (if sint (Int_Glob g) > 100 then Ident_1 else Ident_4)
         | Ident_3 \<Rightarrow> Ident_2
         | Ident_4 \<Rightarrow> Enum_Ref_Par
         | Ident_5 \<Rightarrow> Ident_3)"

text \<open>The inner loop of \<open>Proc_8\<close>.\<close>

partial_function (option) Proc_8_loop :: "s32 \<Rightarrow> s32 \<Rightarrow> s32 list list \<Rightarrow> s32 list list option" where
  "Proc_8_loop Int_Loc Int_Index a =
     (if sint Int_Index \<le> sint (Int_Loc + 1)
      then do { a \<leftarrow> set_2 a Int_Loc Int_Index Int_Loc; Proc_8_loop Int_Loc (Int_Index + 1) a }
      else Some a)"

definition Proc_8 :: "s32 \<Rightarrow> s32 \<Rightarrow> globals \<Rightarrow> globals option" where
  "Proc_8 Int_1_Par_Val Int_2_Par_Val g =
     (let Int_Loc = Int_1_Par_Val + 5
      in do {
        a1 \<leftarrow> set_1 (Arr_1_Glob g) Int_Loc Int_2_Par_Val;
        v \<leftarrow> get_1 a1 Int_Loc;
        a1 \<leftarrow> set_1 a1 (Int_Loc + 1) v;
        a1 \<leftarrow> set_1 a1 (Int_Loc + 30) Int_Loc;
        a2 \<leftarrow> Proc_8_loop Int_Loc Int_Loc (Arr_2_Glob g);
        w \<leftarrow> get_2 a2 Int_Loc (Int_Loc - 1);
        a2 \<leftarrow> set_2 a2 Int_Loc (Int_Loc - 1) (w + 1);
        v \<leftarrow> get_1 a1 Int_Loc;
        a2 \<leftarrow> set_2 a2 (Int_Loc + 20) Int_Loc v;
        Some (g\<lparr>Arr_1_Glob := a1, Arr_2_Glob := a2, Int_Glob := 5\<rparr>)
      })"

definition Proc_5 :: "globals \<Rightarrow> globals" where
  "Proc_5 g = g\<lparr>Ch_1_Glob := CHR ''A'', Bool_Glob := 0\<rparr>"

definition Proc_4 :: "globals \<Rightarrow> globals" where
  "Proc_4 g =
     (let Bool_Loc = (if Ch_1_Glob g = CHR ''A'' then 1 else 0)
      in g\<lparr>Bool_Glob := Bool_Loc OR Bool_Glob g, Ch_2_Glob := CHR ''B''\<rparr>)"

text \<open>\<open>Proc_3\<close> is called with the address of the \<open>Ptr_Comp\<close> of the record at \<open>p\<close>.\<close>

definition Proc_3 :: "u64 \<Rightarrow> globals \<Rightarrow> globals option" where
  "Proc_3 p g =
     do {
       g \<leftarrow> (if Ptr_Glob g \<noteq> 0 then do { r \<leftarrow> deref (Ptr_Glob g) g; assign p (Ptr_Comp_update (\<lambda>_. Ptr_Comp r)) g } else Some g);
       assign (Ptr_Glob g) (Int_Comp_update (\<lambda>_. Proc_7 10 (Int_Glob g))) g
     }"

partial_function (option) Proc_2_loop :: "globals \<Rightarrow> s32 \<Rightarrow> s32 \<Rightarrow> Enumeration option \<Rightarrow> s32 option" where
  "Proc_2_loop g Int_Loc Int_Par_Ref enum =
     (let A = Ch_1_Glob g = CHR ''A'';
          Int_Loc = (if A then Int_Loc - 1 else Int_Loc);
          Int_Par_Ref = (if A then Int_Loc - Int_Glob g else Int_Par_Ref);
          enum = (if A then Some Ident_1 else enum)
      in do { e \<leftarrow> enum; if e \<noteq> Ident_1 then Proc_2_loop g Int_Loc Int_Par_Ref enum else Some Int_Par_Ref })"

definition Proc_2 :: "s32 \<Rightarrow> globals \<Rightarrow> s32 option" where
  "Proc_2 Int_Par_Ref g = Proc_2_loop g (Int_Par_Ref + 10) Int_Par_Ref None"

definition Proc_1 :: "u64 \<Rightarrow> globals \<Rightarrow> globals option" where
  "Proc_1 Ptr_Val_Par g =
     do {
       r \<leftarrow> deref Ptr_Val_Par g;
       let Next_Record = Ptr_Comp r;
       rg \<leftarrow> deref (Ptr_Glob g) g;
       g \<leftarrow> assign Next_Record (\<lambda>_. rg) g;
       g \<leftarrow> assign Ptr_Val_Par (Int_Comp_update (\<lambda>_. 5)) g;
       r \<leftarrow> deref Ptr_Val_Par g;
       g \<leftarrow> assign Next_Record (Int_Comp_update (\<lambda>_. Int_Comp r)) g;
       r \<leftarrow> deref Ptr_Val_Par g;
       g \<leftarrow> assign Next_Record (Ptr_Comp_update (\<lambda>_. Ptr_Comp r)) g;
       g \<leftarrow> Proc_3 Next_Record g;
       n \<leftarrow> deref Next_Record g;
       if Discr n = Ident_1 then do {
         g \<leftarrow> assign Next_Record (Int_Comp_update (\<lambda>_. 6)) g;
         r \<leftarrow> deref Ptr_Val_Par g;
         g \<leftarrow> assign Next_Record (Enum_Comp_update (\<lambda>_. Proc_6 (Enum_Comp r) g)) g;
         rg \<leftarrow> deref (Ptr_Glob g) g;
         g \<leftarrow> assign Next_Record (Ptr_Comp_update (\<lambda>_. Ptr_Comp rg)) g;
         n \<leftarrow> deref Next_Record g;
         assign Next_Record (Int_Comp_update (\<lambda>_. Proc_7 (Int_Comp n) 10)) g
       }
       else do {
         r \<leftarrow> deref Ptr_Val_Par g;
         n \<leftarrow> deref (Ptr_Comp r) g;
         assign Ptr_Val_Par (\<lambda>_. n) g
       }
     }"

subsection \<open>main\<close>

partial_function (option) main_while :: "main_locals \<Rightarrow> main_locals option" where
  "main_while l =
     (if sint (Int_1_Loc l) < sint (Int_2_Loc l) then
        let l = l\<lparr>Int_3_Loc := 5 * Int_1_Loc l - Int_2_Loc l\<rparr>;
            l = l\<lparr>Int_3_Loc := Proc_7 (Int_1_Loc l) (Int_2_Loc l)\<rparr>
        in main_while (l\<lparr>Int_1_Loc := Int_1_Loc l + 1\<rparr>)
      else Some l)"

definition next_char :: "char \<Rightarrow> char" where
  "next_char c = char_of (of_char c + 1 :: nat)"

definition ch_step :: "char \<Rightarrow> s32 \<Rightarrow> globals \<Rightarrow> main_locals \<Rightarrow> globals \<times> main_locals" where
  "ch_step Ch_Index Run_Index g l =
     (let (g, e) = Func_1 Ch_Index (CHR ''C'') g
      in if Enum_Loc l = e then
           let l = l\<lparr>Enum_Loc := Proc_6 Ident_1 g\<rparr>;
               l = l\<lparr>Str_2_Loc := ''DHRYSTONE PROGRAM, 3'RD STRING''\<rparr>
           in (g\<lparr>Int_Glob := Run_Index\<rparr>, l\<lparr>Int_2_Loc := Run_Index\<rparr>)
         else (g, l))"

partial_function (option) ch_loop :: "char \<Rightarrow> s32 \<Rightarrow> globals \<Rightarrow> main_locals \<Rightarrow> (globals \<times> main_locals) option" where
  "ch_loop Ch_Index Run_Index g l =
     (if Ch_Index \<le> Ch_2_Glob g then
        ch_loop (next_char Ch_Index) Run_Index (fst (ch_step Ch_Index Run_Index g l)) (snd (ch_step Ch_Index Run_Index g l))
      else Some (g, l))"

text \<open>One pass through the measured loop.\<close>

definition run :: "s32 \<Rightarrow> globals \<Rightarrow> main_locals \<Rightarrow> (globals \<times> main_locals) option" where
  "run Run_Index g l =
     do {
       let g = Proc_4 (Proc_5 g);
       let l = l\<lparr>Int_1_Loc := 2, Int_2_Loc := 3, Str_2_Loc := ''DHRYSTONE PROGRAM, 2'ND STRING'', Enum_Loc := Ident_2\<rparr>;
       (g, b) \<leftarrow> Func_2 (Str_1_Loc l) (Str_2_Loc l) g;
       let g = g\<lparr>Bool_Glob := (if b = 0 then 1 else 0)\<rparr>;
       l \<leftarrow> main_while l;
       g \<leftarrow> Proc_8 (Int_1_Loc l) (Int_3_Loc l) g;
       g \<leftarrow> Proc_1 (Ptr_Glob g) g;
       (g, l) \<leftarrow> ch_loop (CHR ''A'') Run_Index g l;
       let l = l\<lparr>Int_2_Loc := Int_2_Loc l * Int_1_Loc l\<rparr>;
       q \<leftarrow> c_quot (Int_2_Loc l) (Int_3_Loc l);
       let l = l\<lparr>Int_1_Loc := q\<rparr>;
       let l = l\<lparr>Int_2_Loc := 7 * (Int_2_Loc l - Int_3_Loc l) - Int_1_Loc l\<rparr>;
       i \<leftarrow> Proc_2 (Int_1_Loc l) g;
       Some (g, l\<lparr>Int_1_Loc := i\<rparr>)
     }"

partial_function (option) runs :: "s32 \<Rightarrow> s32 \<Rightarrow> globals \<Rightarrow> main_locals \<Rightarrow> (globals \<times> main_locals) option" where
  "runs Number_Of_Runs Run_Index g l =
     (if sint Run_Index \<le> sint Number_Of_Runs
      then do { (g, l) \<leftarrow> run Run_Index g l; runs Number_Of_Runs (Run_Index + 1) g l }
      else Some (g, l))"

text \<open>The calls of \<open>printf\<close> and \<open>fprintf\<close>: the format and the arguments.\<close>

datatype dry_arg = Dec s32 | Chr char | Addr u64 | Text string

type_synonym dry_call = "string \<times> dry_arg list"

fun enum_int :: "Enumeration \<Rightarrow> s32" where
  "enum_int Ident_1 = 0"
| "enum_int Ident_2 = 1"
| "enum_int Ident_3 = 2"
| "enum_int Ident_4 = 3"
| "enum_int Ident_5 = 4"

definition Version :: string where
  "Version = ''C, Version 2.2a''"

definition NUMBER_OF_RUNS :: s32 where
  "NUMBER_OF_RUNS = 50000"

text \<open>
  The loop around the measurement: \<open>clock\<close> gives the user time at each call of \<open>times\<close>, of
  which the k-th attempt makes two.
\<close>

partial_function (option) measure_loop ::
    "s32 \<Rightarrow> (nat \<Rightarrow> s64) \<Rightarrow> nat \<Rightarrow> s32 \<Rightarrow> globals \<Rightarrow> main_locals \<Rightarrow> dry_call list \<Rightarrow>
       (s32 \<times> globals \<times> main_locals \<times> dry_call list) option" where
  "measure_loop HZ clock k Number_Of_Runs g l out =
     (let out = out @ [(''Trying %d runs: '', [Dec Number_Of_Runs])]
      in do {
        (g, l) \<leftarrow> runs Number_Of_Runs 1 g l;
        let User_Time = clock (2 * k + 1) - clock (2 * k);
        if sint User_Time < sint (2 * HZ)
        then measure_loop HZ clock (k + 1) (Number_Of_Runs * 10) g l (out @ [(''too few\<newline>'', [])])
        else Some (Number_Of_Runs, g, l, out)
      })"

definition init_records :: "u64 \<Rightarrow> u64 \<Rightarrow> globals \<Rightarrow> globals option" where
  "init_records next_ptr ptr g =
     do {
       let g = g\<lparr>Next_Ptr_Glob := next_ptr, Ptr_Glob := ptr\<rparr>;
       g \<leftarrow> assign (Ptr_Glob g) (Ptr_Comp_update (\<lambda>_. Next_Ptr_Glob g)) g;
       g \<leftarrow> assign (Ptr_Glob g) (Discr_update (\<lambda>_. Ident_1)) g;
       g \<leftarrow> assign (Ptr_Glob g) (Enum_Comp_update (\<lambda>_. Ident_3)) g;
       g \<leftarrow> assign (Ptr_Glob g) (Int_Comp_update (\<lambda>_. 40)) g;
       g \<leftarrow> assign (Ptr_Glob g) (Str_Comp_update (\<lambda>_. ''DHRYSTONE PROGRAM, SOME STRING'')) g;
       a \<leftarrow> set_2 (Arr_2_Glob g) 8 7 10;
       Some (g\<lparr>Arr_2_Glob := a\<rparr>)
     }"

definition heading :: "bool \<Rightarrow> string \<Rightarrow> s32 \<Rightarrow> dry_call list" where
  "heading Reg CLOCK_TYPE HZ =
     [(''\<newline>'', []), (''Dhrystone Benchmark, Version %s\<newline>'', [Text Version]),
      (if Reg then (''Program compiled with 'register' attribute\<newline>'', [])
       else (''Program compiled without 'register' attribute\<newline>'', [])),
      (''Using %s, HZ=%d\<newline>'', [Text CLOCK_TYPE, Dec HZ]), (''\<newline>'', [])]"

definition report_rec :: "Rec_Type \<Rightarrow> string \<Rightarrow> s32 \<Rightarrow> s32 \<Rightarrow> dry_call list" where
  "report_rec r ptr enum num =
     [(''  Ptr_Comp:          %ld\<newline>'', [Addr (Ptr_Comp r)]), (ptr, []),
      (''  Discr:             %d\<newline>'', [Dec (enum_int (Discr r))]), (''        should be:   %d\<newline>'', [Dec 0]),
      (''  Enum_Comp:         %d\<newline>'', [Dec (enum_int (Enum_Comp r))]), (''        should be:   %d\<newline>'', [Dec enum]),
      (''  Int_Comp:          %d\<newline>'', [Dec (Int_Comp r)]), (''        should be:   %d\<newline>'', [Dec num]),
      (''  Str_Comp:          %s\<newline>'', [Text (Str_Comp r)]),
      (''        should be:   DHRYSTONE PROGRAM, SOME STRING\<newline>'', [])]"

definition report :: "globals \<Rightarrow> main_locals \<Rightarrow> dry_call list option" where
  "report g l =
     do {
       a1 \<leftarrow> get_1 (Arr_1_Glob g) 8;
       a2 \<leftarrow> get_2 (Arr_2_Glob g) 8 7;
       r \<leftarrow> deref (Ptr_Glob g) g;
       n \<leftarrow> deref (Next_Ptr_Glob g) g;
       Some ([(''Final values of the variables used in the benchmark:\<newline>'', []), (''\<newline>'', []),
         (''Int_Glob:            %d\<newline>'', [Dec (Int_Glob g)]), (''        should be:   %d\<newline>'', [Dec 5]),
         (''Bool_Glob:           %d\<newline>'', [Dec (Bool_Glob g)]), (''        should be:   %d\<newline>'', [Dec 1]),
         (''Ch_1_Glob:           %c\<newline>'', [Chr (Ch_1_Glob g)]), (''        should be:   %c\<newline>'', [Chr (CHR ''A'')]),
         (''Ch_2_Glob:           %c\<newline>'', [Chr (Ch_2_Glob g)]), (''        should be:   %c\<newline>'', [Chr (CHR ''B'')]),
         (''Arr_1_Glob[8]:       %d\<newline>'', [Dec a1]), (''        should be:   %d\<newline>'', [Dec 7]),
         (''Arr_2_Glob[8][7]:    %d\<newline>'', [Dec a2]), (''        should be:   Number_Of_Runs + 10\<newline>'', []),
         (''Ptr_Glob->\<newline>'', [])]
         @ report_rec r ''        should be:   (implementation-dependent)\<newline>'' 2 17
         @ [(''Next_Ptr_Glob->\<newline>'', [])]
         @ report_rec n ''        should be:   (implementation-dependent), same as above\<newline>'' 1 18
         @ [(''Int_1_Loc:           %d\<newline>'', [Dec (Int_1_Loc l)]), (''        should be:   %d\<newline>'', [Dec 5]),
            (''Int_2_Loc:           %d\<newline>'', [Dec (Int_2_Loc l)]), (''        should be:   %d\<newline>'', [Dec 13]),
            (''Int_3_Loc:           %d\<newline>'', [Dec (Int_3_Loc l)]), (''        should be:   %d\<newline>'', [Dec 7]),
            (''Enum_Loc:            %d\<newline>'', [Dec (enum_int (Enum_Loc l))]), (''        should be:   %d\<newline>'', [Dec 1]),
            (''Str_1_Loc:           %s\<newline>'', [Text (Str_1_Loc l)]),
            (''        should be:   DHRYSTONE PROGRAM, 1'ST STRING\<newline>'', []),
            (''Str_2_Loc:           %s\<newline>'', [Text (Str_2_Loc l)]),
            (''        should be:   DHRYSTONE PROGRAM, 2'ND STRING\<newline>'', []), (''\<newline>'', [])])
     }"

text \<open>
  \<open>main\<close>, which exits with 1 and the usage line, or ends with the number of runs, the
  variables and the calls it made. The two times per run that follow are floating point.
\<close>

datatype dry_exit = Usage dry_call | Finished s32 globals main_locals "dry_call list"

definition number_of_runs :: "string list \<Rightarrow> s32" where
  "number_of_runs argv =
     (let n = (if length argv = 2 then atoi (argv ! 1) else NUMBER_OF_RUNS)
      in if sint n \<le> 0 then NUMBER_OF_RUNS else n)"

definition dry_main ::
    "bool \<Rightarrow> string \<Rightarrow> s32 \<Rightarrow> (nat \<Rightarrow> s64) \<Rightarrow> u64 \<Rightarrow> u64 \<Rightarrow> string list \<Rightarrow> globals \<Rightarrow> main_locals \<Rightarrow> dry_exit option" where
  "dry_main Reg CLOCK_TYPE HZ clock next_ptr ptr argv g l =
     (if length argv > 2 then Some (Usage (''Usage: %s [number of loops]\<newline>'', [Text (argv ! 0)]))
      else do {
        let Number_Of_Runs = number_of_runs argv;
        g \<leftarrow> init_records next_ptr ptr g;
        let l = l\<lparr>Str_1_Loc := ''DHRYSTONE PROGRAM, 1'ST STRING''\<rparr>;
        (n, g, l, out) \<leftarrow> measure_loop HZ clock 0 Number_Of_Runs g l (heading Reg CLOCK_TYPE HZ);
        rep \<leftarrow> report g l;
        Some (Finished n g l (out @ rep))
      })"

declare Func_2_loop.simps [code] Proc_8_loop.simps [code] Proc_2_loop.simps [code] main_while.simps [code]
  ch_loop.simps [code] runs.simps [code] measure_loop.simps [code]

section \<open>One run\<close>

abbreviation string_1 :: string where "string_1 \<equiv> ''DHRYSTONE PROGRAM, 1'ST STRING''"

abbreviation string_2 :: string where "string_2 \<equiv> ''DHRYSTONE PROGRAM, 2'ND STRING''"

abbreviation some_string :: string where "some_string \<equiv> ''DHRYSTONE PROGRAM, SOME STRING''"

text \<open>What holds between the runs.\<close>

definition arrays_ok :: "globals \<Rightarrow> bool" where
  "arrays_ok g \<longleftrightarrow> length (Arr_1_Glob g) = 50 \<and> length (Arr_2_Glob g) = 50 \<and> (\<forall>row\<in>set (Arr_2_Glob g). length row = 50)"

definition ready :: "u64 \<Rightarrow> u64 \<Rightarrow> globals \<Rightarrow> main_locals \<Rightarrow> bool" where
  "ready nxt p g l \<longleftrightarrow>
     p \<noteq> 0 \<and> nxt \<noteq> 0 \<and> p \<noteq> nxt \<and> Ptr_Glob g = p \<and> Next_Ptr_Glob g = nxt \<and>
     (\<exists>i. recs g p = Some \<lparr>Ptr_Comp = nxt, Discr = Ident_1, Enum_Comp = Ident_3, Int_Comp = i, Str_Comp = some_string\<rparr>) \<and>
     recs g nxt \<noteq> None \<and> arrays_ok g \<and> Str_1_Loc l = string_1"

text \<open>What the report says the values should be, except for the element of \<open>Arr_2_Glob\<close>.\<close>

definition final_values :: "globals \<Rightarrow> main_locals \<Rightarrow> bool" where
  "final_values g l \<longleftrightarrow>
     Int_Glob g = 5 \<and> Bool_Glob g = 1 \<and> Ch_1_Glob g = CHR ''A'' \<and> Ch_2_Glob g = CHR ''B'' \<and> Arr_1_Glob g ! 8 = 7 \<and>
     recs g (Ptr_Glob g) = Some \<lparr>Ptr_Comp = Next_Ptr_Glob g, Discr = Ident_1, Enum_Comp = Ident_3, Int_Comp = 17, Str_Comp = some_string\<rparr> \<and>
     recs g (Next_Ptr_Glob g) = Some \<lparr>Ptr_Comp = Next_Ptr_Glob g, Discr = Ident_1, Enum_Comp = Ident_2, Int_Comp = 18, Str_Comp = some_string\<rparr> \<and>
     Int_1_Loc l = 5 \<and> Int_2_Loc l = 13 \<and> Int_3_Loc l = 7 \<and> Enum_Loc l = Ident_2 \<and> Str_1_Loc l = string_1 \<and> Str_2_Loc l = string_2"

lemma Func_2_strings: "Func_2 string_1 string_2 g = Some (g, 0)"
  by (simp add: Func_2_def Func_2_loop.simps [of _ _ _ 2] Func_2_loop.simps [of _ _ _ 3] char_at_def Func_1_def)

lemma main_while_once: "Int_1_Loc l = 2 \<Longrightarrow> Int_2_Loc l = 3 \<Longrightarrow> main_while l = Some (l\<lparr>Int_1_Loc := 3, Int_3_Loc := 7\<rparr>)"
  by (simp add: main_while.simps [of l] main_while.simps [of "l\<lparr>Int_3_Loc := 7, Int_1_Loc := 3\<rparr>"] Proc_7_def)

lemma Proc_4_5 [simp]:
  "Ptr_Glob (Proc_4 (Proc_5 g)) = Ptr_Glob g" "Next_Ptr_Glob (Proc_4 (Proc_5 g)) = Next_Ptr_Glob g"
  "Ch_1_Glob (Proc_4 (Proc_5 g)) = CHR ''A''" "Ch_2_Glob (Proc_4 (Proc_5 g)) = CHR ''B''"
  "Arr_1_Glob (Proc_4 (Proc_5 g)) = Arr_1_Glob g" "Arr_2_Glob (Proc_4 (Proc_5 g)) = Arr_2_Glob g"
  "recs (Proc_4 (Proc_5 g)) = recs g" "Bool_Glob (Proc_4 (Proc_5 g)) = 1"
  by (simp_all add: Proc_4_def Proc_5_def)

lemma Proc_8_effect:
  assumes "arrays_ok g"
  shows "\<exists>a1 a2. Proc_8 3 7 g = Some (g\<lparr>Arr_1_Glob := a1, Arr_2_Glob := a2, Int_Glob := 5\<rparr>) \<and>
    arrays_ok (g\<lparr>Arr_1_Glob := a1, Arr_2_Glob := a2\<rparr>) \<and> a1 ! 8 = 7 \<and> a2 ! 8 ! 7 = Arr_2_Glob g ! 8 ! 7 + 1"
proof -
  have len: "length (Arr_1_Glob g) = 50" "length (Arr_2_Glob g) = 50" "\<And>i. i < 50 \<Longrightarrow> length (Arr_2_Glob g ! i) = 50"
    using assms by (auto simp: arrays_ok_def)
  let ?a1 = "(Arr_1_Glob g)[8 := 7, 9 := 7, 38 := 8]"
  let ?a2 = "(Arr_2_Glob g)[8 := (Arr_2_Glob g ! 8)[8 := 8, 9 := 8, 7 := Arr_2_Glob g ! 8 ! 7 + 1], 28 := (Arr_2_Glob g ! 28)[8 := 7]]"
  have "Proc_8 3 7 g = Some (g\<lparr>Arr_1_Glob := ?a1, Arr_2_Glob := ?a2, Int_Glob := 5\<rparr>)"
    using len by (simp add: Proc_8_def Proc_8_loop.simps set_1_def get_1_def set_2_def get_2_def)
  moreover have "length row = 50" if "row \<in> set ?a2" for row
    using that len(2,3) by (auto simp: in_set_conv_nth nth_list_update split: if_splits)
  then have "arrays_ok (g\<lparr>Arr_1_Glob := ?a1, Arr_2_Glob := ?a2\<rparr>)" using len by (simp add: arrays_ok_def)
  moreover have "?a1 ! 8 = 7" "?a2 ! 8 ! 7 = Arr_2_Glob g ! 8 ! 7 + 1" using len by simp_all
  ultimately show ?thesis by blast
qed

lemma Proc_2_once: "Ch_1_Glob g = CHR ''A'' \<Longrightarrow> Int_Glob g = 5 \<Longrightarrow> Proc_2 1 g = Some 5"
  by (simp add: Proc_2_def Proc_2_loop.simps)

lemma next_chars: "next_char (CHR ''A'') = CHR ''B''" "next_char (CHR ''B'') = CHR ''C''"
  by (code_simp, code_simp)

lemma ch_loop_twice: "Ch_2_Glob g = CHR ''B'' \<Longrightarrow> Enum_Loc l = Ident_2 \<Longrightarrow> ch_loop (CHR ''A'') i g l = Some (g, l)"
  by (simp add: ch_loop.simps [of "CHR ''A''"] ch_loop.simps [of "CHR ''B''"] ch_loop.simps [of "CHR ''C''"] ch_step_def
      Func_1_def next_chars less_eq_char_def)

lemma Proc_1_effect:
  assumes p: "p \<noteq> 0" "nxt \<noteq> 0" "p \<noteq> nxt" "Ptr_Glob g = p" "Int_Glob g = 5" "recs g nxt = Some n"
    and r: "recs g p = Some \<lparr>Ptr_Comp = nxt, Discr = Ident_1, Enum_Comp = Ident_3, Int_Comp = i, Str_Comp = s\<rparr>"
  shows "Proc_1 p g = Some (g\<lparr>recs := (recs g)
    (p := Some \<lparr>Ptr_Comp = nxt, Discr = Ident_1, Enum_Comp = Ident_3, Int_Comp = 17, Str_Comp = s\<rparr>,
     nxt := Some \<lparr>Ptr_Comp = nxt, Discr = Ident_1, Enum_Comp = Ident_2, Int_Comp = 18, Str_Comp = s\<rparr>)\<rparr>)"
  using assms by (simp add: Proc_1_def Proc_3_def Proc_6_def Proc_7_def deref_def assign_def fun_upd_twist)

lemma run_effect:
  assumes "ready nxt p g l"
  shows "\<exists>g' l'. run i g l = Some (g', l') \<and> ready nxt p g' l' \<and> final_values g' l' \<and>
    Arr_2_Glob g' ! 8 ! 7 = Arr_2_Glob g ! 8 ! 7 + 1"
proof -
  obtain j n where p: "p \<noteq> 0" "nxt \<noteq> 0" "p \<noteq> nxt" "Ptr_Glob g = p" "Next_Ptr_Glob g = nxt" "recs g nxt = Some n"
    "recs g p = Some \<lparr>Ptr_Comp = nxt, Discr = Ident_1, Enum_Comp = Ident_3, Int_Comp = j, Str_Comp = some_string\<rparr>"
    and arr: "arrays_ok g" and l: "Str_1_Loc l = string_1"
    using assms by (auto simp: ready_def)
  let ?g = "(Proc_4 (Proc_5 g))\<lparr>Bool_Glob := 1\<rparr>"
  have "arrays_ok ?g" using arr by (simp add: arrays_ok_def)
  from Proc_8_effect [OF this] obtain a1 a2 where a: "Proc_8 3 7 ?g = Some (?g\<lparr>Arr_1_Glob := a1, Arr_2_Glob := a2, Int_Glob := 5\<rparr>)"
    "arrays_ok (?g\<lparr>Arr_1_Glob := a1, Arr_2_Glob := a2\<rparr>)" "a1 ! 8 = 7" "a2 ! 8 ! 7 = Arr_2_Glob ?g ! 8 ! 7 + 1" by blast
  let ?g8 = "?g\<lparr>Arr_1_Glob := a1, Arr_2_Glob := a2, Int_Glob := 5\<rparr>"
  have "Proc_1 p ?g8 = Some (?g8\<lparr>recs := (recs ?g8)
    (p := Some \<lparr>Ptr_Comp = nxt, Discr = Ident_1, Enum_Comp = Ident_3, Int_Comp = 17, Str_Comp = some_string\<rparr>,
     nxt := Some \<lparr>Ptr_Comp = nxt, Discr = Ident_1, Enum_Comp = Ident_2, Int_Comp = 18, Str_Comp = some_string\<rparr>)\<rparr>)"
    using p by (intro Proc_1_effect) simp_all
  note steps = a(1) this
  have "run i g l = Some (?g8\<lparr>recs := (recs ?g8)
    (p := Some \<lparr>Ptr_Comp = nxt, Discr = Ident_1, Enum_Comp = Ident_3, Int_Comp = 17, Str_Comp = some_string\<rparr>,
     nxt := Some \<lparr>Ptr_Comp = nxt, Discr = Ident_1, Enum_Comp = Ident_2, Int_Comp = 18, Str_Comp = some_string\<rparr>)\<rparr>,
    l\<lparr>Int_1_Loc := 5, Int_2_Loc := 13, Int_3_Loc := 7, Str_2_Loc := string_2, Enum_Loc := Ident_2\<rparr>)"
    using p l steps by (simp add: run_def Func_2_strings main_while_once ch_loop_twice Proc_2_once c_quot_def)
  then show ?thesis using p l a by (simp add: ready_def final_values_def arrays_ok_def)
qed

section \<open>All runs\<close>

definition counter :: "globals \<Rightarrow> s32" where
  "counter g = Arr_2_Glob g ! 8 ! 7"

lemma sint_add_small:
  fixes a b :: s32
  assumes "- (2 ^ 31) \<le> sint a + sint b" "sint a + sint b < 2 ^ 31"
  shows "sint (a + b) = sint a + sint b"
  using assms by (simp add: sint_word_ariths signed_take_bit_int_eq_self)

lemma sint_of_nat_small: "n < 2 ^ 31 \<Longrightarrow> sint (of_nat n :: s32) = int n"
  by (simp add: signed_of_nat signed_take_bit_int_eq_self)

lemma runs_effect:
  assumes "ready nxt p g l" "0 < k" "sint n = int j + int k - 1" "sint i = int j" "sint n < 2 ^ 31 - 1"
  shows "\<exists>g' l'. runs n i g l = Some (g', l') \<and> ready nxt p g' l' \<and> final_values g' l' \<and> counter g' = counter g + of_nat k"
  using assms
proof (induction k arbitrary: g l i j)
  case (Suc k)
  obtain g1 l1 where one: "run i g l = Some (g1, l1)" "ready nxt p g1 l1" "final_values g1 l1" "counter g1 = counter g + 1"
    using run_effect [OF Suc.prems(1), of i] by (auto simp: counter_def)
  have nxt: "sint (i + 1) = int (Suc j)"
    using sint_add_small [of i 1] Suc.prems(3,4,5) by simp
  have step: "runs n i g l = runs n (i + 1) g1 l1" using one(1) Suc.prems(3,4) by (simp add: runs.simps [of n i])
  show ?case
  proof (cases "k = 0")
    case True
    then have "runs n (i + 1) g1 l1 = Some (g1, l1)" using nxt Suc.prems(3) by (subst runs.simps) simp
    then show ?thesis using True one step by simp
  next
    case False
    then show ?thesis using Suc.IH [OF one(2), of "Suc j" "i + 1"] nxt Suc.prems(3,5) one(4) step by (auto simp: algebra_simps)
  qed
qed simp

text \<open>The attempts until the first that lasts long enough; each has ten times the runs of the one before.\<close>

definition too_short :: "s32 \<Rightarrow> (nat \<Rightarrow> s64) \<Rightarrow> nat \<Rightarrow> bool" where
  "too_short HZ clock k \<longleftrightarrow> sint (clock (2 * k + 1) - clock (2 * k)) < sint (2 * HZ)"

fun total_runs :: "nat \<Rightarrow> nat \<Rightarrow> nat" where
  "total_runs n 0 = n"
| "total_runs n (Suc t) = n + total_runs (10 * n) t"

lemma measure_effect:
  assumes "ready nxt p g l" "0 < n" "n * 10 ^ t < 2 ^ 31 - 1"
    and "\<forall>j<t. too_short HZ clock (k + j)" "\<not> too_short HZ clock (k + t)"
  shows "\<exists>g' l' out'. measure_loop HZ clock k (of_nat n) g l out = Some (of_nat (n * 10 ^ t), g', l', out') \<and>
    ready nxt p g' l' \<and> final_values g' l' \<and> counter g' = counter g + of_nat (total_runs n t)"
  using assms
proof (induction t arbitrary: n k g l out)
  case 0
  have "sint (of_nat n :: s32) = int n" using "0.prems"(3) by (intro sint_of_nat_small) simp
  then obtain g1 l1 where one: "runs (of_nat n) 1 g l = Some (g1, l1)" "ready nxt p g1 l1" "final_values g1 l1" "counter g1 = counter g + of_nat n"
    using runs_effect [OF "0.prems"(1,2), of "of_nat n" 1 1] "0.prems"(3) by auto
  then show ?case using "0.prems"(5) by (subst measure_loop.simps) (auto simp: too_short_def)
next
  case (Suc t)
  have "n * 1 \<le> n * 10 ^ Suc t" by (intro mult_le_mono2) simp
  then have "n < 2 ^ 31 - 1" using Suc.prems(3) by linarith
  then have "sint (of_nat n :: s32) = int n" by (intro sint_of_nat_small) simp
  then obtain g1 l1 where one: "runs (of_nat n) 1 g l = Some (g1, l1)" "ready nxt p g1 l1" "final_values g1 l1" "counter g1 = counter g + of_nat n"
    using runs_effect [OF Suc.prems(1,2), of "of_nat n" 1 1] \<open>n < _\<close> by auto
  have "measure_loop HZ clock k (of_nat n) g l out = measure_loop HZ clock (Suc k) (of_nat (10 * n)) g1 l1
      (out @ [(''Trying %d runs: '', [Dec (of_nat n)]), (''too few\<newline>'', [])])"
    using one(1) Suc.prems(4) by (subst measure_loop.simps) (auto simp: too_short_def mult.commute)
  moreover have "\<forall>j<t. too_short HZ clock (Suc k + j)" "\<not> too_short HZ clock (Suc k + t)" using Suc.prems(4,5) by auto
  moreover have "10 * n * 10 ^ t < 2 ^ 31 - 1" "0 < 10 * n" using Suc.prems(2,3) by (simp_all add: mult.assoc mult.left_commute)
  ultimately obtain g' l' out' where "measure_loop HZ clock k (of_nat n) g l out = Some (of_nat (10 * n * 10 ^ t), g', l', out')"
    "ready nxt p g' l'" "final_values g' l'" "counter g' = counter g1 + of_nat (total_runs (10 * n) t)"
    using Suc.IH [OF one(2), of "10 * n" "Suc k"] by metis
  moreover have "10 * n * 10 ^ t = n * 10 ^ Suc t" by simp
  ultimately show ?case using one(4) by (simp del: of_nat_mult)
qed

lemma init_ready:
  assumes "p \<noteq> 0" "nxt \<noteq> 0" "p \<noteq> nxt" "recs g p \<noteq> None" "recs g nxt \<noteq> None" "arrays_ok g" "Str_1_Loc l = string_1"
  shows "\<exists>g'. init_records nxt p g = Some g' \<and> ready nxt p g' l \<and> counter g' = 10"
proof -
  obtain r where r: "recs g p = Some r" using assms(4) by blast
  have len: "length (Arr_2_Glob g) = 50" "\<And>i. i < 50 \<Longrightarrow> length (Arr_2_Glob g ! i) = 50"
    using assms(6) by (auto simp: arrays_ok_def)
  let ?a = "(Arr_2_Glob g)[8 := (Arr_2_Glob g ! 8)[7 := 10]]"
  have "length row = 50" if "row \<in> set ?a" for row
    using that len by (auto simp: in_set_conv_nth nth_list_update split: if_splits)
  then have "arrays_ok (g\<lparr>Arr_2_Glob := ?a\<rparr>)" using assms(6) by (simp add: arrays_ok_def)
  moreover obtain n where "recs g nxt = Some n" using assms(5) by blast
  ultimately show ?thesis
    using assms(1-3,7) r len
    by (cases r) (simp add: init_records_def assign_def deref_def set_2_def set_1_def ready_def counter_def arrays_ok_def)
qed

text \<open>Each number or character of the report is followed by the one it should be.\<close>

fun as_stated :: "dry_call list \<Rightarrow> bool" where
  "as_stated (c # d # cs) \<longleftrightarrow>
     (fst d = ''        should be:   %d\<newline>'' \<or> fst d = ''        should be:   %c\<newline>'' \<longrightarrow> snd c = snd d) \<and> as_stated (d # cs)"
| "as_stated _ \<longleftrightarrow> True"

lemma report_final:
  assumes "ready nxt p g l" "final_values g l"
  shows "\<exists>rep. report g l = Some rep \<and> as_stated rep"
proof -
  have len: "length (Arr_1_Glob g) = 50" "length (Arr_2_Glob g) = 50" "length (Arr_2_Glob g ! 8) = 50"
    using assms(1) by (auto simp: ready_def arrays_ok_def)
  then show ?thesis using assms
    by (simp add: report_def report_rec_def get_1_def get_2_def deref_def final_values_def ready_def)
qed

lemma number_of_runs_pos: "0 < sint (number_of_runs argv)"
  by (simp add: number_of_runs_def Let_def NUMBER_OF_RUNS_def)

section \<open>Properties\<close>

text \<open>
  C20: when the first \<open>t\<close> attempts are too short and the next one is not, the benchmark ends
  after ten to the \<open>t\<close> times the runs it started with, every variable has the value the
  report says it should have, and the element of \<open>Arr_2_Glob\<close> is 10 plus the runs of all
  the attempts.\<close>

theorem dhrystone_final_values:
  assumes "p \<noteq> 0" "nxt \<noteq> 0" "p \<noteq> nxt" "recs g p \<noteq> None" "recs g nxt \<noteq> None" "arrays_ok g" "length argv \<le> 2"
    and "n = nat (sint (number_of_runs argv))" "n * 10 ^ t < 2 ^ 31 - 1"
    and "\<forall>j<t. too_short HZ clock j" "\<not> too_short HZ clock t"
  shows "\<exists>g' l' out rep. dry_main Reg C HZ clock nxt p argv g l = Some (Finished (of_nat (n * 10 ^ t)) g' l' (out @ rep)) \<and>
    report g' l' = Some rep \<and> as_stated rep \<and> final_values g' l' \<and>
    Arr_2_Glob g' ! 8 ! 7 = of_nat (10 + total_runs n t)"
proof -
  let ?l = "l\<lparr>Str_1_Loc := string_1\<rparr>"
  obtain g0 where g0: "init_records nxt p g = Some g0" "ready nxt p g0 ?l" "counter g0 = 10"
    using init_ready [OF assms(1-6), of ?l] by auto
  have n: "0 < n" "of_nat n = number_of_runs argv" using number_of_runs_pos [of argv] assms(8) by simp_all
  obtain g' l' out where m: "measure_loop HZ clock 0 (of_nat n) g0 ?l (heading Reg C HZ) = Some (of_nat (n * 10 ^ t), g', l', out)"
    "ready nxt p g' l'" "final_values g' l'" "counter g' = counter g0 + of_nat (total_runs n t)"
    using measure_effect [OF g0(2) n(1) assms(9), of HZ clock 0 "heading Reg C HZ"] assms(10,11) by auto
  obtain rep where rep: "report g' l' = Some rep" "as_stated rep" using report_final [OF m(2,3)] by blast
  have "dry_main Reg C HZ clock nxt p argv g l = Some (Finished (of_nat (n * 10 ^ t)) g' l' (out @ rep))"
    using assms(7) g0(1) m(1) rep(1) by (simp add: dry_main_def flip: n(2) del: of_nat_mult)
  then show ?thesis using rep m(3,4) g0(3) unfolding counter_def by auto
qed

definition blank_record :: Rec_Type where
  "blank_record = \<lparr>Ptr_Comp = 0, Discr = Ident_1, Enum_Comp = Ident_1, Int_Comp = 0, Str_Comp = []\<rparr>"

definition blank_globals :: globals where
  "blank_globals =
     \<lparr>Ptr_Glob = 0, Next_Ptr_Glob = 0, Int_Glob = 0, Bool_Glob = 0, Ch_1_Glob = CHR 0x00, Ch_2_Glob = CHR 0x00,
      Arr_1_Glob = replicate 50 0, Arr_2_Glob = replicate 50 (replicate 50 0), recs = (\<lambda>_. Some blank_record)\<rparr>"

definition blank_locals :: main_locals where
  "blank_locals = \<lparr>Int_1_Loc = 0, Int_2_Loc = 0, Int_3_Loc = 0, Enum_Loc = Ident_1, Str_1_Loc = [], Str_2_Loc = []\<rparr>"

lemma twenty_runs: "number_of_runs [''dry'', ''20''] = 20"
  by code_simp

text \<open>Twenty runs are too short and two hundred are not: the element is 230, not 210.\<close>

theorem dhrystone_final_values_witness:
  "\<exists>g' l' out. dry_main False ''times()'' 100 (\<lambda>k. of_nat (100 * k * k)) 0x1000 0x1040 [''dry'', ''20''] blank_globals blank_locals =
      Some (Finished 200 g' l' out) \<and> final_values g' l' \<and> Arr_2_Glob g' ! 8 ! 7 = 230"
proof -
  let ?clock = "\<lambda>k. of_nat (100 * k * k) :: s64"
  have "arrays_ok blank_globals" by (simp add: arrays_ok_def blank_globals_def)
  moreover have "\<forall>j<1. too_short 100 ?clock j" "\<not> too_short 100 ?clock 1" by (simp_all add: too_short_def)
  ultimately show ?thesis
    using dhrystone_final_values [of "0x1040" "0x1000" blank_globals "[''dry'', ''20'']" 20 1 100 ?clock False "''times()''" blank_locals]
    by (auto simp: twenty_runs blank_globals_def)
qed

end
