(* ===== verification/Spec2Isabelle.thy ===== *)
theory Spec2Isabelle
  imports Coremark_Main Guest_Evidence Ee_Printf Rt_Writeback Malloc_Heap Dhrystone
begin

text \<open>
  Verification of the shadowfax repository: the programs that run inside its confidential
  virtual machines and on its test platforms. Paths are below \<open>src/\<close>.

  \<^bold>\<open>The parts and how they interact.\<close> The firmware starts a guest; a guest talks to it by
  SBI calls (\<open>guests/hellotvm.c\<close>, \<open>covg.c\<close>, \<open>attestation.c\<close>), prints through them, and asks
  for attestation evidence, which it parses. The largest guest is CoreMark
  (\<open>guests/coremark\<close>): \<open>core_main.c\<close> lays out one block of memory for three benchmarks,
  calibrates and times their runs, checks the CRCs of the results and reports through
  \<open>ee_printf.c\<close>. \<open>guests/riscv-tests\<close> brings a small supervisor with demand paging
  (\<open>env/v\<close>), the string functions it uses, and an allocator for the debug programs.

  \<^bold>\<open>Theories, state and operations.\<close>

  \<^item> \<open>Prelude\<close>: machine integers as words, numerals, C strings, lemmas on bits and lists.
  \<^item> \<open>Coremark_Util\<close> (\<open>core_util.c\<close>): \<open>crcu8\<close> to \<open>crcu32\<close>, \<open>parseval\<close>, the data type
    checks. The CRC is the reflected CRC-16 of its polynomial and sees every change of
    one input; \<open>parseval\<close> inverts the decimal printer.
  \<^item> \<open>Coremark_State\<close> (\<open>core_state.c\<close>): the state machine over a NUL-terminated block. It
    classifies a token as its grammar does; its generator writes the patterns its seed
    chooses, as many as fit; the benchmark stays in its block, returns, and
    undoes its own corruption exactly when no corrupted byte becomes a comma.
  \<^item> \<open>Coremark_Matrix\<close> (\<open>core_matrix.c\<close>): layout, filling, the four operations against sums
    over indices, and that the matrix is restored.
  \<^item> \<open>Coremark_List\<close> (\<open>core_list_join.c\<close>): cells and items as maps from indices,
    \<open>None\<close> for a null dereference and for a block so small that cells and items overlap.
    \<open>Coremark_Sort\<close> proves the in-place merge sort for any comparison that satisfies the
    locale \<open>list_order\<close>, interpreted on \<open>cmp_idx\<close> and on \<open>cmp_complex\<close>, which changes the
    items it compares. \<open>Coremark_Bench\<close>: find, reverse, remove and its inverse, and that
    the whole benchmark restores the list.
  \<^item> \<open>Coremark_Main\<close> (\<open>core_main.c\<close>, \<open>riscv/core_portme.c\<close>): \<open>main\<close> with its partition of the
    block, calibration, timing, validation and report. The parts of the block are kept
    apart; the result matrix of an unaligned part may end two bytes behind it, which the
    port's configuration excludes. \<open>main\<close> completes whenever the clock
    advances, and its verdict is characterised for known and for unknown seeds.
  \<^item> \<open>Ee_Printf\<close> (\<open>riscv/ee_printf.c\<close>): the formatter, with arguments of the widths the
    callers pass and 32-bit widths and precisions; \<open>number\<close> prints the numeral it should.
    The root theory joins the two: every call that \<open>main\<close> makes formats.
  \<^item> \<open>Guest_Sbi\<close> and \<open>Guest_Evidence\<close> (the three guests, \<open>riscv/sbi.c\<close>): the calls, and the
    parser of the evidence. It skips every item of the major types 0 to 6 (\<open>cbor_items\<close>),
    refuses simple values, and prints the fields of well-formed evidence; on a crafted
    length it wraps around.
  \<^item> \<open>Rt_String\<close> (\<open>env/v/string.c\<close>): a memory of bytes; copying, comparing and the string
    functions against lists of bytes, whichever of the word and byte loops runs.
  \<^item> \<open>Rt_Vm\<close> (\<open>env/v/vm.c\<close>): the supervisor, with its page tables in a record of the
    machine and its exits as values. Its variables lie in the image that the program maps:
    \<open>phys\<close> is the memory with their bytes, and what is proved of the program's bytes holds
    for those that are not such variables (\<open>program_byte\<close>). \<open>Rt_Paging\<close> and \<open>Rt_Writeback\<close> prove, for every state
    that boot, faults and the program's stores reach (\<open>vm_reach\<close>), that paging is invisible
    to the program, that faults are served, that the program is confined to its pages, and
    that its memory is written back when it exits.
  \<^item> \<open>Tiny_Malloc\<close> (\<open>debug/programs/tiny-malloc.c\<close>): the allocator, its free list inside
    the memory it manages. \<open>Malloc_Heap\<close> refines it to first fit on a list of blocks by
    address; the locale \<open>allocator\<close> is its interface, interpreted on \<open>malloc\<close> and \<open>free\<close>,
    and \<open>calloc\<close> is verified from it.
  \<^item> \<open>Dhrystone\<close> (\<open>dry.c\<close>): both passes of the benchmark and its report.

  \<^bold>\<open>Conventions.\<close> A C integer is a word of its width; signed reads are \<open>sint\<close>. A function
  whose source can fail or run forever returns an option: a loop without an evident bound
  is a \<open>partial_function\<close>, \<open>None\<close> if it does not end, and the theorems about it state that
  it returns. Loops with a bound recurse on it. There is no fuel: where a bound is assumed
  it is one of the data (a list of at most \<open>2 ^ 30\<close> cells, since the run length of the sort
  doubles in 32 bits; an allocation of at most \<open>2 ^ 61\<close> bytes, since its size is rounded up in
  64; a heap below \<open>2 ^ 63\<close>; a number of runs below \<open>2 ^ 31\<close>).

  Code outside the repository is an argument: the clock, the SBI firmware and the evidence
  it returns, the host of the tests, the places of the supervisor's variables, the addresses that \<open>malloc\<close> of the C library returns,
  the frame address that bounds the heap.

  \<^bold>\<open>Not modelled.\<close> The firmware and the security manager in Rust (\<open>shadowfax\<close>, \<open>tsm\<close>,
  \<open>common\<close>): machine registers, OpenSBI and cryptographic crates. Floating point: \<open>cvt.c\<close>,
  the \<open>%f\<close> formats and the times per run of \<open>dry.c\<close>. The ports of CoreMark the repository
  does not build, the table \<open>encoding.h\<close> beyond the constants in use, the kernels in \<open>mt\<close>
  (variants of one matrix product), the debugger's target programs, and the assembly.
  Concurrency does not arise: each program runs on one hart.
\<close>

section \<open>The report and its output\<close>

text \<open>The arguments of a call as \<open>ee_printf\<close> receives them.\<close>

definition va_of :: "printf_arg \<Rightarrow> va_arg" where
  "va_of a = (case a of Arg_int w \<Rightarrow> VInt w | Arg_u32 w \<Rightarrow> VInt w | Arg_ulong w \<Rightarrow> VLong w | Arg_str s \<Rightarrow> VStr (Some (cstr s)))"

definition formats :: "printf_call \<Rightarrow> bool" where
  "formats c \<longleftrightarrow> ee_vsprintf (cstr (fst c)) (map va_of (snd c)) \<noteq> None"

lemmas format_simps = formats_def va_of_def cstr_def percent_d percent_u percent_lu percent_04x percent_s

lemma report_formats: "\<forall>c\<in>set (report_results b s t r). formats c"
  by (simp add: report_results_def ball_Un format_simps)

lemma check_formats: "\<forall>c\<in>set (snd (check_results k r)). formats c"
  by (simp add: check_results_def check_crc_def format_simps Let_def case_prod_unfold)

lemma known_formats: "\<forall>c\<in>set (snd (snd (known_seeds s))). formats c"
  by (simp add: known_seeds_def format_simps)

lemma types_formats: "\<forall>m\<in>set (snd (check_data_types t)). formats (m, [])"
  by (simp add: check_data_types_def set_check_type Let_def case_prod_unfold ball_Un format_simps)

lemma verdict_formats: "\<forall>c\<in>set (verdict n). formats c"
  by (simp add: verdict_def verdict_msgs ball_Un format_simps)

lemma init_formats: "\<forall>c\<in>set (fst (portable_init t)). formats c"
  by (simp add: portable_init_def ball_Un format_simps)

lemma main_report_formats: "\<forall>c\<in>set (snd (main_report b t r)). formats c"
proof -
  obtain k e out where k: "known_seeds (seed_crc r) = (k, e, out)" by (rule prod_cases3)
  obtain c out2 where c: "check_results k r = (c, out2)" by fastforce
  obtain e' out' where t: "check_data_types (sizes b) = (e', out')" by fastforce
  show ?thesis
    using known_formats [of "seed_crc r"] check_formats [of k r] types_formats [of "sizes b"]
      report_formats verdict_formats
    by (simp add: main_report_def k c t Let_def ball_Un)
qed

text \<open>
  C16: every call of \<open>ee_printf\<close> that the benchmark makes has the arguments its format asks
  for: no conversion reads an argument that is missing, of another kind or of another
  width (a \<open>%lu\<close> reads a \<open>long unsigned\<close>, the others an integer of 32 bits).
\<close>

theorem main_calls_format:
  assumes "main b rdtime v base block (res, t) = Some (pid, r', t', out)"
  shows "\<forall>c\<in>set out. formats c"
proof (cases "sizeof_list_head_s b > 128")
  case True
  with assms init_formats [of "sizes b"] show ?thesis
    by (auto simp: main_def format_simps split: prod.splits)
next
  case False
  obtain out1 i where i: "portable_init (sizes b) = (out1, i)" by fastforce
  with False assms obtain r1 t1 where "out = out1 @ snd (main_report b (get_time t1) r1)"
    by (auto simp: main_def Let_def bind_eq_Some_conv case_prod_unfold split: if_splits)
  with main_report_formats init_formats [of "sizes b"] i show ?thesis by auto
qed

theorem main_calls_format_witness:
  "\<exists>r' t' out. main rv64_build performance_clock performance_seeds 0x80000000 (replicate 2000 0)
      (bench_results, start_of_time) = Some (0, r', t', out) \<and> (\<forall>c\<in>set out. formats c)"
proof -
  obtain r' t' out where out: "main rv64_build performance_clock performance_seeds 0x80000000 (replicate 2000 0)
      (bench_results, start_of_time) = Some (0, r', t', out)"
    using performance_returns by blast
  from main_calls_format [OF this] out show ?thesis by blast
qed

end
